(* ===== verification/Rammux_Prelude.thy ===== *)
theory Rammux_Prelude
  imports Main "HOL-Library.Word"
begin

text \<open>
  Shared vocabulary of the development: the machine integers of the code, the result of a
  Rust computation (a value, an error, a panic), the result of polling, the big-endian byte
  representation of \<^typ>\<open>16 word\<close> and \<^typ>\<open>32 word\<close> values, and the generic lemmas on words,
  lists and finite sums that the component theories use.
\<close>

section \<open>Machine integers\<close>

type_synonym u8 = "8 word"
type_synonym u16 = "16 word"
type_synonym u32 = "32 word"

text \<open>
  The byte counters of the flow control are \<^verbatim>\<open>u64\<close> in the code. They are natural numbers here,
  and every addition and subtraction that the code does without a check wraps around at
  \<open>2 ^ 64\<close>, as a release build does (a debug build panics exactly where these wrap).
\<close>

type_synonym u64 = nat

abbreviation u64_size :: nat where
  "u64_size \<equiv> 18446744073709551616"

abbreviation u32_max :: nat where
  "u32_max \<equiv> 4294967295"

definition add_u64 :: "u64 \<Rightarrow> u64 \<Rightarrow> u64" where
  "add_u64 a b = (a + b) mod u64_size"

definition sub_u64 :: "u64 \<Rightarrow> u64 \<Rightarrow> u64" where
  "sub_u64 a b = (if b \<le> a then a - b else u64_size + a - b)"

section \<open>Results and polls\<close>

text \<open>A Rust computation that may fail returns \<open>Ok\<close> or \<open>Err\<close>; a panic is a third outcome.\<close>

datatype ('a, 'e) rres = Ok 'a | Err 'e | Panic

fun r_bind :: "('a, 'e) rres \<Rightarrow> ('a \<Rightarrow> ('b, 'e) rres) \<Rightarrow> ('b, 'e) rres" where
  "r_bind (Ok x) f = f x"
| "r_bind (Err e) f = Err e"
| "r_bind Panic f = Panic"

fun map_err :: "('e \<Rightarrow> 'f) \<Rightarrow> ('a, 'e) rres \<Rightarrow> ('a, 'f) rres" where
  "map_err g (Ok x) = Ok x"
| "map_err g (Err e) = Err (g e)"
| "map_err g Panic = Panic"

definition r_assert :: "bool \<Rightarrow> (unit, 'e) rres" where
  "r_assert b = (if b then Ok () else Panic)"

datatype 'a poll = Ready 'a | Pending

fun is_ready :: "'a poll \<Rightarrow> bool" where
  "is_ready (Ready x) = True"
| "is_ready Pending = False"

section \<open>Big-endian bytes\<close>

definition u16_to_be_bytes :: "u16 \<Rightarrow> u8 list" where
  "u16_to_be_bytes w = [ucast (drop_bit 8 w), ucast w]"

fun u16_from_be_bytes :: "u8 list \<Rightarrow> u16" where
  "u16_from_be_bytes [a, b] = or (push_bit 8 (ucast a)) (ucast b)"
| "u16_from_be_bytes _ = 0"

definition u32_to_be_bytes :: "u32 \<Rightarrow> u8 list" where
  "u32_to_be_bytes w =
     [ucast (drop_bit 24 w), ucast (drop_bit 16 w), ucast (drop_bit 8 w), ucast w]"

fun u32_from_be_bytes :: "u8 list \<Rightarrow> u32" where
  "u32_from_be_bytes [a, b, c, d] =
     or (push_bit 24 (ucast a)) (or (push_bit 16 (ucast b)) (or (push_bit 8 (ucast c)) (ucast d)))"
| "u32_from_be_bytes _ = 0"

section \<open>Lemma collections\<close>

named_theorems u64_simps \<open>unchecked \<^verbatim>\<open>u64\<close> arithmetic that does not wrap\<close>
named_theorems flag_simps \<open>tests and updates of the frame flags\<close>
named_theorems inv_defs \<open>definitions of the invariants of the components\<close>

section \<open>Lemmas\<close>

lemma add_u64_exact [u64_simps]: "a + b < u64_size \<Longrightarrow> add_u64 a b = a + b"
  by (simp add: add_u64_def)

lemma sub_u64_exact [u64_simps]: "b \<le> a \<Longrightarrow> sub_u64 a b = a - b"
  by (simp add: sub_u64_def)

lemma unat_le_u32_max: "unat (w :: u32) \<le> u32_max"
  using unsigned_less [of w, where ?'a = nat] by simp

lemma r_bind_eq_Ok [simp]: "r_bind m f = Ok y \<longleftrightarrow> (\<exists>x. m = Ok x \<and> f x = Ok y)"
  by (cases m) auto

lemma r_bind_eq_Panic: "r_bind m f = Panic \<longleftrightarrow> m = Panic \<or> (\<exists>x. m = Ok x \<and> f x = Panic)"
  by (cases m) auto

lemma map_err_eq_Ok [simp]: "map_err g m = Ok y \<longleftrightarrow> m = Ok y"
  by (cases m) auto

lemma r_assert_eq_Ok [simp]: "r_assert b = Ok u \<longleftrightarrow> b"
  by (simp add: r_assert_def)

lemma r_bind_assert [simp]: "r_bind (r_assert b) f = (if b then f () else Panic)"
  by (simp add: r_assert_def)

lemma r_bind_Ok_right [simp]: "r_bind m Ok = m"
  by (cases m) auto

lemma length_to_be_bytes [simp]:
  "length (u16_to_be_bytes w) = 2" "length (u32_to_be_bytes v) = 4"
  by (simp_all add: u16_to_be_bytes_def u32_to_be_bytes_def)

lemma u16_be_roundtrip [simp]: "u16_from_be_bytes (u16_to_be_bytes w) = w"
  by (rule bit_word_eqI) (auto simp: u16_to_be_bytes_def bit_simps)

lemma u32_be_roundtrip [simp]: "u32_from_be_bytes (u32_to_be_bytes w) = w"
proof (rule bit_word_eqI)
  fix n assume "n < LENGTH(32)"
  then consider "n < 8" | "8 \<le> n" "n < 16" | "16 \<le> n" "n < 24" | "24 \<le> n" "n < 32"
    by fastforce
  then show "bit (u32_from_be_bytes (u32_to_be_bytes w)) n = bit w n"
    by cases (auto simp: u32_to_be_bytes_def bit_simps)
qed

lemma length_2_conv: "length bs = 2 \<longleftrightarrow> (\<exists>a b. bs = [a, b])"
  by (auto simp: length_Suc_conv eval_nat_numeral)

lemma length_4_conv: "length bs = 4 \<longleftrightarrow> (\<exists>a b c d. bs = [a, b, c, d])"
  by (auto simp: length_Suc_conv eval_nat_numeral)

lemma u16_be_roundtrip2:
  assumes "length bs = 2"
  shows "u16_to_be_bytes (u16_from_be_bytes bs) = bs"
proof -
  obtain a b where bs: "bs = [a, b]" using assms by (auto simp: length_2_conv)
  have "ucast (drop_bit 8 (or (push_bit 8 (ucast a)) (ucast b) :: u16)) = a"
    by (rule bit_word_eqI) (auto simp: bit_simps dest: bit_imp_le_length)
  moreover have "ucast (or (push_bit 8 (ucast a)) (ucast b) :: u16) = b"
    by (rule bit_word_eqI) (auto simp: bit_simps)
  ultimately show ?thesis by (simp add: bs u16_to_be_bytes_def)
qed

lemma u32_be_roundtrip2:
  assumes "length bs = 4"
  shows "u32_to_be_bytes (u32_from_be_bytes bs) = bs"
proof -
  obtain a b c d where bs: "bs = [a, b, c, d]" using assms by (auto simp: length_4_conv)
  let ?w = "or (push_bit 24 (ucast a)) (or (push_bit 16 (ucast b)) (or (push_bit 8 (ucast c)) (ucast d))) :: u32"
  have "ucast (drop_bit 24 ?w) = a" "ucast (drop_bit 16 ?w) = b"
       "ucast (drop_bit 8 ?w) = c" "ucast ?w = d"
    by (rule bit_word_eqI, auto simp: bit_simps dest: bit_imp_le_length)+
  then show ?thesis by (simp add: bs u32_to_be_bytes_def)
qed

lemma and_exp_eq_exp_iff: "and (f :: 'a :: len word) (2 ^ n) = 2 ^ n \<longleftrightarrow> (n < LENGTH('a) \<longrightarrow> bit f n)"
proof -
  have "and f (2 ^ n) = 2 ^ n \<longleftrightarrow> (\<forall>k < LENGTH('a). k = n \<longrightarrow> bit f k)"
    unfolding bit_eq_iff [of "and f (2 ^ n)"] by (auto simp: bit_simps)
  then show ?thesis by auto
qed

lemma sum_fun_upd_nat:
  fixes f :: "'a \<Rightarrow> nat"
  assumes "finite A" and "x \<in> A"
  shows "(\<Sum>a\<in>A. (f(x := v)) a) + f x = (\<Sum>a\<in>A. f a) + v"
proof -
  have "(\<Sum>a\<in>A. (f(x := v)) a) = v + (\<Sum>a\<in>A - {x}. (f(x := v)) a)"
    using assms by (simp add: sum.remove)
  also have "(\<Sum>a\<in>A - {x}. (f(x := v)) a) = (\<Sum>a\<in>A - {x}. f a)"
    by (rule sum.cong) auto
  finally show ?thesis using assms by (simp add: sum.remove)
qed

end
