(* ===== verification/Config.thy ===== *)
theory Config
  imports Rammux_Prelude
begin

text \<open>
  The configuration of a connection (\<^verbatim>\<open>src/config.rs\<close>): the roles, the settings with their
  defaults, and the validation that every connection goes through. A \<^verbatim>\<open>Duration\<close> is a number of
  nanoseconds. The non-zero integer types of the code are words with the invariant
  \<open>config_typed\<close>.
\<close>

section \<open>Definitions\<close>

datatype rammux_role = Client | Server

type_synonym duration = nat

definition from_micros :: "nat \<Rightarrow> duration" where
  "from_micros n = n * 1000"

definition from_secs :: "nat \<Rightarrow> duration" where
  "from_secs n = n * 1000000000"

record rammux_config =
  frame_limit :: u16
  max_inbound_streams :: u32
  max_outbound_streams :: u32
  local_recv_window :: u32
  remote_recv_window :: u32
  local_recv_pool :: u32
  remote_recv_pool :: u32
  ping_bytes :: u32
  ping_interval :: duration
  inbound_frame_timeout :: duration

text \<open>The invariant of the types \<^verbatim>\<open>NonZeroU16\<close> and \<^verbatim>\<open>NonZeroU32\<close> of the fields.\<close>

definition config_typed :: "rammux_config \<Rightarrow> bool" where
  "config_typed c \<longleftrightarrow> frame_limit c \<noteq> 0 \<and> local_recv_window c \<noteq> 0 \<and> remote_recv_window c \<noteq> 0
     \<and> ping_bytes c \<noteq> 0"

definition config_new :: rammux_config where
  "config_new = \<lparr>
     frame_limit = 16 * 1024,
     max_inbound_streams = 128,
     max_outbound_streams = 128,
     local_recv_window = 64 * 1024,
     remote_recv_window = 64 * 1024,
     local_recv_pool = 4 * 1024 * 1024,
     remote_recv_pool = 4 * 1024 * 1024,
     ping_bytes = 32 * 1024,
     ping_interval = from_secs 5,
     inbound_frame_timeout = from_secs 10\<rparr>"

definition max_streams_per_side :: u32 where
  "max_streams_per_side = push_bit 15 1"

datatype config_error =
    TooManyStreams string u32
  | ZeroPingInterval
  | PingIntervalTooLong duration duration

definition config_validate :: "rammux_config \<Rightarrow> (unit, config_error) rres" where
  "config_validate c =
     (if max_inbound_streams c > max_streams_per_side then
        Err (TooManyStreams ''max_inbound_streams'' (max_inbound_streams c))
      else if max_outbound_streams c > max_streams_per_side then
        Err (TooManyStreams ''max_outbound_streams'' (max_outbound_streams c))
      else if ping_interval c = 0 then Err ZeroPingInterval
      else if ping_interval c \<ge> inbound_frame_timeout c then
        Err (PingIntervalTooLong (ping_interval c) (inbound_frame_timeout c))
      else Ok ())"

text \<open>
  What the documentation of the settings asks the two sides of a connection to agree on.
\<close>

definition config_compatible :: "rammux_config \<Rightarrow> rammux_config \<Rightarrow> bool" where
  "config_compatible a b \<longleftrightarrow>
     frame_limit a = frame_limit b
     \<and> max_outbound_streams a \<le> max_inbound_streams b
     \<and> max_outbound_streams b \<le> max_inbound_streams a
     \<and> remote_recv_window a = local_recv_window b \<and> remote_recv_window b = local_recv_window a
     \<and> remote_recv_pool a = local_recv_pool b \<and> remote_recv_pool b = local_recv_pool a"

section \<open>Lemmas\<close>

lemma unat_max_streams_per_side [simp]: "unat max_streams_per_side = 32768"
  by (simp add: max_streams_per_side_def)

lemma config_validate_not_Panic: "config_validate c \<noteq> Panic"
  by (simp add: config_validate_def)

lemma config_validate_Ok_iff:
  "config_validate c = Ok () \<longleftrightarrow>
     unat (max_inbound_streams c) \<le> 32768 \<and> unat (max_outbound_streams c) \<le> 32768
     \<and> 0 < ping_interval c \<and> ping_interval c < inbound_frame_timeout c"
  by (auto simp: config_validate_def word_less_nat_alt)

lemma config_new_typed: "config_typed config_new"
  by (simp add: config_typed_def config_new_def)

lemma config_new_valid: "config_validate config_new = Ok ()"
  by (simp add: config_validate_Ok_iff config_new_def from_secs_def)

lemma config_new_compatible: "config_compatible config_new config_new"
  by (simp add: config_compatible_def config_new_def)

text \<open>
  The validation accepts a configuration exactly when both stream limits fit the 32768 IDs
  of a side, the ping interval is not zero, and it is shorter than the inbound frame timeout;
  the errors name the first violated condition in the order of the code.
\<close>

theorem config_validate_spec:
  "(config_validate c = Ok () \<longleftrightarrow>
      unat (max_inbound_streams c) \<le> 32768 \<and> unat (max_outbound_streams c) \<le> 32768
      \<and> 0 < ping_interval c \<and> ping_interval c < inbound_frame_timeout c)
   \<and> (config_validate c = Err (TooManyStreams ''max_inbound_streams'' (max_inbound_streams c)) \<longleftrightarrow>
      32768 < unat (max_inbound_streams c))
   \<and> (config_validate c = Err (TooManyStreams ''max_outbound_streams'' (max_outbound_streams c)) \<longleftrightarrow>
      unat (max_inbound_streams c) \<le> 32768 \<and> 32768 < unat (max_outbound_streams c))
   \<and> (config_validate c = Err ZeroPingInterval \<longleftrightarrow>
      unat (max_inbound_streams c) \<le> 32768 \<and> unat (max_outbound_streams c) \<le> 32768
      \<and> ping_interval c = 0)
   \<and> config_validate config_new = Ok ()"
  by (intro conjI config_validate_Ok_iff config_new_valid)
    (auto simp: config_validate_def word_less_nat_alt)

end
