(* ===== verification/Stream_Id.thy ===== *)
theory Stream_Id
  imports Config
begin

text \<open>
  Stream identifiers (\<^verbatim>\<open>src/stream_id.rs\<close>): a 16-bit number whose lowest bit tells which role
  started the stream, and the correspondence with the indices of the slab that allocates the IDs
  of a side. \<^verbatim>\<open>usize\<close> is 64 bits wide.
\<close>

section \<open>Definitions\<close>

datatype stream_id = StreamId (id_raw: u16)

instantiation stream_id :: linorder
begin

definition less_eq_stream_id :: "stream_id \<Rightarrow> stream_id \<Rightarrow> bool" where
  "less_eq_stream_id a b \<longleftrightarrow> id_raw a \<le> id_raw b"

definition less_stream_id :: "stream_id \<Rightarrow> stream_id \<Rightarrow> bool" where
  "less_stream_id a b \<longleftrightarrow> id_raw a < id_raw b"

instance
  by standard (auto simp: less_eq_stream_id_def less_stream_id_def stream_id.expand)

end

definition initiated_by :: "stream_id \<Rightarrow> rammux_role" where
  "initiated_by i = (if id_raw i mod 2 = 0 then Client else Server)"

definition id_from_be_bytes :: "u8 list \<Rightarrow> stream_id" where
  "id_from_be_bytes bs = StreamId (u16_from_be_bytes bs)"

definition id_to_be_bytes :: "stream_id \<Rightarrow> u8 list" where
  "id_to_be_bytes i = u16_to_be_bytes (id_raw i)"

definition slab_idx :: "stream_id \<Rightarrow> nat" where
  "slab_idx i = unat (id_raw i div 2)"

definition from_slab_idx :: "nat \<Rightarrow> rammux_role \<Rightarrow> stream_id option" where
  "from_slab_idx idx role =
     (let doubled = idx * 2 in
      if doubled \<ge> u64_size then None
      else let i = doubled + of_bool (role = Server) in
        if i \<ge> u64_size then None
        else if i < 2 ^ 16 then Some (StreamId (word_of_nat i)) else None)"

section \<open>Lemmas\<close>

lemma id_be_roundtrip [simp]: "id_from_be_bytes (id_to_be_bytes i) = i"
  by (simp add: id_from_be_bytes_def id_to_be_bytes_def)

lemma length_id_to_be_bytes [simp]: "length (id_to_be_bytes i) = 2"
  by (simp add: id_to_be_bytes_def)

lemma id_be_roundtrip2: "length bs = 2 \<Longrightarrow> id_to_be_bytes (id_from_be_bytes bs) = bs"
  by (simp add: id_from_be_bytes_def id_to_be_bytes_def u16_be_roundtrip2)

lemma from_slab_idx_eq:
  "from_slab_idx idx role =
     (if idx < 32768 then Some (StreamId (word_of_nat (idx * 2 + of_bool (role = Server)))) else None)"
  by (auto simp: from_slab_idx_def Let_def)

lemma unat_id_div: "unat (id_raw i div 2) = unat (id_raw i) div 2"
  by (simp add: unat_div_distrib)

lemma initiated_by_even: "initiated_by i = Client \<longleftrightarrow> even (unat (id_raw i))"
proof -
  have "id_raw i mod 2 = 0 \<longleftrightarrow> unat (id_raw i mod 2) = 0" by (simp add: unat_eq_0)
  also have "\<dots> \<longleftrightarrow> even (unat (id_raw i))" by (simp add: unat_mod_distrib even_iff_mod_2_eq_zero)
  finally show ?thesis by (simp add: initiated_by_def)
qed

lemma unat_small_u16: "n < 65536 \<Longrightarrow> unat (word_of_nat n :: u16) = n"
  by (simp add: unat_of_nat)

lemma slab_idx_lt: "slab_idx i < 32768"
  using unsigned_less [of "id_raw i", where ?'a = nat] by (simp add: slab_idx_def unat_id_div)

lemma from_slab_idx_Some:
  assumes "from_slab_idx idx role = Some i"
  shows "slab_idx i = idx" and "initiated_by i = role"
proof -
  from assms have idx: "idx < 32768" and i: "i = StreamId (word_of_nat (idx * 2 + of_bool (role = Server)))"
    by (auto simp: from_slab_idx_eq split: if_splits)
  have n: "unat (id_raw i) = idx * 2 + of_bool (role = Server)"
    using idx unat_small_u16 [of "idx * 2 + of_bool (role = Server)"] by (simp add: i del: of_nat_add of_nat_mult of_bool_eq_iff)
  show "slab_idx i = idx" by (simp add: slab_idx_def unat_id_div n)
  show "initiated_by i = role"
    using initiated_by_even [of i] by (cases role; cases "initiated_by i") (auto simp: n)
qed

lemma from_slab_idx_of_id: "from_slab_idx (slab_idx i) (initiated_by i) = Some i"
proof -
  have "unat (id_raw i) = slab_idx i * 2 + of_bool (initiated_by i = Server)"
    using initiated_by_even [of i]
    by (cases "initiated_by i") (auto simp: slab_idx_def unat_id_div elim!: oddE)
  then have "id_raw i = word_of_nat (slab_idx i * 2 + of_bool (initiated_by i = Server))"
    by (metis of_nat_unat ucast_id)
  then show ?thesis using slab_idx_lt [of i] by (cases i) (simp add: from_slab_idx_eq)
qed

lemma id_eq_iff: "i = j \<longleftrightarrow> slab_idx i = slab_idx j \<and> initiated_by i = initiated_by j"
  by (metis from_slab_idx_of_id option.inject)

text \<open>
  C30. The IDs of a side and the slab indices below 32768 correspond one to one: the ID of an
  index leads back to that index and to the role that allocated it, every ID comes from its own
  index and role, and an index outside of the range has no ID.
\<close>

theorem slab_idx_bijection:
  "(from_slab_idx idx role = Some i \<longleftrightarrow> slab_idx i = idx \<and> initiated_by i = role)
   \<and> (from_slab_idx idx role = None \<longleftrightarrow> 32768 \<le> idx)
   \<and> id_from_be_bytes (id_to_be_bytes i) = i"
proof (intro conjI)
  show "from_slab_idx idx role = Some i \<longleftrightarrow> slab_idx i = idx \<and> initiated_by i = role"
    using from_slab_idx_Some from_slab_idx_of_id by blast
  show "from_slab_idx idx role = None \<longleftrightarrow> 32768 \<le> idx"
    by (simp add: from_slab_idx_eq)
  show "id_from_be_bytes (id_to_be_bytes i) = i" by simp
qed

end
