(* ===== verification/Rammux_Error.thy ===== *)
theory Rammux_Error
  imports Stream_Id
begin

text \<open>
  The errors (\<^verbatim>\<open>src/error.rs\<close>): what can go wrong in a connection, and the classification that
  the public error type offers. The messages are the ones of the code. An \<^verbatim>\<open>io::Error\<close> is its
  kind; the errors that the transport makes up are \<open>OtherIo\<close> with a number of their own.
\<close>

section \<open>Definitions\<close>

datatype io_error = UnexpectedEof | TimedOut | WriteZero | BrokenPipe | OtherIo nat

datatype decode_error = DecodeError string

datatype stream_error = StreamError string

datatype error_kind =
    Io io_error
  | Decode decode_error
  | Stream stream_id stream_error
  | AlreadyDowngraded
  | Poisoned

fun is_misuse :: "error_kind \<Rightarrow> bool" where
  "is_misuse AlreadyDowngraded = True"
| "is_misuse Poisoned = True"
| "is_misuse _ = False"

datatype rammux_error = RammuxError error_kind

fun is_user :: "rammux_error \<Rightarrow> bool" where
  "is_user (RammuxError k) = is_misuse k"

fun is_io :: "rammux_error \<Rightarrow> bool" where
  "is_io (RammuxError (Io _)) = True"
| "is_io _ = False"

fun as_io :: "rammux_error \<Rightarrow> io_error option" where
  "as_io (RammuxError (Io e)) = Some e"
| "as_io _ = None"

fun into_io :: "rammux_error \<Rightarrow> (io_error, rammux_error) rres" where
  "into_io (RammuxError (Io e)) = Ok e"
| "into_io (RammuxError other) = Err (RammuxError other)"

fun is_protocol_violation :: "rammux_error \<Rightarrow> bool" where
  "is_protocol_violation (RammuxError k) =
     (case k of Decode _ \<Rightarrow> True | Stream _ _ \<Rightarrow> True
      | Io _ \<Rightarrow> False | AlreadyDowngraded \<Rightarrow> False | Poisoned \<Rightarrow> False)"

section \<open>Lemmas\<close>

text \<open>
  Every error is of exactly one of the three classes a user can ask for (misuse, transport
  failure, protocol violation), and the source of a transport failure is recovered exactly.
\<close>

theorem error_classes_partition:
  "(if is_user e then 1 else 0) + (if is_io e then 1 else 0)
     + (if is_protocol_violation e then 1 else 0) = (1 :: nat)
   \<and> (as_io e = Some x \<longleftrightarrow> into_io e = Ok x)
   \<and> (\<not> is_io e \<longleftrightarrow> into_io e = Err e)"
proof -
  obtain k where "e = RammuxError k" by (cases e)
  then show ?thesis by (cases k) auto
qed

end
