(* ===== verification/Header.thy ===== *)
theory Header
  imports Rammux_Error
begin

text \<open>
  Frame headers (\<^verbatim>\<open>src/wire/header.rs\<close>): the flags and their validation, the header as a record,
  its encoding into the 18 byte buffer through the \<^verbatim>\<open>Writer\<close>, and its decoding through the
  \<^verbatim>\<open>Reader\<close>. \<open>Flags\<close> is the \<^verbatim>\<open>bitflags\<close> type over \<^verbatim>\<open>u16\<close>, modelled as its bits. The optional
  non-zero integers are optional words with the invariant \<open>header_typed\<close>. A violated assertion
  and a slice out of range are the outcome \<open>Panic\<close>.
\<close>

unbundle bit_operations_syntax

section \<open>Definitions\<close>

subsection \<open>Flags\<close>

type_synonym flags = u16

definition SYN :: flags where "SYN = 0x0001"
definition FIN_READ :: flags where "FIN_READ = 0x0002"
definition FIN_WRITE :: flags where "FIN_WRITE = 0x0004"
definition WINDOW :: flags where "WINDOW = 0x0008"
definition DATA :: flags where "DATA = 0x0010"
definition PING :: flags where "PING = 0x0020"
definition PONG :: flags where "PONG = 0x0040"
definition TERM_flag :: flags where "TERM_flag = 0x0080"

definition flags_contains :: "flags \<Rightarrow> flags \<Rightarrow> bool" where
  "flags_contains f g \<longleftrightarrow> f AND g = g"

definition flags_intersects :: "flags \<Rightarrow> flags \<Rightarrow> bool" where
  "flags_intersects f g \<longleftrightarrow> f AND g \<noteq> 0"

definition flags_set :: "flags \<Rightarrow> flags \<Rightarrow> bool \<Rightarrow> flags" where
  "flags_set f g v = (if v then f OR g else f AND NOT g)"

definition flags_from_bits :: "u16 \<Rightarrow> flags option" where
  "flags_from_bits raw =
     (if raw AND NOT (SYN OR FIN_READ OR FIN_WRITE OR WINDOW OR DATA OR PING OR PONG OR TERM_flag) = 0
      then Some raw else None)"

definition STREAM :: flags where
  "STREAM = SYN OR FIN_READ OR FIN_WRITE OR WINDOW OR DATA"

definition FLAGS_LEN :: nat where
  "FLAGS_LEN = 2"

definition header_len :: "flags \<Rightarrow> nat" where
  "header_len f =
     FLAGS_LEN
     + (if flags_intersects f STREAM then 2 else 0)
     + (if flags_contains f WINDOW then 4 else 0)
     + (if flags_contains f DATA then 2 else 0)
     + (if flags_contains f PING then 4 else 0)
     + (if flags_contains f PONG then 4 else 0)"

definition flags_validate :: "u16 \<Rightarrow> (flags, decode_error) rres" where
  "flags_validate raw =
     (case flags_from_bits raw of
        None \<Rightarrow> Err (DecodeError ''reserved flags set'')
      | Some f \<Rightarrow>
          if f = 0 then Err (DecodeError ''frame without flags'')
          else if flags_contains f TERM_flag \<and> f \<noteq> TERM_flag then
            Err (DecodeError ''TERM combined with other flags'')
          else Ok f)"

definition MAX_HEADER_LEN :: nat where
  "MAX_HEADER_LEN = 18"

subsection \<open>Headers\<close>

record pong =
  t_echo :: u32

record control_flags =
  fin_read :: bool
  fin_write :: bool
  syn :: bool

record stream_header =
  sh_id :: stream_id
  sh_flags :: control_flags
  sh_credit :: "u32 option"
  sh_data_len :: "u16 option"

record header =
  h_stream :: "stream_header option"
  h_ping :: "u32 option"
  h_pong :: "pong option"
  h_term :: bool

definition header_typed :: "header \<Rightarrow> bool" where
  "header_typed h \<longleftrightarrow>
     (\<forall>s. h_stream h = Some s \<longrightarrow> sh_credit s \<noteq> Some 0 \<and> sh_data_len s \<noteq> Some 0)"

definition stream_flags :: "stream_header \<Rightarrow> flags" where
  "stream_flags s =
     flags_set (flags_set (flags_set (flags_set (flags_set 0
       SYN (syn (sh_flags s)))
       FIN_READ (fin_read (sh_flags s)))
       FIN_WRITE (fin_write (sh_flags s)))
       WINDOW (sh_credit s \<noteq> None))
       DATA (sh_data_len s \<noteq> None)"

definition header_flags :: "header \<Rightarrow> flags" where
  "header_flags h =
     flags_set (flags_set (flags_set
       (case h_stream h of None \<Rightarrow> 0 | Some s \<Rightarrow> stream_flags s)
       PING (h_ping h \<noteq> None))
       PONG (h_pong h \<noteq> None))
       TERM_flag (h_term h)"

subsection \<open>Writing and reading the fields\<close>

record writer =
  w_buf :: "u8 list"
  w_at :: nat

definition writer_put :: "u8 list \<Rightarrow> writer \<Rightarrow> (writer, decode_error) rres" where
  "writer_put bytes w =
     (if w_at w + length bytes \<le> length (w_buf w) then
        Ok (w\<lparr>w_buf := take (w_at w) (w_buf w) @ bytes @ drop (w_at w + length bytes) (w_buf w),
              w_at := w_at w + length bytes\<rparr>)
      else Panic)"

record reader =
  r_buf :: "u8 list"
  r_at :: nat

definition reader_take :: "nat \<Rightarrow> reader \<Rightarrow> (u8 list \<times> reader, decode_error) rres" where
  "reader_take n r =
     (if r_at r + n \<le> length (r_buf r) then
        Ok (take n (drop (r_at r) (r_buf r)), r\<lparr>r_at := r_at r + n\<rparr>)
      else Panic)"

definition put_opt :: "('a \<Rightarrow> u8 list) \<Rightarrow> 'a option \<Rightarrow> writer \<Rightarrow> (writer, decode_error) rres" where
  "put_opt enc x w = (case x of None \<Rightarrow> Ok w | Some v \<Rightarrow> writer_put (enc v) w)"

definition header_encode :: "header \<Rightarrow> u8 list \<Rightarrow> (u8 list \<times> nat, decode_error) rres" where
  "header_encode h out =
     r_bind (r_assert (\<exists>f. flags_validate (header_flags h) = Ok f)) (\<lambda>_.
     r_bind (case h_stream h of None \<Rightarrow> Ok () | Some s \<Rightarrow> r_assert (stream_flags s \<noteq> 0)) (\<lambda>_.
     r_bind (writer_put (u16_to_be_bytes (header_flags h)) \<lparr>w_buf = out, w_at = 0\<rparr>) (\<lambda>w.
     r_bind (case h_stream h of None \<Rightarrow> Ok w
             | Some s \<Rightarrow>
                 r_bind (writer_put (id_to_be_bytes (sh_id s)) w) (\<lambda>w.
                 r_bind (put_opt u32_to_be_bytes (sh_credit s) w) (\<lambda>w.
                 put_opt u16_to_be_bytes (sh_data_len s) w))) (\<lambda>w.
     r_bind (put_opt u32_to_be_bytes (h_ping h) w) (\<lambda>w.
     r_bind (put_opt (\<lambda>p. u32_to_be_bytes (t_echo p)) (h_pong h) w) (\<lambda>w.
     Ok (w_buf w, w_at w)))))))"

definition non_zero :: "'a :: zero \<Rightarrow> 'a option" where
  "non_zero x = (if x = 0 then None else Some x)"

definition take_credit :: "flags \<Rightarrow> reader \<Rightarrow> (u32 option \<times> reader, decode_error) rres" where
  "take_credit f r =
     (if flags_contains f WINDOW then
        r_bind (reader_take 4 r) (\<lambda>(bs, r).
          case non_zero (u32_from_be_bytes bs) of
            None \<Rightarrow> Err (DecodeError ''WINDOW with zero credit'')
          | Some c \<Rightarrow> Ok (Some c, r))
      else Ok (None, r))"

definition take_data_len :: "flags \<Rightarrow> reader \<Rightarrow> (u16 option \<times> reader, decode_error) rres" where
  "take_data_len f r =
     (if flags_contains f DATA then
        r_bind (reader_take 2 r) (\<lambda>(bs, r).
          case non_zero (u16_from_be_bytes bs) of
            None \<Rightarrow> Err (DecodeError ''DATA with zero length'')
          | Some n \<Rightarrow> Ok (Some n, r))
      else Ok (None, r))"

definition header_decode :: "flags \<Rightarrow> u8 list \<Rightarrow> (header, decode_error) rres" where
  "header_decode f bytes =
     r_bind
       (if flags_intersects f STREAM then
          r_bind (reader_take 2 \<lparr>r_buf = bytes, r_at = FLAGS_LEN\<rparr>) (\<lambda>(bs, r).
          r_bind (take_credit f r) (\<lambda>(credit, r).
          r_bind (take_data_len f r) (\<lambda>(data_len, r).
          Ok (Some \<lparr>sh_id = id_from_be_bytes bs,
                    sh_flags = \<lparr>fin_read = flags_contains f FIN_READ,
                                fin_write = flags_contains f FIN_WRITE,
                                syn = flags_contains f SYN\<rparr>,
                    sh_credit = credit,
                    sh_data_len = data_len\<rparr>, r))))
        else Ok (None, \<lparr>r_buf = bytes, r_at = FLAGS_LEN\<rparr>)) (\<lambda>(stream, r).
     r_bind
       (if flags_contains f PING then
          r_bind (reader_take 4 r) (\<lambda>(bs, r). Ok (Some (u32_from_be_bytes bs), r))
        else Ok (None, r)) (\<lambda>(ping, r).
     r_bind
       (if flags_contains f PONG then
          r_bind (reader_take 4 r) (\<lambda>(bs, r). Ok (Some \<lparr>t_echo = u32_from_be_bytes bs\<rparr>, r))
        else Ok (None, r)) (\<lambda>(pong, r).
     Ok \<lparr>h_stream = stream, h_ping = ping, h_pong = pong, h_term = flags_contains f TERM_flag\<rparr>)))"

subsection \<open>The wire format, as a specification\<close>

definition opt_bytes :: "('a \<Rightarrow> u8 list) \<Rightarrow> 'a option \<Rightarrow> u8 list" where
  "opt_bytes enc x = (case x of None \<Rightarrow> [] | Some v \<Rightarrow> enc v)"

definition stream_part_bytes :: "stream_header \<Rightarrow> u8 list" where
  "stream_part_bytes s = id_to_be_bytes (sh_id s) @ opt_bytes u32_to_be_bytes (sh_credit s)
     @ opt_bytes u16_to_be_bytes (sh_data_len s)"

definition header_bytes :: "header \<Rightarrow> u8 list" where
  "header_bytes h = u16_to_be_bytes (header_flags h)
     @ opt_bytes stream_part_bytes (h_stream h)
     @ opt_bytes u32_to_be_bytes (h_ping h)
     @ opt_bytes (\<lambda>p. u32_to_be_bytes (t_echo p)) (h_pong h)"

definition header_legal :: "header \<Rightarrow> bool" where
  "header_legal h \<longleftrightarrow> flags_validate (header_flags h) = Ok (header_flags h)
     \<and> (\<forall>s. h_stream h = Some s \<longrightarrow> stream_flags s \<noteq> 0)"

section \<open>Lemmas\<close>

subsection \<open>Flags\<close>

lemmas flag_defs = SYN_def FIN_READ_def FIN_WRITE_def WINDOW_def DATA_def PING_def PONG_def TERM_flag_def

lemma flag_bits [flag_simps]:
  "bit SYN n \<longleftrightarrow> n = 0" "bit FIN_READ n \<longleftrightarrow> n = 1" "bit FIN_WRITE n \<longleftrightarrow> n = 2"
  "bit WINDOW n \<longleftrightarrow> n = 3" "bit DATA n \<longleftrightarrow> n = 4" "bit PING n \<longleftrightarrow> n = 5"
  "bit PONG n \<longleftrightarrow> n = 6" "bit TERM_flag n \<longleftrightarrow> n = 7"
proof -
  have eq: "SYN = 2 ^ 0" "FIN_READ = 2 ^ 1" "FIN_WRITE = 2 ^ 2" "WINDOW = 2 ^ 3" "DATA = 2 ^ 4"
    "PING = 2 ^ 5" "PONG = 2 ^ 6" "TERM_flag = 2 ^ 7"
    by (simp_all add: flag_defs)
  show "bit SYN n \<longleftrightarrow> n = 0" "bit FIN_READ n \<longleftrightarrow> n = 1" "bit FIN_WRITE n \<longleftrightarrow> n = 2"
    "bit WINDOW n \<longleftrightarrow> n = 3" "bit DATA n \<longleftrightarrow> n = 4" "bit PING n \<longleftrightarrow> n = 5"
    "bit PONG n \<longleftrightarrow> n = 6" "bit TERM_flag n \<longleftrightarrow> n = 7"
    unfolding eq bit_exp_iff by auto
qed

lemma flags_contains_bit [flag_simps]:
  "flags_contains f SYN \<longleftrightarrow> bit f 0" "flags_contains f FIN_READ \<longleftrightarrow> bit f 1"
  "flags_contains f FIN_WRITE \<longleftrightarrow> bit f 2" "flags_contains f WINDOW \<longleftrightarrow> bit f 3"
  "flags_contains f DATA \<longleftrightarrow> bit f 4" "flags_contains f PING \<longleftrightarrow> bit f 5"
  "flags_contains f PONG \<longleftrightarrow> bit f 6" "flags_contains f TERM_flag \<longleftrightarrow> bit f 7"
  using and_exp_eq_exp_iff [of f 0] and_exp_eq_exp_iff [of f 1] and_exp_eq_exp_iff [of f 2]
    and_exp_eq_exp_iff [of f 3] and_exp_eq_exp_iff [of f 4] and_exp_eq_exp_iff [of f 5]
    and_exp_eq_exp_iff [of f 6] and_exp_eq_exp_iff [of f 7]
  by (simp_all add: flags_contains_def flag_defs)

lemma flags_eq_0_iff: "(f :: flags) = 0 \<longleftrightarrow> (\<forall>n. \<not> bit f n)"
  by (auto intro: bit_word_eqI)

lemma flags_intersects_STREAM [flag_simps]:
  "flags_intersects f STREAM \<longleftrightarrow> bit f 0 \<or> bit f 1 \<or> bit f 2 \<or> bit f 3 \<or> bit f 4"
proof -
  have "flags_intersects f STREAM \<longleftrightarrow> (\<exists>n. bit f n \<and> bit STREAM n)"
    by (simp add: flags_intersects_def flags_eq_0_iff bit_and_iff)
  then show ?thesis by (auto simp: STREAM_def bit_or_iff flag_simps)
qed

lemma and_not_eq_0_iff: "(f :: flags) AND NOT g = 0 \<longleftrightarrow> (\<forall>n. bit f n \<longrightarrow> bit g n)"
  using bit_imp_le_length [of f] by (auto simp: flags_eq_0_iff bit_and_iff bit_not_iff)

lemma bit_flags_set [flag_simps]:
  "bit (flags_set f g v) n \<longleftrightarrow> (if bit g n then v else bit f n)"
proof (cases "n < 16")
  case True
  then show ?thesis by (auto simp: flags_set_def bit_simps)
next
  case False
  then have "\<not> bit g n" "\<not> bit f n" "\<not> bit (flags_set f g v) n"
    by (auto dest: bit_imp_le_length)
  then show ?thesis by simp
qed

lemma flags_from_bits_Some:
  "flags_from_bits raw = Some f \<longleftrightarrow> f = raw \<and> (\<forall>n \<ge> 8. \<not> bit raw n)"
proof -
  let ?all = "SYN OR FIN_READ OR FIN_WRITE OR WINDOW OR DATA OR PING OR PONG OR TERM_flag"
  have all: "bit ?all n \<longleftrightarrow> n < 8" for n
    by (auto simp: bit_or_iff flag_simps)
  have "raw AND NOT ?all = 0 \<longleftrightarrow> (\<forall>n \<ge> 8. \<not> bit raw n)"
    unfolding and_not_eq_0_iff all by (auto simp: not_le)
  then show ?thesis by (auto simp: flags_from_bits_def)
qed

lemma flags_eq_TERM_iff: "(f :: flags) = TERM_flag \<longleftrightarrow> (\<forall>n. bit f n \<longleftrightarrow> n = 7)"
  by (metis bit_eqI flag_bits(8))

lemma flags_validate_Ok:
  "flags_validate raw = Ok f \<longleftrightarrow>
     f = raw \<and> (\<forall>n \<ge> 8. \<not> bit raw n) \<and> raw \<noteq> 0 \<and> (bit raw 7 \<longrightarrow> raw = TERM_flag)"
proof (cases "flags_from_bits raw")
  case None
  then have "\<not> (\<forall>n \<ge> 8. \<not> bit raw n)" using flags_from_bits_Some [of raw raw] by auto
  with None show ?thesis by (auto simp: flags_validate_def)
next
  case (Some g)
  then show ?thesis
    using flags_from_bits_Some [of raw g] by (auto simp: flags_validate_def flags_contains_bit)
qed

lemma flags_validate_not_Panic: "flags_validate raw \<noteq> Panic"
  by (simp add: flags_validate_def split: option.split)

lemma bit_stream_flags [flag_simps]:
  "bit (stream_flags s) n \<longleftrightarrow>
     n = 0 \<and> syn (sh_flags s) \<or> n = 1 \<and> fin_read (sh_flags s) \<or> n = 2 \<and> fin_write (sh_flags s)
     \<or> n = 3 \<and> sh_credit s \<noteq> None \<or> n = 4 \<and> sh_data_len s \<noteq> None"
  by (auto simp: stream_flags_def flag_simps)

lemma bit_header_flags [flag_simps]:
  "bit (header_flags h) n \<longleftrightarrow>
     (\<exists>s. h_stream h = Some s \<and> bit (stream_flags s) n)
     \<or> n = 5 \<and> h_ping h \<noteq> None \<or> n = 6 \<and> h_pong h \<noteq> None \<or> n = 7 \<and> h_term h"
  by (cases "h_stream h") (auto simp: header_flags_def bit_flags_set flag_bits bit_stream_flags)

lemma header_len_le_18: "header_len f \<le> MAX_HEADER_LEN"
  by (simp add: header_len_def FLAGS_LEN_def MAX_HEADER_LEN_def)

subsection \<open>Encoding\<close>

text \<open>\<open>wrote m w bs\<close>: the computation \<open>m\<close> appended exactly \<open>bs\<close> to what the writer \<open>w\<close> held.\<close>

definition wrote :: "(writer, decode_error) rres \<Rightarrow> writer \<Rightarrow> u8 list \<Rightarrow> bool" where
  "wrote m w bs \<longleftrightarrow> (\<exists>w'. m = Ok w' \<and> length (w_buf w') = length (w_buf w)
     \<and> w_at w' = w_at w + length bs \<and> take (w_at w') (w_buf w') = take (w_at w) (w_buf w) @ bs)"

lemma wrote_Ok: "wrote (Ok w) w []"
  by (simp add: wrote_def)

lemma wrote_put: "w_at w + length bs \<le> length (w_buf w) \<Longrightarrow> wrote (writer_put bs w) w bs"
  by (auto simp: wrote_def writer_put_def)

lemma wrote_put_opt:
  "w_at w + length (opt_bytes enc x) \<le> length (w_buf w) \<Longrightarrow> wrote (put_opt enc x w) w (opt_bytes enc x)"
  by (cases x) (auto simp: put_opt_def opt_bytes_def intro: wrote_Ok wrote_put)

lemma wrote_bind:
  assumes "wrote m w bs"
    and "\<And>w'. w_at w' = w_at w + length bs \<Longrightarrow> length (w_buf w') = length (w_buf w) \<Longrightarrow> wrote (f w') w' cs"
  shows "wrote (r_bind m f) w (bs @ cs)"
proof -
  obtain w' where w': "m = Ok w'" "length (w_buf w') = length (w_buf w)" "w_at w' = w_at w + length bs"
      "take (w_at w') (w_buf w') = take (w_at w) (w_buf w) @ bs"
    using assms(1) by (auto simp: wrote_def)
  have "wrote (f w') w' cs" using assms(2) w'(2,3) by simp
  then show ?thesis using w' by (auto simp: wrote_def)
qed

lemma length_opt_bytes [simp]:
  "length (opt_bytes u32_to_be_bytes x) = (if x = None then 0 else 4)"
  "length (opt_bytes u16_to_be_bytes y) = (if y = None then 0 else 2)"
  "length (opt_bytes (\<lambda>p. u32_to_be_bytes (t_echo p)) z) = (if z = None then 0 else 4)"
  by (auto simp: opt_bytes_def split: option.split)

lemma length_header_bytes:
  assumes "\<forall>s. h_stream h = Some s \<longrightarrow> stream_flags s \<noteq> 0"
  shows "length (header_bytes h) = header_len (header_flags h)"
proof -
  have "flags_intersects (header_flags h) STREAM \<longleftrightarrow> h_stream h \<noteq> None"
    using assms
    by (auto simp: flags_intersects_STREAM bit_header_flags flags_eq_0_iff bit_stream_flags)
  then show ?thesis
    by (cases "h_stream h")
      (auto simp: header_bytes_def header_len_def FLAGS_LEN_def
        flags_contains_bit bit_header_flags bit_stream_flags stream_part_bytes_def opt_bytes_def
        split: option.split)
qed

lemma header_legal_iff:
  "header_legal h \<longleftrightarrow> (\<exists>f. flags_validate (header_flags h) = Ok f)
     \<and> (\<forall>s. h_stream h = Some s \<longrightarrow> stream_flags s \<noteq> 0)"
  by (auto simp: header_legal_def flags_validate_Ok)

lemma wrote_stream_part:
  "w_at w + length (opt_bytes stream_part_bytes x) \<le> length (w_buf w) \<Longrightarrow>
   wrote (case x of None \<Rightarrow> Ok w
     | Some s \<Rightarrow>
         r_bind (writer_put (id_to_be_bytes (sh_id s)) w) (\<lambda>w.
         r_bind (put_opt u32_to_be_bytes (sh_credit s) w) (\<lambda>w.
         put_opt u16_to_be_bytes (sh_data_len s) w))) w (opt_bytes stream_part_bytes x)"
  by (cases x)
    (auto simp: opt_bytes_def [of stream_part_bytes] stream_part_bytes_def
      intro!: wrote_Ok wrote_bind wrote_put wrote_put_opt)

lemma header_encode_Ok:
  assumes legal: "header_legal h" and out: "length out = MAX_HEADER_LEN"
  shows "\<exists>buf. header_encode h out = Ok (buf, header_len (header_flags h))
    \<and> length buf = MAX_HEADER_LEN \<and> take (header_len (header_flags h)) buf = header_bytes h"
proof -
  let ?w = "\<lparr>w_buf = out, w_at = 0\<rparr>"
  let ?wr = "r_bind (writer_put (u16_to_be_bytes (header_flags h)) ?w) (\<lambda>w.
     r_bind (case h_stream h of None \<Rightarrow> Ok w
             | Some s \<Rightarrow>
                 r_bind (writer_put (id_to_be_bytes (sh_id s)) w) (\<lambda>w.
                 r_bind (put_opt u32_to_be_bytes (sh_credit s) w) (\<lambda>w.
                 put_opt u16_to_be_bytes (sh_data_len s) w))) (\<lambda>w.
     r_bind (put_opt u32_to_be_bytes (h_ping h) w) (\<lambda>w.
     put_opt (\<lambda>p. u32_to_be_bytes (t_echo p)) (h_pong h) w)))"
  have len: "length (header_bytes h) = header_len (header_flags h)"
    using legal by (intro length_header_bytes) (simp add: header_legal_def)
  then have "length (header_bytes h) \<le> length out" using header_len_le_18 out by simp
  then have "wrote ?wr ?w (header_bytes h)"
    unfolding header_bytes_def
    by (intro wrote_bind wrote_put wrote_put_opt wrote_stream_part) simp_all
  then obtain w where w: "?wr = Ok w" "length (w_buf w) = length out"
      "w_at w = length (header_bytes h)" "take (w_at w) (w_buf w) = header_bytes h"
    by (auto simp: wrote_def)
  have "header_encode h out = Ok (w_buf w, w_at w)"
    using legal w(1) unfolding header_encode_def header_legal_iff
    by (cases "h_stream h") auto
  then show ?thesis using w len out by auto
qed

lemma header_encode_Panic: "\<not> header_legal h \<Longrightarrow> header_encode h out = Panic"
  by (auto simp: header_encode_def header_legal_iff split: option.split)

subsection \<open>Decoding\<close>

lemma header_decode_header_bytes:
  assumes "header_typed h" and "header_legal h"
  shows "header_decode (header_flags h) (header_bytes h) = Ok h"
proof -
  have stream: "flags_intersects (header_flags h) STREAM \<longleftrightarrow> h_stream h \<noteq> None"
    using assms(2) unfolding header_legal_def
    by (auto simp: flags_intersects_STREAM bit_header_flags flags_eq_0_iff bit_stream_flags)
  have nz: "sh_credit s \<noteq> Some 0" "sh_data_len s \<noteq> Some 0" if "h_stream h = Some s" for s
    using assms(1) that by (auto simp: header_typed_def)
  show ?thesis
  proof (cases "h_stream h")
    case None
    then show ?thesis using stream
      by (cases "h_ping h"; cases "h_pong h"; cases h)
        (auto simp: header_decode_def header_bytes_def opt_bytes_def reader_take_def FLAGS_LEN_def
          flags_contains_bit bit_header_flags)
  next
    case (Some s)
    then show ?thesis using stream nz [OF Some]
      by (cases "h_ping h"; cases "h_pong h"; cases "sh_credit s"; cases "sh_data_len s"; cases h; cases s)
        (auto simp: header_decode_def header_bytes_def opt_bytes_def reader_take_def FLAGS_LEN_def
          flags_contains_bit bit_header_flags bit_stream_flags stream_part_bytes_def
          take_credit_def take_data_len_def non_zero_def)
  qed
qed

text \<open>\<open>consumed r r' bs\<close>: reading \<open>bs\<close> moved the reader from \<open>r\<close> to \<open>r'\<close>.\<close>

definition consumed :: "reader \<Rightarrow> reader \<Rightarrow> u8 list \<Rightarrow> bool" where
  "consumed r r' bs \<longleftrightarrow> r_buf r' = r_buf r \<and> r_at r' = r_at r + length bs
     \<and> take (r_at r') (r_buf r) = take (r_at r) (r_buf r) @ bs"

lemma consumed_refl [simp]: "consumed r r []"
  by (simp add: consumed_def)

lemma consumed_trans: "consumed r r' bs \<Longrightarrow> consumed r' r'' cs \<Longrightarrow> consumed r r'' (bs @ cs)"
  by (auto simp: consumed_def)

lemma consumed_all: "consumed r r' bs \<Longrightarrow> r_at r' = length (r_buf r) \<Longrightarrow> r_buf r = take (r_at r) (r_buf r) @ bs"
  by (simp add: consumed_def)

lemma reader_take_consumed:
  "reader_take n r = Ok (bs, r') \<Longrightarrow> consumed r r' bs \<and> length bs = n"
  by (auto simp: reader_take_def consumed_def take_add split: if_splits)

lemma take_credit_consumed:
  "take_credit f r = Ok (c, r') \<Longrightarrow>
     consumed r r' (opt_bytes u32_to_be_bytes c) \<and> (c \<noteq> None \<longleftrightarrow> bit f 3) \<and> c \<noteq> Some 0"
  by (auto simp: take_credit_def flags_contains_bit non_zero_def opt_bytes_def u32_be_roundtrip2
      dest!: reader_take_consumed split: if_splits)

lemma take_data_len_consumed:
  "take_data_len f r = Ok (n, r') \<Longrightarrow>
     consumed r r' (opt_bytes u16_to_be_bytes n) \<and> (n \<noteq> None \<longleftrightarrow> bit f 4) \<and> n \<noteq> Some 0"
  by (auto simp: take_data_len_def flags_contains_bit non_zero_def opt_bytes_def u16_be_roundtrip2
      dest!: reader_take_consumed split: if_splits)

lemma header_decode_Ok:
  assumes "header_decode f bytes = Ok h"
  shows "\<exists>r. consumed \<lparr>r_buf = bytes, r_at = 2\<rparr> r (opt_bytes stream_part_bytes (h_stream h)
      @ opt_bytes u32_to_be_bytes (h_ping h) @ opt_bytes (\<lambda>p. u32_to_be_bytes (t_echo p)) (h_pong h))
    \<and> header_typed h \<and> (h_stream h \<noteq> None \<longleftrightarrow> flags_intersects f STREAM)
    \<and> (\<forall>s. h_stream h = Some s \<longrightarrow> sh_flags s = \<lparr>fin_read = bit f 1, fin_write = bit f 2, syn = bit f 0\<rparr>
        \<and> (sh_credit s \<noteq> None \<longleftrightarrow> bit f 3) \<and> (sh_data_len s \<noteq> None \<longleftrightarrow> bit f 4))
    \<and> (h_ping h \<noteq> None \<longleftrightarrow> bit f 5) \<and> (h_pong h \<noteq> None \<longleftrightarrow> bit f 6) \<and> (h_term h \<longleftrightarrow> bit f 7)"
proof -
  let ?r0 = "\<lparr>r_buf = bytes, r_at = 2\<rparr>"
  from assms obtain stream r1 ping r2 pong r3 where
    stream: "(if flags_intersects f STREAM then
          r_bind (reader_take 2 ?r0) (\<lambda>(bs, r).
          r_bind (take_credit f r) (\<lambda>(credit, r).
          r_bind (take_data_len f r) (\<lambda>(data_len, r).
          Ok (Some \<lparr>sh_id = id_from_be_bytes bs,
                    sh_flags = \<lparr>fin_read = bit f 1, fin_write = bit f 2, syn = bit f 0\<rparr>,
                    sh_credit = credit, sh_data_len = data_len\<rparr>, r))))
        else Ok (None, ?r0)) = Ok (stream, r1)"
    and ping: "(if bit f 5 then
          r_bind (reader_take 4 r1) (\<lambda>(bs, r). Ok (Some (u32_from_be_bytes bs), r))
        else Ok (None, r1)) = Ok (ping, r2)"
    and pong: "(if bit f 6 then
          r_bind (reader_take 4 r2) (\<lambda>(bs, r). Ok (Some \<lparr>t_echo = u32_from_be_bytes bs\<rparr>, r))
        else Ok (None, r2)) = Ok (pong, r3)"
    and h: "h = \<lparr>h_stream = stream, h_ping = ping, h_pong = pong, h_term = bit f 7\<rparr>"
    unfolding header_decode_def FLAGS_LEN_def flags_contains_bit by auto
  have 1: "consumed ?r0 r1 (opt_bytes stream_part_bytes stream)" and
    s: "\<And>s. stream = Some s \<Longrightarrow> sh_flags s = \<lparr>fin_read = bit f 1, fin_write = bit f 2, syn = bit f 0\<rparr>
      \<and> (sh_credit s \<noteq> None \<longleftrightarrow> bit f 3) \<and> (sh_data_len s \<noteq> None \<longleftrightarrow> bit f 4)
      \<and> sh_credit s \<noteq> Some 0 \<and> sh_data_len s \<noteq> Some 0"
    and some: "stream \<noteq> None \<longleftrightarrow> flags_intersects f STREAM"
    using stream
    by (auto simp: opt_bytes_def [of stream_part_bytes] stream_part_bytes_def id_be_roundtrip2
        split: if_splits dest!: reader_take_consumed take_credit_consumed take_data_len_consumed
        intro!: consumed_trans)
  have 2: "consumed r1 r2 (opt_bytes u32_to_be_bytes ping)" "ping \<noteq> None \<longleftrightarrow> bit f 5"
    using ping by (auto simp: opt_bytes_def u32_be_roundtrip2 split: if_splits dest!: reader_take_consumed)
  have 3: "consumed r2 r3 (opt_bytes (\<lambda>p. u32_to_be_bytes (t_echo p)) pong)" "pong \<noteq> None \<longleftrightarrow> bit f 6"
    using pong by (auto simp: opt_bytes_def u32_be_roundtrip2 split: if_splits dest!: reader_take_consumed)
  show ?thesis
    using consumed_trans [OF 1 consumed_trans [OF 2(1) 3(1)]] s some 2(2) 3(2)
    by (auto simp: h header_typed_def)
qed

lemma header_decode_sound:
  assumes dec: "header_decode f bytes = Ok h" and valid: "flags_validate f = Ok f"
    and len: "length bytes = header_len f" and start: "take 2 bytes = u16_to_be_bytes f"
  shows "header_flags h = f" and "header_bytes h = bytes" and "header_legal h" and "header_typed h"
proof -
  from header_decode_Ok [OF dec] obtain r where
    r: "consumed \<lparr>r_buf = bytes, r_at = 2\<rparr> r (opt_bytes stream_part_bytes (h_stream h)
      @ opt_bytes u32_to_be_bytes (h_ping h) @ opt_bytes (\<lambda>p. u32_to_be_bytes (t_echo p)) (h_pong h))"
    and typed: "header_typed h" and stream: "h_stream h \<noteq> None \<longleftrightarrow> flags_intersects f STREAM"
    and s: "\<And>s. h_stream h = Some s \<Longrightarrow> sh_flags s = \<lparr>fin_read = bit f 1, fin_write = bit f 2, syn = bit f 0\<rparr>
        \<and> (sh_credit s \<noteq> None \<longleftrightarrow> bit f 3) \<and> (sh_data_len s \<noteq> None \<longleftrightarrow> bit f 4)"
    and conn: "h_ping h \<noteq> None \<longleftrightarrow> bit f 5" "h_pong h \<noteq> None \<longleftrightarrow> bit f 6" "h_term h \<longleftrightarrow> bit f 7"
    by blast
  have high: "\<not> bit f n" if "8 \<le> n" for n
    using valid that by (simp add: flags_validate_Ok)
  have "bit (header_flags h) n \<longleftrightarrow> bit f n" for n
  proof (cases "n < 8")
    case True
    then have n: "n = 0 \<or> n = 1 \<or> n = 2 \<or> n = 3 \<or> n = 4 \<or> n = 5 \<or> n = 6 \<or> n = 7" by linarith
    show ?thesis
    proof (cases "h_stream h")
      case None
      with n stream conn show ?thesis
        by (elim disjE) (simp_all add: bit_header_flags flags_intersects_STREAM)
    next
      case (Some s')
      with n conn s [OF Some] show ?thesis
        by (elim disjE) (simp_all add: bit_header_flags bit_stream_flags)
    qed
  qed (use high in \<open>auto simp: bit_header_flags bit_stream_flags\<close>)
  then show f: "header_flags h = f" by (auto intro: bit_word_eqI)
  have nz: "\<forall>s. h_stream h = Some s \<longrightarrow> stream_flags s \<noteq> 0"
  proof (intro allI impI notI)
    fix s assume some: "h_stream h = Some s" and "stream_flags s = 0"
    then have "\<not> bit (stream_flags s) n" for n by simp
    from this [of 0] this [of 1] this [of 2] this [of 3] this [of 4] show False
      using stream s [OF some] some by (simp add: bit_stream_flags flags_intersects_STREAM)
  qed
  show "header_legal h" using valid f nz by (simp add: header_legal_def)
  show "header_typed h" by (rule typed)
  have "r_at r = length bytes"
    using r length_header_bytes [OF nz] len f by (simp add: consumed_def header_bytes_def)
  then show "header_bytes h = bytes"
    using consumed_all [OF r] start f by (simp add: header_bytes_def)
qed

lemma header_decode_not_Panic:
  "length bytes = header_len f \<Longrightarrow> header_decode f bytes \<noteq> Panic"
  by (auto simp: header_decode_def r_bind_eq_Panic reader_take_def take_credit_def take_data_len_def
      header_len_def FLAGS_LEN_def split: if_splits option.splits)

lemma high_bits_iff: "(\<forall>n \<ge> 8. \<not> bit (w :: u16) n) \<longleftrightarrow> unat w < 256"
proof -
  have "unat w < 256 \<longleftrightarrow> unat w div 2 ^ 8 = 0" by auto
  also have "\<dots> \<longleftrightarrow> drop_bit 8 w = 0" by (simp add: drop_bit_eq_div unat_div_distrib flip: unat_eq_0)
  also have "\<dots> \<longleftrightarrow> (\<forall>n \<ge> 8. \<not> bit w n)"
    by (auto simp: flags_eq_0_iff bit_drop_bit_eq le_iff_add)
  finally show ?thesis by simp
qed

text \<open>
  Of the 65536 values of the flags field, exactly the 128 values from 1 to 128 are accepted:
  the 127 combinations of the flags below \<^verbatim>\<open>TERM\<close>, and \<^verbatim>\<open>TERM\<close> alone. Everything else is the
  decoding error that names its reason, never a panic.
\<close>

theorem flags_validate_spec:
  "flags_validate raw =
     (if 256 \<le> unat raw then Err (DecodeError ''reserved flags set'')
      else if unat raw = 0 then Err (DecodeError ''frame without flags'')
      else if 128 < unat raw then Err (DecodeError ''TERM combined with other flags'')
      else Ok raw)"
proof -
  have "flags_from_bits raw = (if 256 \<le> unat raw then None else Some raw)"
    using flags_from_bits_Some [of raw raw] flags_from_bits_Some [of raw "the (flags_from_bits raw)"]
    unfolding high_bits_iff by (cases "flags_from_bits raw") auto
  moreover have "bit raw 7 \<longleftrightarrow> 128 \<le> unat raw" if "unat raw < 256"
  proof -
    have "bit raw 7 \<longleftrightarrow> odd (unat raw div 128)"
      using bit_iff_odd [of "unat raw" 7] by (simp add: bit_unsigned_iff)
    also have "unat raw div 128 = (if 128 \<le> unat raw then 1 else 0)" using that by auto
    finally show ?thesis by auto
  qed
  moreover have "raw = TERM_flag \<longleftrightarrow> unat raw = 128"
    by (simp add: word_unat_eq_iff TERM_flag_def)
  ultimately show ?thesis
    by (auto simp: flags_validate_def flags_contains_bit unat_eq_0)
qed

text \<open>
  C4. Encoding and decoding a header: every legal header is encoded without a panic into at most
  18 bytes, whose first two bytes are valid flags that announce exactly that length, and decoding
  those bytes gives the header back.
\<close>

theorem header_encode_decode:
  assumes "header_typed h" and "header_legal h" and "length out = MAX_HEADER_LEN"
  shows "\<exists>buf n. header_encode h out = Ok (buf, n) \<and> n \<le> MAX_HEADER_LEN
    \<and> flags_validate (u16_from_be_bytes (take FLAGS_LEN buf)) = Ok (header_flags h)
    \<and> header_len (header_flags h) = n \<and> header_decode (header_flags h) (take n buf) = Ok h"
proof -
  let ?n = "header_len (header_flags h)"
  obtain buf where buf: "header_encode h out = Ok (buf, ?n)" "take ?n buf = header_bytes h"
    using header_encode_Ok [OF assms(2,3)] by blast
  have "take 2 (take ?n buf) = u16_to_be_bytes (header_flags h)"
    by (simp add: buf(2) header_bytes_def)
  moreover have "2 \<le> ?n" by (simp add: header_len_def FLAGS_LEN_def)
  ultimately have "take 2 buf = u16_to_be_bytes (header_flags h)" by simp
  then show ?thesis
    using buf assms header_decode_header_bytes [OF assms(1,2)] header_len_le_18
    by (auto simp: FLAGS_LEN_def header_legal_def)
qed

theorem header_encode_decode_witness:
  "\<exists>buf n. header_encode \<lparr>h_stream = Some \<lparr>sh_id = StreamId 0x1234,
        sh_flags = \<lparr>fin_read = True, fin_write = False, syn = True\<rparr>,
        sh_credit = Some 0x11223344, sh_data_len = Some 0x5566\<rparr>,
      h_ping = Some 0x99AABBCC, h_pong = Some \<lparr>t_echo = 0x0A0B0C0D\<rparr>, h_term = False\<rparr>
      (replicate 18 0) = Ok (buf, n) \<and> n \<le> MAX_HEADER_LEN"
proof -
  let ?h = "\<lparr>h_stream = Some \<lparr>sh_id = StreamId 0x1234,
        sh_flags = \<lparr>fin_read = True, fin_write = False, syn = True\<rparr>,
        sh_credit = Some 0x11223344, sh_data_len = Some 0x5566\<rparr>,
      h_ping = Some 0x99AABBCC, h_pong = Some \<lparr>t_echo = 0x0A0B0C0D\<rparr>, h_term = False\<rparr>"
  have "header_typed ?h" by (simp add: header_typed_def)
  moreover have "header_legal ?h"
    by (auto simp: header_legal_def flags_validate_Ok bit_header_flags bit_stream_flags flags_eq_0_iff)
  moreover have "length (replicate 18 0 :: u8 list) = MAX_HEADER_LEN" by (simp add: MAX_HEADER_LEN_def)
  ultimately show ?thesis using header_encode_decode [of ?h "replicate 18 0"] by blast
qed

text \<open>
  C20. The encoding is canonical: if the bytes announced by valid flags decode to a header, then
  the header is legal, its flags are those flags, and encoding it again gives the same bytes, so
  no two different byte strings decode to the same header.
\<close>

theorem header_decode_encode:
  assumes "flags_validate f = Ok f" and "length bytes = header_len f"
    and "take FLAGS_LEN bytes = u16_to_be_bytes f" and "header_decode f bytes = Ok h"
    and "length out = MAX_HEADER_LEN"
  shows "header_flags h = f
    \<and> (\<exists>buf. header_encode h out = Ok (buf, length bytes) \<and> take (length bytes) buf = bytes)"
proof -
  note sound = header_decode_sound [OF assms(4,1,2) assms(3) [unfolded FLAGS_LEN_def]]
  from header_encode_Ok [OF sound(3) assms(5)] show ?thesis
    using sound(1,2) assms(2) by auto
qed

theorem header_decode_encode_witness:
  "\<exists>h. header_flags h = 0x0020
     \<and> (\<exists>buf. header_encode h (replicate 18 0) = Ok (buf, 6) \<and> take 6 buf = [0, 0x20, 0, 0, 0, 7])"
proof -
  have len: "header_len 0x0020 = 6"
    by (simp add: header_len_def FLAGS_LEN_def flags_intersects_def flags_contains_def STREAM_def flag_defs)
  have dec: "header_decode 0x0020 [0, 0x20, 0, 0, 0, 7]
      = Ok \<lparr>h_stream = None, h_ping = Some 7, h_pong = None, h_term = False\<rparr>"
    by (simp add: header_decode_def FLAGS_LEN_def flags_intersects_def flags_contains_def STREAM_def
        flag_defs reader_take_def)
  have "flags_validate 0x0020 = Ok 0x0020" by (simp add: flags_validate_spec)
  moreover have "take FLAGS_LEN [0, 0x20, 0, 0, 0, 7] = u16_to_be_bytes 0x0020"
    by (simp add: FLAGS_LEN_def u16_to_be_bytes_def drop_bit_eq_div)
  ultimately show ?thesis
    using header_decode_encode [OF _ _ _ dec, of "replicate 18 0"] len
    by (auto simp: MAX_HEADER_LEN_def eval_nat_numeral)
qed

text \<open>
  Illegal headers and illegal bytes: encoding panics exactly on the headers that are not a
  legal frame (no flags, a stream part without flags, or \<^verbatim>\<open>TERM\<close> with something else), and decoding
  a header of the announced length never panics.
\<close>

theorem header_panics:
  "(length out = MAX_HEADER_LEN \<longrightarrow> (header_encode h out = Panic \<longleftrightarrow> \<not> header_legal h))
   \<and> (length bytes = header_len f \<longrightarrow> header_decode f bytes \<noteq> Panic)"
  using header_encode_Ok [of h out] header_encode_Panic [of h out] header_decode_not_Panic [of bytes f]
  by auto

theorem header_panics_witness:
  "header_encode \<lparr>h_stream = None, h_ping = None, h_pong = None, h_term = False\<rparr> (replicate 18 0) = Panic
   \<and> header_decode 0x0020 [0, 0x20, 0, 0, 0, 7] \<noteq> Panic"
proof -
  let ?h = "\<lparr>h_stream = None, h_ping = None, h_pong = None, h_term = False\<rparr>"
  have "\<not> header_legal ?h" by (simp add: header_legal_def flags_validate_Ok flags_eq_0_iff bit_header_flags)
  moreover have "length [0, 0x20, 0, 0, 0, 7 :: u8] = header_len 0x0020"
    by (simp add: header_len_def FLAGS_LEN_def flags_intersects_def flags_contains_def STREAM_def flag_defs)
  ultimately show ?thesis
    using header_panics [of "replicate 18 0" ?h "[0, 0x20, 0, 0, 0, 7]" "0x0020"]
    by (simp add: MAX_HEADER_LEN_def)
qed

end
