(* ===== verification/Clock.thy ===== *)
theory Clock
  imports Config
begin

text \<open>
  The private clock of a side (\<^verbatim>\<open>src/wire/clock.rs\<close>) and the deadlines of the timers
  (\<^verbatim>\<open>deadline\<close> in \<^verbatim>\<open>src/lib.rs\<close>). An \<^verbatim>\<open>Instant\<close> is the number of nanoseconds since an origin
  that precedes the connection; the current time is an argument of the operations that read it.
\<close>

section \<open>Definitions\<close>

type_synonym instant = nat

record clock =
  epoch :: instant

definition clock_new :: "instant \<Rightarrow> clock" where
  "clock_new now = \<lparr>epoch = now\<rparr>"

definition clock_micros :: "clock \<Rightarrow> instant \<Rightarrow> u32" where
  "clock_micros c at = word_of_nat ((at - epoch c) div 1000)"

definition elapsed :: "u32 \<Rightarrow> u32 \<Rightarrow> duration" where
  "elapsed now since = from_micros (unat (now - since))"

definition never :: duration where
  "never = from_secs (30 * 365 * 24 * 60 * 60)"

text \<open>
  The additions \<^verbatim>\<open>now.checked_add(..)\<close> and \<^verbatim>\<open>now + NEVER\<close> fail beyond the range of \<^verbatim>\<open>Instant\<close>, whose
  bound the platform chooses: it is the argument \<open>limit\<close>. The argument of \<^verbatim>\<open>unwrap_or\<close> is evaluated
  first, and an addition out of range panics there.
\<close>

definition deadline :: "instant \<Rightarrow> instant \<Rightarrow> duration \<Rightarrow> (instant, 'e) rres" where
  "deadline limit now after =
     (if now + never > limit then Panic
      else Ok (if now + min after never \<le> limit then now + min after never else now + never))"

section \<open>Lemmas\<close>

lemma micros_diff:
  assumes "s \<le> t" and "t - s < 2 ^ 32"
  shows "unat (word_of_nat t - word_of_nat s :: u32) = t - s"
proof -
  have "(word_of_nat t - word_of_nat s :: u32) = word_of_nat (t - s)"
    using assms(1) by (simp add: of_nat_diff)
  then show ?thesis using assms(2) by (simp add: unat_of_nat)
qed

text \<open>
  C29. Two timestamps of one clock that are less than \<open>2 ^ 32\<close> microseconds apart give the time
  between them to the microsecond, although the clock wraps around every 71.6 minutes: the
  difference is the number of whole microsecond ticks between the two instants.
\<close>

theorem elapsed_wraps:
  assumes "epoch c \<le> t0" and "t0 \<le> t1"
    and "(t1 - epoch c) div 1000 - (t0 - epoch c) div 1000 < 2 ^ 32"
  shows "elapsed (clock_micros c t1) (clock_micros c t0)
       = from_micros ((t1 - epoch c) div 1000 - (t0 - epoch c) div 1000)
    \<and> elapsed (clock_micros c t1) (clock_micros c t0) < t1 - t0 + 1000
    \<and> t1 - t0 < elapsed (clock_micros c t1) (clock_micros c t0) + 1000"
proof (intro conjI)
  have "(t0 - epoch c) div 1000 \<le> (t1 - epoch c) div 1000"
    using assms(2) by (intro div_le_mono diff_le_mono)
  then show *: "elapsed (clock_micros c t1) (clock_micros c t0)
       = from_micros ((t1 - epoch c) div 1000 - (t0 - epoch c) div 1000)"
    using micros_diff [OF _ assms(3)] by (simp add: elapsed_def clock_micros_def)
  define a b where "a = t0 - epoch c" and "b = t1 - epoch c"
  have "a div 1000 * 1000 \<le> a" "a < a div 1000 * 1000 + 1000" "b div 1000 * 1000 \<le> b"
      "b < b div 1000 * 1000 + 1000" "t1 - t0 = b - a" "a \<le> b"
    using assms(1,2) by (simp_all add: a_def b_def dividend_less_div_times)
  then show "elapsed (clock_micros c t1) (clock_micros c t0) < t1 - t0 + 1000"
    and "t1 - t0 < elapsed (clock_micros c t1) (clock_micros c t0) + 1000"
    unfolding * from_micros_def a_def [symmetric] b_def [symmetric] diff_mult_distrib by linarith+
qed

theorem elapsed_wraps_witness:
  "elapsed (clock_micros \<lparr>epoch = 5\<rparr> (5 + 4294967299000)) (clock_micros \<lparr>epoch = 5\<rparr> (5 + 4294967293000)) = 6000"
  using elapsed_wraps [of "\<lparr>epoch = 5\<rparr>" "5 + 4294967293000" "5 + 4294967299000"]
  by (simp add: from_micros_def)

text \<open>
  A deadline is the given duration from now, but at most 30 years; the fallback of the code
  is never taken, because whenever it would be needed the function panics already.
\<close>

theorem deadline_spec:
  "(deadline limit now after = (Panic :: (instant, 'e) rres) \<longleftrightarrow> limit < now + never)
   \<and> (\<forall>t. deadline limit now after = (Ok t :: (instant, 'e) rres) \<longleftrightarrow> now + never \<le> limit \<and> t = now + min after never)"
  by (auto simp: deadline_def min_def)

lemma deadline_eq: "now + never \<le> limit \<Longrightarrow> deadline limit now after = Ok (now + min after never)"
  by (simp add: deadline_def min_def)

end
