(* ===== verification/Encoder.thy ===== *)
theory Encoder
  imports Header Clock "HOL-Library.Sublist"
begin

text \<open>
  Frames that are written (\<^verbatim>\<open>src/wire/codec/encoder.rs\<close>) and the writing half of the codec
  (\<^verbatim>\<open>poll_write_pending\<close> and the \<^verbatim>\<open>Sink\<close> of \<^verbatim>\<open>src/wire/codec.rs\<close>). A slice out of range, a failed
  assertion and the conversions that \<^verbatim>\<open>expect\<close> are the outcome \<open>Panic\<close>.

  The transport is code of the user: what a vectored write returns is the argument \<open>wr\<close>, a function
  of the state of the transport and the slices. The locale \<open>byte_sink\<close> states what \<^verbatim>\<open>AsyncWrite\<close>
  documents of it: it accepts a prefix of the bytes that it is offered. The lemmas of the locale
  show that the writing loop puts exactly the bytes of the frames on the transport, in order,
  however the transport splits them, with the timestamp of the \<^verbatim>\<open>PING\<close> fixed by the first byte.
\<close>

section \<open>Definitions\<close>

subsection \<open>Frames\<close>

record out_stream =
  os_id :: stream_id
  os_flags :: control_flags
  os_credit :: u32
  os_data :: "u8 list"

record out_frame =
  of_ping :: bool
  of_pong :: "pong option"
  of_stream :: "out_stream option"
  of_term :: bool

definition frame_terminate :: out_frame where
  "frame_terminate = \<lparr>of_ping = False, of_pong = None, of_stream = None, of_term = True\<rparr>"

definition frame_is_empty :: "out_frame \<Rightarrow> bool" where
  "frame_is_empty f \<longleftrightarrow> \<not> of_ping f \<and> of_pong f = None \<and> of_stream f = None \<and> \<not> of_term f"

definition frame_data_len :: "out_frame \<Rightarrow> nat" where
  "frame_data_len f = (case of_stream f of None \<Rightarrow> 0 | Some s \<Rightarrow> length (os_data s))"

subsection \<open>A frame that is being written\<close>

record encoder_item =
  ei_header :: header
  ei_payload :: "u8 list"
  ei_encoded :: "u8 list"
  ei_header_len :: nat
  ei_consumed :: nat

definition has_ping :: "encoder_item \<Rightarrow> bool" where
  "has_ping it \<longleftrightarrow> h_ping (ei_header it) \<noteq> None"

definition is_started :: "encoder_item \<Rightarrow> bool" where
  "is_started it \<longleftrightarrow> ei_consumed it > 0"

definition stamp :: "encoder_item \<Rightarrow> u32 \<Rightarrow> (encoder_item, decode_error) rres" where
  "stamp it t_ping =
     r_bind (r_assert (\<not> is_started it)) (\<lambda>_.
       let h = (if has_ping it then (ei_header it)\<lparr>h_ping := Some t_ping\<rparr> else ei_header it)
       in r_bind (header_encode h (ei_encoded it)) (\<lambda>(buf, len).
         Ok (it\<lparr>ei_header := h, ei_encoded := buf, ei_header_len := len\<rparr>)))"

definition stream_header_of :: "out_stream \<Rightarrow> stream_header" where
  "stream_header_of s = \<lparr>sh_id = os_id s, sh_flags = os_flags s, sh_credit = non_zero (os_credit s),
     sh_data_len = non_zero (word_of_nat (length (os_data s)))\<rparr>"

definition encoder_new :: "out_frame \<Rightarrow> (encoder_item, decode_error) rres" where
  "encoder_new f =
     r_bind
       (case of_stream f of
          Some s \<Rightarrow> if length (os_data s) > 65535 then Panic else Ok (Some (stream_header_of s), os_data s)
        | None \<Rightarrow> Ok (None, []))
       (\<lambda>(stream, payload).
         let h = \<lparr>h_stream = stream, h_ping = (if of_ping f then Some 0 else None), h_pong = of_pong f, h_term = of_term f\<rparr>
         in stamp \<lparr>ei_header = h, ei_payload = payload, ei_encoded = replicate MAX_HEADER_LEN 0,
              ei_header_len = 0, ei_consumed = 0\<rparr> 0)"

definition remaining :: "encoder_item \<Rightarrow> nat" where
  "remaining it = ei_header_len it + length (ei_payload it) - ei_consumed it"

definition slices :: "encoder_item \<Rightarrow> u8 list list" where
  "slices it =
     (let header_left = ei_header_len it - ei_consumed it;
          payload_done = ei_consumed it - ei_header_len it
      in (if header_left > 0
          then [take header_left (drop (ei_header_len it - header_left) (ei_encoded it))] else [])
       @ (if payload_done < length (ei_payload it) then [drop payload_done (ei_payload it)] else []))"

definition advance :: "encoder_item \<Rightarrow> nat \<Rightarrow> (encoder_item, 'e) rres" where
  "advance it cnt =
     r_bind (r_assert (cnt \<le> remaining it)) (\<lambda>_. Ok (it\<lparr>ei_consumed := ei_consumed it + cnt\<rparr>))"

subsection \<open>The writing half of the codec\<close>

type_synonym 'io wr = "'io \<Rightarrow> u8 list list \<Rightarrow> (nat, io_error) rres poll \<times> 'io"

text \<open>One round of the loop: stamp, offer the slices, and advance.\<close>

definition restamp :: "encoder_item \<Rightarrow> u32 \<Rightarrow> (encoder_item, decode_error) rres" where
  "restamp it micros = (if has_ping it \<and> \<not> is_started it then stamp it micros else Ok it)"

function poll_write_pending :: "'io wr \<Rightarrow> u32 \<Rightarrow> encoder_item option \<Rightarrow> 'io
    \<Rightarrow> (unit, error_kind) rres poll \<times> encoder_item option \<times> 'io" where
  "poll_write_pending wr micros pending io =
     (case pending of
        None \<Rightarrow> (Ready (Ok ()), None, io)
      | Some it \<Rightarrow>
          if remaining it = 0 then (Ready (Ok ()), None, io)
          else case restamp it micros of
            Err e \<Rightarrow> (Ready (Err (Decode e)), Some it, io)
          | Panic \<Rightarrow> (Ready Panic, Some it, io)
          | Ok it' \<Rightarrow>
              (case wr io (slices it') of
                 (Pending, io') \<Rightarrow> (Pending, Some it', io')
               | (Ready (Err e), io') \<Rightarrow> (Ready (Err (Io e)), Some it', io')
               | (Ready Panic, io') \<Rightarrow> (Ready Panic, Some it', io')
               | (Ready (Ok written), io') \<Rightarrow>
                   if written = 0 then (Ready (Err (Io WriteZero)), Some it', io')
                   else case advance it' written of
                     Ok it'' \<Rightarrow> poll_write_pending wr micros (Some it'') io'
                   | Err e \<Rightarrow> (Ready (Err e), Some it', io')
                   | Panic \<Rightarrow> (Ready Panic, Some it', io')))"
  by pat_completeness auto

text \<open>A started frame is not stamped again, so the rounds after the first make it shorter.\<close>

lemma restamp_started: "is_started it \<Longrightarrow> restamp it micros = Ok it"
  by (simp add: restamp_def)

lemma advance_Ok: "advance it cnt = Ok it' \<longleftrightarrow> cnt \<le> remaining it \<and> it' = it\<lparr>ei_consumed := ei_consumed it + cnt\<rparr>"
  by (auto simp: advance_def r_assert_def)

termination poll_write_pending
proof (relation "measures [\<lambda>(wr, micros, pending, io). case pending of None \<Rightarrow> 0 | Some it \<Rightarrow> if is_started it then 0 else 1,
    \<lambda>(wr, micros, pending, io). case pending of None \<Rightarrow> 0 | Some it \<Rightarrow> remaining it]", goal_cases)
  case 1
  then show ?case by simp
next
  case (2 wr micros pending io it it' p io' res written it'')
  then have it'': "it'' = it'\<lparr>ei_consumed := ei_consumed it' + written\<rparr>" "0 < written" "written \<le> remaining it'"
    by (auto simp: advance_Ok)
  then have "is_started it''" by (simp add: is_started_def)
  moreover have "remaining it'' < remaining it" if "is_started it"
    using 2 that it'' restamp_started [OF that] by (auto simp: remaining_def)
  ultimately show ?case using 2 by auto
qed

declare poll_write_pending.simps [simp del]

text \<open>The \<^verbatim>\<open>Sink\<close> of the codec; \<open>io_op\<close> is the flush or the shutdown of the transport.\<close>

type_synonym 'io io_op = "'io \<Rightarrow> (unit, io_error) rres poll \<times> 'io"

definition sink_start :: "encoder_item option \<Rightarrow> out_frame \<Rightarrow> (encoder_item option, error_kind) rres" where
  "sink_start pending f =
     (if pending \<noteq> None then Panic
      else r_bind (r_assert (\<not> frame_is_empty f)) (\<lambda>_. map_err Decode (r_bind (encoder_new f) (\<lambda>it. Ok (Some it)))))"

definition sink_finish :: "'io wr \<Rightarrow> 'io io_op \<Rightarrow> u32 \<Rightarrow> encoder_item option \<Rightarrow> 'io
    \<Rightarrow> (unit, error_kind) rres poll \<times> encoder_item option \<times> 'io" where
  "sink_finish wr io_op micros pending io =
     (case poll_write_pending wr micros pending io of
        (Ready (Ok _), pending, io) \<Rightarrow>
          (case io_op io of
             (Pending, io) \<Rightarrow> (Pending, pending, io)
           | (Ready res, io) \<Rightarrow> (Ready (map_err Io res), pending, io))
      | r \<Rightarrow> r)"

subsection \<open>The transport of the unit tests\<close>

text \<open>
  \<^verbatim>\<open>MockIo\<close> of the tests of the codec: it can be told to refuse the next write, accepts at most
  \<open>max_accept\<close> bytes at a time, and without vectored writes takes only the first non-empty slice.
\<close>

record mock_io =
  mock_writes :: "u8 list list"
  vectored :: bool
  refuse :: bool
  max_accept :: nat

definition mock_write :: "mock_io \<Rightarrow> u8 list list \<Rightarrow> (nat, io_error) rres poll \<times> mock_io" where
  "mock_write m bufs =
     (if refuse m then (Pending, m\<lparr>refuse := False\<rparr>)
      else
        let bytes = take (max_accept m) (concat bufs)
        in (Ready (Ok (length bytes)), m\<lparr>mock_writes := mock_writes m @ [bytes]\<rparr>))"

definition mock_write_vectored :: "mock_io wr" where
  "mock_write_vectored m bufs =
     (if \<not> vectored m then
        mock_write m [case filter (\<lambda>b. b \<noteq> []) bufs of [] \<Rightarrow> [] | b # _ \<Rightarrow> b]
      else mock_write m bufs)"

section \<open>Specification\<close>

definition item_bytes :: "encoder_item \<Rightarrow> u8 list" where
  "item_bytes it = header_bytes (ei_header it) @ ei_payload it"

definition item_ok :: "encoder_item \<Rightarrow> bool" where
  [inv_defs]: "item_ok it \<longleftrightarrow> header_legal (ei_header it) \<and> length (ei_encoded it) = MAX_HEADER_LEN
     \<and> ei_header_len it = header_len (header_flags (ei_header it))
     \<and> take (ei_header_len it) (ei_encoded it) = header_bytes (ei_header it)
     \<and> ei_consumed it \<le> length (item_bytes it)"

text \<open>What is still to be written, and the item as it is when the first byte is accepted.\<close>

definition owed :: "encoder_item option \<Rightarrow> u8 list" where
  "owed pending = (case pending of None \<Rightarrow> [] | Some it \<Rightarrow> drop (ei_consumed it) (item_bytes it))"

definition with_ping :: "u32 \<Rightarrow> header \<Rightarrow> header" where
  "with_ping t h = (if h_ping h = None then h else h\<lparr>h_ping := Some t\<rparr>)"

definition owed_at :: "u32 \<Rightarrow> encoder_item option \<Rightarrow> u8 list" where
  "owed_at t pending = (case pending of
      Some it \<Rightarrow> if is_started it then owed pending else header_bytes (with_ping t (ei_header it)) @ ei_payload it
    | None \<Rightarrow> [])"

locale byte_sink =
  fixes wr :: "'io wr" and written :: "'io \<Rightarrow> u8 list"
  assumes accepts: "wr io bufs = (Ready (Ok n), io') \<Longrightarrow>
      n \<le> length (concat bufs) \<and> written io' = written io @ take n (concat bufs)"
    and refuses: "wr io bufs = (Pending, io') \<Longrightarrow> written io' = written io"
    and fails: "wr io bufs = (Ready (Err e), io') \<Longrightarrow> written io' = written io"
    and no_panic: "fst (wr io bufs) \<noteq> Ready Panic"

section \<open>Lemmas\<close>

subsection \<open>Items\<close>

lemma with_ping_simps [simp]:
  "header_flags (with_ping t h) = header_flags h" "header_legal (with_ping t h) \<longleftrightarrow> header_legal h"
  "header_typed (with_ping t h) \<longleftrightarrow> header_typed h" "h_stream (with_ping t h) = h_stream h"
proof -
  show 1: "header_flags (with_ping t h) = header_flags h"
    by (simp add: with_ping_def header_flags_def split: option.split)
  show 2: "h_stream (with_ping t h) = h_stream h" by (simp add: with_ping_def)
  show "header_legal (with_ping t h) \<longleftrightarrow> header_legal h" "header_typed (with_ping t h) \<longleftrightarrow> header_typed h"
    by (simp_all add: header_legal_def header_typed_def 1 2)
qed

lemma length_item_header:
  "header_legal h \<Longrightarrow> length (header_bytes h) = header_len (header_flags h)"
  using length_header_bytes by (simp add: header_legal_def)

lemma header_len_pos: "0 < header_len f"
  by (simp add: header_len_def FLAGS_LEN_def)

lemma slices_concat:
  assumes "item_ok it"
  shows "concat (slices it) = drop (ei_consumed it) (item_bytes it)"
proof -
  let ?n = "ei_header_len it" and ?c = "ei_consumed it"
  have h: "take ?n (ei_encoded it) = header_bytes (ei_header it)" "length (header_bytes (ei_header it)) = ?n"
    using assms length_item_header unfolding item_ok_def by auto
  show ?thesis
  proof (cases "?c < ?n")
    case True
    then have "take (?n - ?c) (drop ?c (ei_encoded it)) = drop ?c (header_bytes (ei_header it))"
      using h(1) by (metis drop_take)
    then show ?thesis using True h(2) by (auto simp: slices_def item_bytes_def)
  next
    case False
    then show ?thesis using h(2) by (auto simp: slices_def item_bytes_def Let_def)
  qed
qed

lemma remaining_eq: "item_ok it \<Longrightarrow> remaining it = length (item_bytes it) - ei_consumed it"
  using length_item_header by (simp add: remaining_def item_bytes_def item_ok_def)

lemma stamp_ok:
  assumes "item_ok it" "\<not> is_started it"
  obtains it' where "stamp it t = Ok it'" "item_ok it'" "ei_header it' = with_ping t (ei_header it)"
    "ei_payload it' = ei_payload it" "ei_consumed it' = 0"
proof -
  have "header_legal (with_ping t (ei_header it))" "length (ei_encoded it) = MAX_HEADER_LEN"
    using assms(1) by (simp_all add: item_ok_def)
  then obtain buf where enc: "header_encode (with_ping t (ei_header it)) (ei_encoded it)
      = Ok (buf, header_len (header_flags (ei_header it)))" "length buf = MAX_HEADER_LEN"
      "take (header_len (header_flags (ei_header it))) buf = header_bytes (with_ping t (ei_header it))"
    using header_encode_Ok by fastforce
  let ?it = "it\<lparr>ei_header := with_ping t (ei_header it), ei_encoded := buf,
    ei_header_len := header_len (header_flags (ei_header it))\<rparr>"
  have "(if has_ping it then (ei_header it)\<lparr>h_ping := Some t\<rparr> else ei_header it) = with_ping t (ei_header it)"
    by (simp add: has_ping_def with_ping_def)
  then have "stamp it t = Ok ?it" using assms(2) enc(1) by (simp add: stamp_def r_assert_def)
  moreover have "item_ok ?it" "ei_consumed ?it = 0" using assms enc by (simp_all add: item_ok_def is_started_def)
  ultimately show thesis by (intro that [of ?it]) simp_all
qed

lemma restamp_ok:
  assumes "item_ok it"
  obtains it' where "restamp it t = Ok it'" "item_ok it'" "owed (Some it') = owed_at t (Some it)"
    "ei_consumed it' = ei_consumed it" "is_started it \<Longrightarrow> it' = it"
proof (cases "is_started it")
  case True
  then show thesis using assms by (intro that [of it]) (simp_all add: restamp_def owed_at_def)
next
  case False
  show thesis
  proof (cases "has_ping it")
    case True
    from assms False obtain it' where "stamp it t = Ok it'" "item_ok it'"
      "ei_header it' = with_ping t (ei_header it)" "ei_payload it' = ei_payload it" "ei_consumed it' = 0"
      by (rule stamp_ok)
    then show thesis using False True
      by (intro that [of it']) (simp_all add: restamp_def owed_def owed_at_def item_bytes_def is_started_def)
  next
    case ping: False
    then show thesis using False assms
      by (intro that [of it])
        (simp_all add: restamp_def owed_def owed_at_def item_bytes_def is_started_def has_ping_def with_ping_def)
  qed
qed

subsection \<open>The writing loop\<close>

lemma item_bytes_consumed [simp]: "item_bytes (it\<lparr>ei_consumed := n\<rparr>) = item_bytes it"
  by (simp add: item_bytes_def)

lemma owed_advance:
  assumes "item_ok it" "n \<le> length (owed (Some it))" "0 < n"
  shows "n \<le> remaining it" "item_ok (it\<lparr>ei_consumed := ei_consumed it + n\<rparr>)"
    "owed (Some (it\<lparr>ei_consumed := ei_consumed it + n\<rparr>)) = drop n (owed (Some it))"
    "is_started (it\<lparr>ei_consumed := ei_consumed it + n\<rparr>)"
  using assms remaining_eq [OF assms(1)]
  by (auto simp: owed_def item_ok_def is_started_def add.commute)

lemma write_done:
  assumes "item_ok it" "remaining it = 0"
  shows "owed_at t (Some it) = []"
proof -
  have "is_started it" "ei_consumed it = length (item_bytes it)"
    using assms header_len_pos [of "header_flags (ei_header it)"]
    by (auto simp: remaining_def item_ok_def item_bytes_def is_started_def length_item_header)
  then show ?thesis by (simp add: owed_at_def owed_def)
qed

text \<open>What the loop guarantees: nothing is lost or repeated between the item and the transport.\<close>

definition write_result :: "('io \<Rightarrow> u8 list) \<Rightarrow> u8 list \<Rightarrow> (unit, error_kind) rres poll \<times> encoder_item option \<times> 'io \<Rightarrow> bool" where
  "write_result written tot = (\<lambda>(r, pending, io). r \<noteq> Ready Panic \<and> written io @ owed pending = tot
     \<and> (\<forall>it. pending = Some it \<longrightarrow> item_ok it) \<and> (r = Ready (Ok ()) \<longleftrightarrow> pending = None)
     \<and> (\<forall>e. r = Ready (Err e) \<longrightarrow> (\<exists>ioe. e = Io ioe)))"

context byte_sink
begin

lemma write_round:
  assumes it: "item_ok it" and call: "wr io (slices it) = (p, io')"
  shows "p = Pending \<Longrightarrow> write_result written (written io @ owed (Some it)) (Pending, Some it, io')"
    and "p = Ready (Err e) \<Longrightarrow> write_result written (written io @ owed (Some it)) (Ready (Err (Io e)), Some it, io')"
    and "p = Ready (Ok 0) \<Longrightarrow> write_result written (written io @ owed (Some it)) (Ready (Err (Io WriteZero)), Some it, io')"
    and "p = Ready (Ok n) \<Longrightarrow> 0 < n \<Longrightarrow> n \<le> length (owed (Some it))
      \<and> written io' @ drop n (owed (Some it)) = written io @ owed (Some it)"
proof -
  have sl: "concat (slices it) = owed (Some it)" using slices_concat [OF it] by (simp add: owed_def)
  show "write_result written (written io @ owed (Some it)) (Pending, Some it, io')" if "p = Pending"
    using refuses call that it by (simp add: write_result_def)
  show "write_result written (written io @ owed (Some it)) (Ready (Err (Io e)), Some it, io')" if "p = Ready (Err e)"
    using fails call that it by (simp add: write_result_def)
  show "write_result written (written io @ owed (Some it)) (Ready (Err (Io WriteZero)), Some it, io')" if "p = Ready (Ok 0)"
    using accepts [of io "slices it" 0 io'] call that it by (simp add: write_result_def)
  show "n \<le> length (owed (Some it)) \<and> written io' @ drop n (owed (Some it)) = written io @ owed (Some it)"
    if "p = Ready (Ok n)" "0 < n"
    using accepts [of io "slices it" n io'] call that sl by simp
qed

lemma write_pending:
  assumes "wr' = wr" "\<forall>it. pending = Some it \<longrightarrow> item_ok it"
  shows "write_result written (written io @ owed_at t pending) (poll_write_pending wr' t pending io)"
  using assms
proof (induction wr' t pending io rule: poll_write_pending.induct)
  case (1 wr' t pending io)
  note IH = 1(1) [unfolded 1(2)]
  have "write_result written (written io @ owed_at t pending) (poll_write_pending wr t pending io)"
  proof (cases pending)
    case None
    then show ?thesis by (simp add: poll_write_pending.simps owed_at_def owed_def write_result_def)
  next
    case (Some it)
    then have ok: "item_ok it" using 1(3) by simp
    show ?thesis
    proof (cases "remaining it = 0")
      case True
      then show ?thesis using write_done [OF ok] Some
        by (simp add: poll_write_pending.simps write_result_def owed_def)
    next
      case rem: False
      from ok obtain it' where it': "restamp it t = Ok it'" "item_ok it'" "owed (Some it') = owed_at t (Some it)"
        by (rule restamp_ok)
      obtain p io' where call: "wr io (slices it') = (p, io')" by fastforce
      note round = write_round [OF it'(2) call, unfolded it'(3)]
      have unf: "poll_write_pending wr t pending io = (case wr io (slices it') of
                 (Pending, io') \<Rightarrow> (Pending, Some it', io')
               | (Ready (Err e), io') \<Rightarrow> (Ready (Err (Io e)), Some it', io')
               | (Ready Panic, io') \<Rightarrow> (Ready Panic, Some it', io')
               | (Ready (Ok written), io') \<Rightarrow>
                   if written = 0 then (Ready (Err (Io WriteZero)), Some it', io')
                   else case advance it' written of
                     Ok it'' \<Rightarrow> poll_write_pending wr t (Some it'') io'
                   | Err e \<Rightarrow> (Ready (Err e), Some it', io')
                   | Panic \<Rightarrow> (Ready Panic, Some it', io'))"
        using Some rem it'(1) by (subst poll_write_pending.simps) simp
      consider "p = Pending" | e where "p = Ready (Err e)" | "p = Ready (Ok 0)" | n where "p = Ready (Ok n)" "0 < n"
        using no_panic [of io "slices it'"] call by (cases p) (auto intro: rres.exhaust, metis gr0I rres.exhaust)
      then show ?thesis
      proof cases
        case 4
        let ?it = "it'\<lparr>ei_consumed := ei_consumed it' + n\<rparr>"
        note r4 = round(4) [OF 4]
        have adv: "n \<le> remaining it'" "item_ok ?it" "owed (Some ?it) = drop n (owed_at t (Some it))" "is_started ?it"
          using owed_advance [OF it'(2), of n] r4 4(2) it'(3) by simp_all
        have go: "advance it' n = (Ok ?it :: (encoder_item, error_kind) rres)" using adv(1) by (simp add: advance_Ok)
        then have eq: "poll_write_pending wr t pending io = poll_write_pending wr t (Some ?it) io'"
          using unf call 4 by simp
        have "write_result written (written io' @ owed_at t (Some ?it)) (poll_write_pending wr t (Some ?it) io')"
          using IH [OF Some rem it'(1) call [symmetric] 4(1) refl _ go] 4(2) adv(2) by simp
        then show ?thesis using r4 adv(3,4) eq Some by (simp add: owed_at_def)
      qed (use unf call round Some in simp_all)
    qed
  qed
  then show ?case by (simp add: 1(2))
qed

end

lemma mock_write_accepts:
  assumes "mock_write m bufs' = (Ready (Ok n), m')" "prefix (concat bufs') (concat bufs)"
  shows "n \<le> length (concat bufs) \<and> concat (mock_writes m') = concat (mock_writes m) @ take n (concat bufs)"
proof -
  have "n = length (take (max_accept m) (concat bufs'))"
      "concat (mock_writes m') = concat (mock_writes m) @ take (max_accept m) (concat bufs')"
    using assms(1) by (auto simp: mock_write_def Let_def split: if_splits)
  moreover obtain zs where "concat bufs = concat bufs' @ zs" using assms(2) by (auto simp: prefix_def)
  ultimately show ?thesis by (auto simp: min_def)
qed

lemma prefix_first_slice: "prefix (case filter (\<lambda>b. b \<noteq> []) bufs of [] \<Rightarrow> [] | b # _ \<Rightarrow> b) (concat bufs)"
  by (induction bufs) auto

interpretation mock: byte_sink mock_write_vectored "\<lambda>m. concat (mock_writes m)"
proof unfold_locales
  fix m bufs n m'
  assume "mock_write_vectored m bufs = (Ready (Ok n), m')"
  then show "n \<le> length (concat bufs) \<and> concat (mock_writes m') = concat (mock_writes m) @ take n (concat bufs)"
    using mock_write_accepts [of m _ n m' bufs] prefix_first_slice [of bufs]
    by (auto simp: mock_write_vectored_def split: if_splits)
qed (auto simp: mock_write_vectored_def mock_write_def Let_def split: if_splits)

subsection \<open>New items\<close>

lemma header_legalI:
  assumes "if h_term h then h_stream h = None \<and> h_ping h = None \<and> h_pong h = None
     else h_stream h \<noteq> None \<or> h_ping h \<noteq> None \<or> h_pong h \<noteq> None"
    and "\<forall>s. h_stream h = Some s \<longrightarrow> stream_flags s \<noteq> 0"
  shows "header_legal h"
proof -
  have "\<exists>n. bit (header_flags h) n"
    using assms by (auto simp: bit_header_flags flags_eq_0_iff split: if_splits)
  then have "header_flags h \<noteq> 0" by (auto simp: flags_eq_0_iff)
  moreover have "header_flags h = TERM_flag" if "h_term h"
    using that assms(1) by (intro bit_word_eqI) (simp add: bit_header_flags flag_bits)
  moreover have "\<not> bit (header_flags h) n" if "8 \<le> n" for n
    using that by (auto simp: bit_header_flags bit_stream_flags)
  moreover have "bit (header_flags h) 7 \<longleftrightarrow> h_term h"
    by (auto simp: bit_header_flags bit_stream_flags)
  ultimately show ?thesis using assms(2) by (simp add: header_legal_def flags_validate_Ok)
qed

lemma header_legal_term:
  assumes legal: "header_legal h" and "h_term h"
  shows "h_stream h = None \<and> h_ping h = None \<and> h_pong h = None"
proof -
  have flags: "header_flags h = TERM_flag"
    using assms by (auto simp: header_legal_def flags_validate_Ok bit_header_flags)
  have "h_stream h = None"
  proof (rule ccontr)
    assume "h_stream h \<noteq> None"
    then obtain s where s: "h_stream h = Some s" by blast
    then have "stream_flags s \<noteq> 0" using legal by (simp add: header_legal_def)
    then obtain n where n: "bit (stream_flags s) n" by (auto simp: flags_eq_0_iff)
    then have "bit (header_flags h) n" using s by (auto simp: bit_header_flags)
    then show False using n flags by (auto simp: flag_bits bit_stream_flags)
  qed
  moreover have "\<not> bit (header_flags h) 5" "\<not> bit (header_flags h) 6" using flags by (simp_all add: flag_bits)
  ultimately show ?thesis by (auto simp: bit_header_flags)
qed

definition frame_header :: "out_frame \<Rightarrow> header" where
  "frame_header f = \<lparr>h_stream = map_option stream_header_of (of_stream f), h_ping = (if of_ping f then Some 0 else None),
     h_pong = of_pong f, h_term = of_term f\<rparr>"

definition frame_payload :: "out_frame \<Rightarrow> u8 list" where
  "frame_payload f = (case of_stream f of None \<Rightarrow> [] | Some s \<Rightarrow> os_data s)"

text \<open>What a frame that is handed to the codec has to satisfy.\<close>

definition frame_ok :: "out_frame \<Rightarrow> bool" where
  [inv_defs]: "frame_ok f \<longleftrightarrow> \<not> frame_is_empty f \<and> frame_data_len f \<le> 65535
     \<and> (of_term f \<longrightarrow> \<not> of_ping f \<and> of_pong f = None \<and> of_stream f = None)
     \<and> (\<forall>s. of_stream f = Some s \<longrightarrow> stream_flags (stream_header_of s) \<noteq> 0)"

lemma frame_header_legal: "frame_ok f \<Longrightarrow> header_legal (frame_header f)"
  by (rule header_legalI) (auto simp: frame_ok_def frame_header_def frame_is_empty_def)

lemma frame_header_typed: "header_typed (frame_header f)"
  by (auto simp: header_typed_def frame_header_def stream_header_of_def non_zero_def)

lemma encoder_new_ok:
  assumes "frame_ok f"
  obtains it where "encoder_new f = Ok it" "item_ok it" "ei_consumed it = 0"
    "ei_header it = frame_header f" "ei_payload it = frame_payload f"
proof -
  let ?it = "\<lparr>ei_header = frame_header f, ei_payload = frame_payload f, ei_encoded = replicate MAX_HEADER_LEN 0,
    ei_header_len = 0, ei_consumed = 0\<rparr>"
  have legal: "header_legal (frame_header f)" by (rule frame_header_legal [OF assms])
  have new: "encoder_new f = stamp ?it 0"
    using assms by (auto simp: encoder_new_def frame_ok_def frame_data_len_def frame_header_def frame_payload_def
        split: option.splits)
  obtain buf where enc: "header_encode (frame_header f) (replicate MAX_HEADER_LEN 0) = Ok (buf, header_len (header_flags (frame_header f)))"
      "length buf = MAX_HEADER_LEN" "take (header_len (header_flags (frame_header f))) buf = header_bytes (frame_header f)"
    using header_encode_Ok [OF legal, of "replicate MAX_HEADER_LEN 0"] by auto
  have h: "has_ping ?it \<longleftrightarrow> of_ping f" "of_ping f \<Longrightarrow> (frame_header f)\<lparr>h_ping := Some 0\<rparr> = frame_header f"
    by (simp_all add: has_ping_def frame_header_def)
  let ?it' = "?it\<lparr>ei_encoded := buf, ei_header_len := header_len (header_flags (frame_header f))\<rparr>"
  have "stamp ?it 0 = Ok ?it'"
    using enc(1) by (cases "of_ping f") (simp_all add: stamp_def h is_started_def r_assert_def Let_def)
  moreover have "item_ok ?it'" using enc legal by (simp add: item_ok_def)
  ultimately show thesis using new by (intro that [of ?it']) simp_all
qed

text \<open>
  A frame that is handed to an idle codec and is written to the end puts exactly its encoding on
  the transport: the header with the time of the first accepted byte as the timestamp of a \<^verbatim>\<open>PING\<close>,
  and the payload. However the transport splits the bytes and whenever it refuses or fails, no byte
  is lost, repeated or reordered: what it accepted, followed by what is still owed, is always that
  encoding. The loop ends, it never panics, and its only errors are those of the transport.
\<close>

theorem encoder_writes_frame:
  assumes "byte_sink wr written" and "frame_ok f"
  shows "\<exists>it. sink_start None f = Ok (Some it)
    \<and> (let (r, pending, io') = poll_write_pending wr t (Some it) io in
        written io' @ owed pending = written io @ header_bytes (with_ping t (frame_header f)) @ frame_payload f
        \<and> r \<noteq> Ready Panic \<and> (r = Ready (Ok ()) \<longleftrightarrow> pending = None)
        \<and> (\<forall>e. r = Ready (Err e) \<longrightarrow> (\<exists>ioe. e = Io ioe)))"
proof -
  from assms(2) obtain it where it: "encoder_new f = Ok it" "item_ok it" "ei_consumed it = 0"
    "ei_header it = frame_header f" "ei_payload it = frame_payload f"
    by (rule encoder_new_ok)
  have "sink_start None f = Ok (Some it)" using it(1) assms(2) by (simp add: sink_start_def frame_ok_def)
  moreover have "owed_at t (Some it) = header_bytes (with_ping t (frame_header f)) @ frame_payload f"
    using it(3-5) by (simp add: owed_at_def is_started_def)
  ultimately show ?thesis
    using byte_sink.write_pending [OF assms(1) refl, of "Some it" io t] it(2)
    by (simp add: write_result_def split_beta Let_def)
qed

theorem encoder_writes_frame_witness:
  "\<exists>it. sink_start None frame_terminate = Ok (Some it)
    \<and> (let (r, pending, io') = poll_write_pending mock_write_vectored 7 (Some it)
          \<lparr>mock_writes = [], vectored = False, refuse = True, max_accept = 1\<rparr> in
        concat (mock_writes io') @ owed pending = header_bytes (with_ping 7 (frame_header frame_terminate)))"
proof -
  have "frame_ok frame_terminate" by (simp add: frame_ok_def frame_terminate_def frame_is_empty_def frame_data_len_def)
  from encoder_writes_frame [OF mock.byte_sink_axioms this, of 7 "\<lparr>mock_writes = [], vectored = False, refuse = True, max_accept = 1\<rparr>"]
  show ?thesis by (auto simp: frame_payload_def frame_terminate_def)
qed

text \<open>
  The panics of the writing half are exactly misuse: handing over a frame panics only when another
  one is pending, when the frame is empty or illegal (no flag in its stream part, \<^verbatim>\<open>TERM\<close> with another
  part) or when its payload exceeds 65535 bytes.
\<close>

theorem sink_start_panics:
  "(sink_start pending f = Panic \<longleftrightarrow> \<not> (pending = None \<and> frame_ok f)) \<and> (\<forall>e. sink_start pending f \<noteq> Err e)"
proof (cases "pending = None \<and> frame_ok f")
  case True
  then obtain it where "encoder_new f = Ok it" using encoder_new_ok by blast
  then show ?thesis using True by (simp add: sink_start_def frame_ok_def)
next
  case False
  have "encoder_new f = Panic" if "\<not> frame_is_empty f" "\<not> frame_ok f"
  proof (cases "frame_data_len f > 65535")
    case True
    then show ?thesis by (auto simp: encoder_new_def frame_data_len_def split: option.splits)
  next
    case len: False
    have "\<not> header_legal (with_ping 0 (frame_header f))"
    proof
      assume "header_legal (with_ping 0 (frame_header f))"
      then have legal: "header_legal (frame_header f)" by simp
      then have "\<forall>s. of_stream f = Some s \<longrightarrow> stream_flags (stream_header_of s) \<noteq> 0"
        by (simp add: header_legal_def frame_header_def)
      then show False using that len header_legal_term [OF legal]
        by (auto simp: frame_ok_def frame_header_def split: if_splits)
    qed
    then have "stamp it 0 = Panic" if "ei_header it = frame_header f" for it
      using that header_encode_Panic [of "with_ping 0 (frame_header f)"]
      by (auto simp: stamp_def r_assert_def has_ping_def with_ping_def Let_def)
    then show ?thesis using len
      by (auto simp: encoder_new_def frame_data_len_def frame_header_def split: option.splits)
  qed
  then show ?thesis using False by (auto simp: sink_start_def r_assert_def)
qed

end
