(* ===== verification/Pings.thy ===== *)
theory Pings
  imports Header Clock
begin

text \<open>
  Our side of the \<^verbatim>\<open>PING\<close>/\<^verbatim>\<open>PONG\<close> exchange (\<^verbatim>\<open>src/connection/pings.rs\<close>). The timer of the
  schedule is a \<^verbatim>\<open>Sleep\<close> of the runtime: it is its deadline, and whether polling it at a time finds
  it elapsed is the argument \<open>fires\<close>. The documentation of the timer says that it does not elapse
  before its deadline, that an elapsed timer stays elapsed, and that every timer elapses
  (\<open>timer_ok\<close>).
\<close>

section \<open>Definitions\<close>

type_synonym timer = "instant \<Rightarrow> instant \<Rightarrow> bool"

definition timer_ok :: "timer \<Rightarrow> bool" where
  "timer_ok fires \<longleftrightarrow> (\<forall>d now. fires d now \<longrightarrow> d \<le> now)
     \<and> (\<forall>d now later. fires d now \<longrightarrow> now \<le> later \<longrightarrow> fires d later) \<and> (\<forall>d. \<exists>now. fires d now)"

subsection \<open>The schedule\<close>

record ping_schedule =
  sleep_at :: instant
  interval :: duration
  sched_bytes :: u32
  unpinged_bytes :: u32

definition schedule_new :: "instant \<Rightarrow> duration \<Rightarrow> u32 \<Rightarrow> ping_schedule" where
  "schedule_new now itv bytes = \<lparr>sleep_at = now, interval = itv, sched_bytes = bytes, unpinged_bytes = 0\<rparr>"

definition poll_due :: "timer \<Rightarrow> ping_schedule \<Rightarrow> instant \<Rightarrow> unit poll" where
  "poll_due fires s now =
     (if unpinged_bytes s \<ge> sched_bytes s then Ready ()
      else if fires (sleep_at s) now then Ready () else Pending)"

definition schedule_sent :: "instant \<Rightarrow> ping_schedule \<Rightarrow> instant \<Rightarrow> (ping_schedule, 'e) rres" where
  "schedule_sent limit s now =
     r_bind (deadline limit now (interval s)) (\<lambda>at. Ok (s\<lparr>unpinged_bytes := 0, sleep_at := at\<rparr>))"

definition saturating_add_u32 :: "u32 \<Rightarrow> u32 \<Rightarrow> u32" where
  "saturating_add_u32 a b = (if unat a + unat b \<le> u32_max then a + b else word_of_nat u32_max)"

definition schedule_data_sent :: "ping_schedule \<Rightarrow> nat \<Rightarrow> ping_schedule" where
  "schedule_data_sent s len =
     (let n = (if len \<le> u32_max then word_of_nat len else word_of_nat u32_max)
      in s\<lparr>unpinged_bytes := saturating_add_u32 (unpinged_bytes s) n\<rparr>)"

subsection \<open>The exchange\<close>

record pings =
  schedule :: ping_schedule
  owed_pong :: "pong option"

definition pings_new :: "instant \<Rightarrow> duration \<Rightarrow> u32 \<Rightarrow> pings" where
  "pings_new now itv bytes = \<lparr>schedule = schedule_new now itv bytes, owed_pong = None\<rparr>"

definition received_ping :: "pings \<Rightarrow> u32 \<Rightarrow> pings" where
  "received_ping p t_ping = p\<lparr>owed_pong := Some \<lparr>t_echo = t_ping\<rparr>\<rparr>"

definition take_frame_part :: "timer \<Rightarrow> instant \<Rightarrow> pings \<Rightarrow> instant \<Rightarrow> (pong option \<times> bool \<times> pings, 'e) rres" where
  "take_frame_part fires limit p now =
     (let pong = owed_pong p; p = p\<lparr>owed_pong := None\<rparr>;
          ping = is_ready (poll_due fires (schedule p) now)
      in if ping then r_bind (schedule_sent limit (schedule p) now) (\<lambda>s. Ok (pong, True, p\<lparr>schedule := s\<rparr>))
         else Ok (pong, False, p))"

definition data_sent :: "pings \<Rightarrow> nat \<Rightarrow> pings" where
  "data_sent p len = p\<lparr>schedule := schedule_data_sent (schedule p) len\<rparr>"

section \<open>Lemmas\<close>

lemma unat_saturating_add: "unat (saturating_add_u32 a b) = min (unat a + unat b) u32_max"
proof (cases "unat a + unat b \<le> u32_max")
  case True
  then have "unat (a + b) = unat a + unat b" by (intro unat_add_lem [THEN iffD1]) simp
  then show ?thesis using True by (simp add: saturating_add_u32_def)
qed (simp add: saturating_add_u32_def)

lemma unpinged_data_sent:
  "unat (unpinged_bytes (schedule_data_sent s len)) = min (unat (unpinged_bytes s) + len) u32_max"
  "sched_bytes (schedule_data_sent s len) = sched_bytes s" "sleep_at (schedule_data_sent s len) = sleep_at s"
  "interval (schedule_data_sent s len) = interval s"
  by (auto simp: schedule_data_sent_def Let_def unat_saturating_add unat_of_nat)

lemma unpinged_fold:
  "unat (unpinged_bytes (schedule (foldl data_sent p ds))) = min (unat (unpinged_bytes (schedule p)) + sum_list ds) u32_max
   \<and> sched_bytes (schedule (foldl data_sent p ds)) = sched_bytes (schedule p)
   \<and> sleep_at (schedule (foldl data_sent p ds)) = sleep_at (schedule p)
   \<and> owed_pong (foldl data_sent p ds) = owed_pong p"
proof (induction ds arbitrary: p)
  case Nil
  then show ?case using unat_le_u32_max [of "unpinged_bytes (schedule p)"] by simp
next
  case (Cons d ds)
  then show ?case using Cons.IH [of "data_sent p d"] by (simp add: data_sent_def unpinged_data_sent)
qed

lemma take_frame_part_eq:
  assumes "now + never \<le> limit"
  shows "take_frame_part fires limit p now =
    (let due = sched_bytes (schedule p) \<le> unpinged_bytes (schedule p) \<or> fires (sleep_at (schedule p)) now
     in Ok (owed_pong p, due, p\<lparr>owed_pong := None, schedule := (if due
          then (schedule p)\<lparr>unpinged_bytes := 0, sleep_at := now + min (interval (schedule p)) never\<rparr> else schedule p)\<rparr>))"
  using assms by (auto simp: take_frame_part_def poll_due_def schedule_sent_def deadline_eq Let_def)

text \<open>
  C33. The pace of the \<^verbatim>\<open>PING\<close>s. A frame that takes a \<^verbatim>\<open>PING\<close> at the time \<open>t0\<close> starts a new period. After
  that, and after any number of frames with data, the next frame takes a \<^verbatim>\<open>PING\<close> exactly when the
  data of the period reached the configured number of bytes, or the interval (at most 30 years)
  has elapsed; so a \<^verbatim>\<open>PING\<close> is not sent earlier than that, and sooner or later it is. The counter of
  bytes saturates, it never wraps.
\<close>

theorem ping_pacing:
  assumes "take_frame_part fires limit p t0 = (Ok (pong, True, p0) :: (pong option \<times> bool \<times> pings, 'e) rres)"
    and "p1 = foldl data_sent p0 ds" and "now + never \<le> limit" and "timer_ok fires"
  shows "\<exists>ping p2. take_frame_part fires limit p1 now = (Ok (None, ping, p2) :: (pong option \<times> bool \<times> pings, 'e) rres)
    \<and> (ping \<longleftrightarrow> unat (sched_bytes (schedule p)) \<le> sum_list ds
         \<or> fires (t0 + min (interval (schedule p)) never) now)
    \<and> (ping \<and> sum_list ds < unat (sched_bytes (schedule p)) \<longrightarrow> t0 + min (interval (schedule p)) never \<le> now)
    \<and> (\<exists>later. fires (t0 + min (interval (schedule p)) never) later)
    \<and> unat (unpinged_bytes (schedule p1)) = min (sum_list ds) u32_max"
proof -
  have lim: "t0 + never \<le> limit"
    using assms(1) by (auto simp: take_frame_part_def schedule_sent_def deadline_def Let_def split: if_splits)
  have p0: "schedule p0 = (schedule p)\<lparr>unpinged_bytes := 0, sleep_at := t0 + min (interval (schedule p)) never\<rparr>"
      "owed_pong p0 = None"
    using assms(1) by (auto simp: take_frame_part_eq [OF lim] Let_def split: if_splits)
  note f = unpinged_fold [of p0 ds, folded assms(2)]
  have "sched_bytes (schedule p1) \<le> unpinged_bytes (schedule p1) \<longleftrightarrow> unat (sched_bytes (schedule p)) \<le> sum_list ds"
    using f unat_le_u32_max [of "sched_bytes (schedule p)"] by (simp add: p0 word_le_nat_alt)
  then have due: "sched_bytes (schedule p1) \<le> unpinged_bytes (schedule p1) \<or> fires (sleep_at (schedule p1)) now
      \<longleftrightarrow> unat (sched_bytes (schedule p)) \<le> sum_list ds \<or> fires (t0 + min (interval (schedule p)) never) now"
    using f by (simp add: p0)
  have "owed_pong p1 = None" "unat (unpinged_bytes (schedule p1)) = min (sum_list ds) u32_max"
    using f by (simp_all add: p0)
  moreover have "\<exists>later. fires (t0 + min (interval (schedule p)) never) later"
    "fires (t0 + min (interval (schedule p)) never) now \<longrightarrow> t0 + min (interval (schedule p)) never \<le> now"
    using assms(4) by (simp_all add: timer_ok_def)
  ultimately show ?thesis
    unfolding take_frame_part_eq [OF assms(3)] Let_def due by force
qed

definition demo_pings :: pings where
  "demo_pings = \<lparr>schedule = \<lparr>sleep_at = 5002, interval = 5000, sched_bytes = 100, unpinged_bytes = 0\<rparr>, owed_pong = None\<rparr>"

lemma demo_take: "take_frame_part (\<lambda>d now. d \<le> now) (9 + never) (pings_new 2 5000 100) 2 = Ok (None, True, demo_pings)"
  by (simp add: take_frame_part_def poll_due_def schedule_sent_def deadline_def never_def from_secs_def
      pings_new_def schedule_new_def demo_pings_def del: r_bind_eq_Ok)

theorem ping_pacing_witness:
  "\<exists>p2. take_frame_part (\<lambda>d now. d \<le> now) (9 + never) (foldl data_sent demo_pings [60, 40]) 9
    = (Ok (None, True, p2) :: (pong option \<times> bool \<times> pings, unit) rres)"
proof -
  have timer: "timer_ok (\<lambda>d now. d \<le> now)" by (auto simp: timer_ok_def)
  have lim: "9 + never \<le> 9 + never" by (rule order_refl)
  from ping_pacing [OF demo_take refl lim timer, of "[60, 40]"] show ?thesis
    by (auto simp: pings_new_def schedule_new_def)
qed

text \<open>
  C34. Of the \<^verbatim>\<open>PING\<close>s that were read since the last frame went out, the next frame answers the latest
  one, and exactly once: the frame after it owes nothing.
\<close>

theorem pong_answers_latest:
  assumes "now + never \<le> limit" and "later + never \<le> limit"
  shows "\<exists>ping1 ping2 p1 p2. take_frame_part fires limit (foldl received_ping p ts) now
      = (Ok (if ts = [] then owed_pong p else Some \<lparr>t_echo = last ts\<rparr>, ping1, p1) :: (pong option \<times> bool \<times> pings, 'e) rres)
    \<and> take_frame_part fires limit p1 later = (Ok (None, ping2, p2) :: (pong option \<times> bool \<times> pings, 'e) rres)"
proof -
  have "owed_pong (foldl received_ping p ts) = (if ts = [] then owed_pong p else Some \<lparr>t_echo = last ts\<rparr>)"
    by (induction ts rule: rev_induct) (simp_all add: received_ping_def)
  then show ?thesis
    by (simp add: take_frame_part_eq [OF assms(1)] take_frame_part_eq [OF assms(2)] Let_def)
qed

theorem pong_answers_latest_witness:
  "\<exists>ping1 p1. take_frame_part (\<lambda>_ _. False) (8 + never) (foldl received_ping (pings_new 0 7 100) [3, 5]) 4
    = (Ok (Some \<lparr>t_echo = 5\<rparr>, ping1, p1) :: (pong option \<times> bool \<times> pings, unit) rres)"
  using pong_answers_latest [of 4 "8 + never" 8 "\<lambda>_ _. False" "pings_new 0 7 100" "[3, 5]"] by auto

end
