(* ===== verification/Decoder.thy ===== *)
theory Decoder
  imports Encoder Pings
begin

text \<open>
  The reading half of the codec (\<^verbatim>\<open>src/wire/codec/decoder.rs\<close>, \<^verbatim>\<open>poll_next_frame\<close> and the \<^verbatim>\<open>Stream\<close>
  of \<^verbatim>\<open>src/wire/codec.rs\<close>). A read of the transport is the argument \<open>rd\<close>: given the capacity of the
  buffer it returns the bytes that were put there (none at the end of the input). The locale
  \<open>byte_source\<close> states what \<^verbatim>\<open>AsyncRead\<close> documents. A buffer for a payload is its capacity and the
  initialised bytes in front; theory \<open>Buffer\<close> verifies the allocation behind it.

  The lemmas show that the decoder is the inverse of the encoder for every way in which the
  transport splits the bytes: a frame comes out exactly when its encoding went in, the reading
  loop ends, and it never panics.
\<close>

section \<open>Definitions\<close>

record inbound_frame =
  if_header :: header
  if_data :: "u8 list"
  if_header_at :: instant

datatype decoded_frame = Frame inbound_frame | Terminate

datatype decoder_state =
    ReadingHeader nat nat "flags option" "u8 list"
  | ReadingData header instant nat "u8 list"

definition decoder_default :: decoder_state where
  "decoder_default = ReadingHeader 0 FLAGS_LEN None (replicate MAX_HEADER_LEN 0)"

type_synonym 'io rd = "'io \<Rightarrow> nat \<Rightarrow> (u8 list, io_error) rres poll \<times> 'io"

type_synonym decode_output = "(decoded_frame, error_kind) rres option poll"

text \<open>
  What follows once the whole header is in the buffer: the frame is complete, the header is
  refused, or the payload is to be read.
\<close>

definition header_read :: "u16 \<Rightarrow> instant \<Rightarrow> flags \<Rightarrow> nat \<Rightarrow> u8 list \<Rightarrow> decoder_state
    \<Rightarrow> (decode_output \<times> decoder_state) + decoder_state" where
  "header_read limit now f need buffer st =
     (case header_decode f (take need buffer) of
        Err e \<Rightarrow> Inl (Ready (Some (Err (Decode e))), st)
      | Panic \<Rightarrow> Inl (Ready (Some Panic), st)
      | Ok h \<Rightarrow>
          if h_term h then Inl (Ready (Some (Ok Terminate)), decoder_default)
          else case Option.bind (h_stream h) sh_data_len of
            None \<Rightarrow> Inl (Ready (Some (Ok (Frame \<lparr>if_header = h, if_data = [], if_header_at = now\<rparr>))), decoder_default)
          | Some len \<Rightarrow>
              if len > limit
              then Inl (Ready (Some (Err (Decode (DecodeError ''DATA exceeding the configured frame limit'')))), st)
              else Inr (ReadingData h now (unat len) []))"

definition put_at :: "u8 list \<Rightarrow> nat \<Rightarrow> u8 list \<Rightarrow> u8 list" where
  "put_at buffer at bs = take at buffer @ bs @ drop (at + length bs) buffer"

text \<open>The state after the flags are read, before the rest of the header.\<close>

definition flags_read :: "flags option \<Rightarrow> u8 list \<Rightarrow> (flags \<times> bool, decode_error) rres" where
  "flags_read flags buffer = (case flags of
      Some f \<Rightarrow> Ok (f, False)
    | None \<Rightarrow> r_bind (flags_validate (u16_from_be_bytes (take 2 buffer))) (\<lambda>f. Ok (f, True)))"

function poll_next_frame :: "'io rd \<Rightarrow> u16 \<Rightarrow> instant \<Rightarrow> decoder_state \<Rightarrow> 'io
    \<Rightarrow> decode_output \<times> decoder_state \<times> 'io" where
  "poll_next_frame rd limit now (ReadingHeader filled need flags buffer) io =
     (case rd io (need - filled) of
        (Pending, io) \<Rightarrow> (Pending, ReadingHeader filled need flags buffer, io)
      | (Ready (Err e), io) \<Rightarrow> (Ready (Some (Err (Io e))), ReadingHeader filled need flags buffer, io)
      | (Ready Panic, io) \<Rightarrow> (Ready (Some Panic), ReadingHeader filled need flags buffer, io)
      | (Ready (Ok bs), io) \<Rightarrow>
          if length bs > need - filled then (Ready (Some Panic), ReadingHeader filled need flags buffer, io)
          else if bs = [] then
            (Ready (if filled = 0 then None else Some (Err (Io UnexpectedEof))), ReadingHeader filled need flags buffer, io)
          else
            let buffer = put_at buffer filled bs; filled = filled + length bs in
            if filled < need then poll_next_frame rd limit now (ReadingHeader filled need flags buffer) io
            else case flags_read flags buffer of
              Err e \<Rightarrow> (Ready (Some (Err (Decode e))), ReadingHeader filled need flags buffer, io)
            | Panic \<Rightarrow> (Ready (Some Panic), ReadingHeader filled need flags buffer, io)
            | Ok (f, fresh) \<Rightarrow>
                let need = (if fresh then header_len f else need) in
                if fresh \<and> filled < need
                then poll_next_frame rd limit now (ReadingHeader filled need (Some f) buffer) io
                else case header_read limit now f need buffer (ReadingHeader filled need (Some f) buffer) of
                  Inl (r, st) \<Rightarrow> (r, st, io)
                | Inr st \<Rightarrow> poll_next_frame rd limit now st io)"
| "poll_next_frame rd limit now (ReadingData h header_at cap got) io =
     (case rd io (cap - length got) of
        (Pending, io) \<Rightarrow> (Pending, ReadingData h header_at cap got, io)
      | (Ready (Err e), io) \<Rightarrow> (Ready (Some (Err (Io e))), ReadingData h header_at cap got, io)
      | (Ready Panic, io) \<Rightarrow> (Ready (Some Panic), ReadingData h header_at cap got, io)
      | (Ready (Ok bs), io) \<Rightarrow>
          if length bs > cap - length got then (Ready (Some Panic), ReadingData h header_at cap got, io)
          else if bs = [] then (Ready (Some (Err (Io UnexpectedEof))), ReadingData h header_at cap got, io)
          else if length (got @ bs) = cap then
            (Ready (Some (Ok (Frame \<lparr>if_header = h, if_data = got @ bs, if_header_at = header_at\<rparr>))), decoder_default, io)
          else poll_next_frame rd limit now (ReadingData h header_at cap (got @ bs)) io)"
  by pat_completeness auto

text \<open>Every round of the loop reads at least a byte, or goes from the flags to the header to the payload.\<close>

fun stage :: "decoder_state \<Rightarrow> nat" where
  "stage (ReadingHeader _ _ None _) = 2"
| "stage (ReadingHeader _ _ (Some _) _) = 1"
| "stage (ReadingData _ _ _ _) = 0"

fun missing :: "decoder_state \<Rightarrow> nat" where
  "missing (ReadingHeader filled need _ _) = need - filled"
| "missing (ReadingData _ _ cap got) = cap - length got"

lemma header_read_Inr: "header_read limit now f need buffer st = Inr st' \<Longrightarrow> \<exists>h len. st' = ReadingData h now (unat len) [] \<and>
    header_decode f (take need buffer) = Ok h \<and> \<not> h_term h \<and> Option.bind (h_stream h) sh_data_len = Some len \<and> len \<le> limit"
  by (auto simp: header_read_def split: rres.splits if_splits option.splits)

lemma stage_header: "stage (ReadingHeader a b c d) = (case c of None \<Rightarrow> 2 | Some _ \<Rightarrow> 1)"
  by (cases c) simp_all

termination poll_next_frame
proof (relation "measures [\<lambda>(rd, limit, now, st, io). stage st, \<lambda>(rd, limit, now, st, io). missing st]", goal_cases)
  case 1
  then show ?case by simp
next
  case 2
  then show ?case by (auto simp: not_less stage_header neq_Nil_conv)
next
  case 3
  then show ?case by (auto simp: flags_read_def split: option.splits)
next
  case 4
  then show ?case by (auto simp: stage_header dest!: header_read_Inr split: option.split)
next
  case 5
  then show ?case by (auto simp: not_less neq_Nil_conv)
qed

declare poll_next_frame.simps [simp del]

section \<open>Specification\<close>

locale byte_source =
  fixes rd :: "'io rd" and taken :: "'io \<Rightarrow> u8 list"
  assumes reads: "rd io n = (Ready (Ok bs), io') \<Longrightarrow> length bs \<le> n \<and> taken io' = taken io @ bs"
    and waits: "rd io n = (Pending, io') \<Longrightarrow> taken io' = taken io"
    and breaks: "rd io n = (Ready (Err e), io') \<Longrightarrow> taken io' = taken io"
    and read_no_panic: "fst (rd io n) \<noteq> Ready Panic"

definition payload_len :: "header \<Rightarrow> nat" where
  "payload_len h = (case Option.bind (h_stream h) sh_data_len of None \<Rightarrow> 0 | Some len \<Rightarrow> unat len)"

text \<open>The frames that may come out of the decoder, and their bytes on the wire.\<close>

definition frame_valid :: "u16 \<Rightarrow> inbound_frame \<Rightarrow> bool" where
  "frame_valid limit f \<longleftrightarrow> header_legal (if_header f) \<and> header_typed (if_header f) \<and> \<not> h_term (if_header f)
     \<and> length (if_data f) = payload_len (if_header f) \<and> payload_len (if_header f) \<le> unat limit"

definition frame_bytes :: "inbound_frame \<Rightarrow> u8 list" where
  "frame_bytes f = header_bytes (if_header f) @ if_data f"

definition term_bytes :: "u8 list" where
  "term_bytes = header_bytes (frame_header frame_terminate)"

text \<open>The state of the decoder after it read the bytes \<open>used\<close> of a frame that is not complete.\<close>

fun dec_rep :: "u16 \<Rightarrow> decoder_state \<Rightarrow> u8 list \<Rightarrow> bool" where
  "dec_rep limit (ReadingHeader filled need None buffer) used \<longleftrightarrow>
     need = FLAGS_LEN \<and> filled < need \<and> length buffer = MAX_HEADER_LEN \<and> length used = filled \<and> take filled buffer = used"
| "dec_rep limit (ReadingHeader filled need (Some f) buffer) used \<longleftrightarrow>
     need = header_len f \<and> FLAGS_LEN \<le> filled \<and> filled < need \<and> length buffer = MAX_HEADER_LEN \<and> length used = filled
     \<and> take filled buffer = used \<and> flags_validate f = Ok f \<and> take 2 used = u16_to_be_bytes f"
| "dec_rep limit (ReadingData h header_at cap got) used \<longleftrightarrow>
     header_legal h \<and> header_typed h \<and> \<not> h_term h \<and> cap = payload_len h \<and> cap \<le> unat limit
     \<and> length got < cap \<and> used = header_bytes h @ got"

text \<open>Why the bytes \<open>used\<close> are refused: the flags, the header, or the length of the payload.\<close>

definition refused :: "u16 \<Rightarrow> u8 list \<Rightarrow> decode_error \<Rightarrow> bool" where
  "refused limit used e \<longleftrightarrow>
     (length used = 2 \<and> flags_validate (u16_from_be_bytes used) = Err e)
     \<or> (\<exists>f. flags_validate f = Ok f \<and> take 2 used = u16_to_be_bytes f \<and> length used = header_len f
          \<and> header_decode f used = Err e)
     \<or> (\<exists>h. header_legal h \<and> header_typed h \<and> used = header_bytes h \<and> unat limit < payload_len h
          \<and> e = DecodeError ''DATA exceeding the configured frame limit'')"

definition dec_outcome :: "u16 \<Rightarrow> u8 list \<Rightarrow> decode_output \<Rightarrow> decoder_state \<Rightarrow> bool" where
  "dec_outcome limit used r st = (case r of
      Pending \<Rightarrow> dec_rep limit st used
    | Ready None \<Rightarrow> used = [] \<and> dec_rep limit st used
    | Ready (Some (Ok (Frame f))) \<Rightarrow> frame_valid limit f \<and> used = frame_bytes f \<and> st = decoder_default
    | Ready (Some (Ok Terminate)) \<Rightarrow> used = term_bytes \<and> st = decoder_default
    | Ready (Some (Err (Decode e))) \<Rightarrow> refused limit used e
    | Ready (Some (Err (Io e))) \<Rightarrow> dec_rep limit st used
    | _ \<Rightarrow> False)"

section \<open>Lemmas\<close>

lemma dec_rep_default: "dec_rep limit decoder_default []"
  by (simp add: decoder_default_def FLAGS_LEN_def)

lemma term_header: "header_legal h \<Longrightarrow> h_term h \<Longrightarrow> h = frame_header frame_terminate"
  using header_legal_term [of h] by (simp add: frame_header_def frame_terminate_def)

lemma put_at_take:
  assumes "at + length bs \<le> length buffer"
  shows "take (at + length bs) (put_at buffer at bs) = take at buffer @ bs" "length (put_at buffer at bs) = length buffer"
  using assms by (simp_all add: put_at_def)

lemma header_read_outcome:
  assumes valid: "flags_validate f = Ok f" and used: "take need buffer = used" "need = header_len f" "length used = need"
    and flags: "take 2 used = u16_to_be_bytes f"
  shows "case header_read limit now f need buffer st of
      Inl (r, st') \<Rightarrow> dec_outcome limit used r st'
    | Inr st' \<Rightarrow> dec_rep limit st' used"
proof (cases "header_decode f used")
  case (Err e)
  then show ?thesis using assms by (auto simp: header_read_def dec_outcome_def refused_def)
next
  case Panic
  then show ?thesis using header_decode_not_Panic used by simp
next
  case (Ok h)
  have len: "length used = header_len f" using used by simp
  note h = header_decode_sound [OF Ok valid len flags]
  show ?thesis
  proof (cases "h_term h")
    case True
    then show ?thesis using Ok used h term_header [OF h(3)]
      by (auto simp: header_read_def dec_outcome_def term_bytes_def)
  next
    case noterm: False
    show ?thesis
    proof (cases "Option.bind (h_stream h) sh_data_len")
      case None
      then show ?thesis using Ok used h noterm
        by (simp add: header_read_def dec_outcome_def frame_valid_def frame_bytes_def payload_len_def)
    next
      case (Some len)
      have "len \<noteq> 0" using h(4) Some by (cases "h_stream h") (auto simp: header_typed_def)
      moreover have "payload_len h = unat len" by (simp add: payload_len_def Some)
      ultimately show ?thesis using Ok used h noterm Some
        by (auto simp: header_read_def dec_outcome_def refused_def word_less_nat_alt unat_gt_0 not_less)
    qed
  qed
qed

text \<open>
  One read while the header is read, in terms of the bytes used so far: the read completes
  nothing, or leads to a state with fewer missing bytes, or the outcome is the one of the
  specification.
\<close>

definition reads_on :: "u16 \<Rightarrow> decoder_state \<Rightarrow> u8 list \<Rightarrow> decoder_state \<Rightarrow> bool" where
  "reads_on limit st used st' \<longleftrightarrow> (st', st) \<in> measures [stage, missing] \<and> dec_rep limit st' used"

lemma header_bytes_arrive:
  assumes rep: "dec_rep limit (ReadingHeader filled need flags buffer) pfx" and bs: "bs \<noteq> []" "length bs \<le> need - filled"
  shows "take (filled + length bs) (put_at buffer filled bs) = pfx @ bs" "length (put_at buffer filled bs) = MAX_HEADER_LEN"
    "length pfx = filled" "filled < need"
proof -
  have "need \<le> MAX_HEADER_LEN" "length buffer = MAX_HEADER_LEN" "filled < need" "take filled buffer = pfx" "length pfx = filled"
    using rep header_len_le_18 by (cases flags; auto simp: FLAGS_LEN_def MAX_HEADER_LEN_def)+
  then show "take (filled + length bs) (put_at buffer filled bs) = pfx @ bs" "length (put_at buffer filled bs) = MAX_HEADER_LEN"
    "length pfx = filled" "filled < need"
    using put_at_take [of filled bs buffer] bs by simp_all
qed

lemma header_continues:
  assumes rep: "dec_rep limit (ReadingHeader filled need flags buffer) pfx" and bs: "bs \<noteq> []" "length bs \<le> need - filled"
    and more: "filled + length bs < need"
  shows "reads_on limit (ReadingHeader filled need flags buffer) (pfx @ bs)
    (ReadingHeader (filled + length bs) need flags (put_at buffer filled bs))"
  using rep bs more header_bytes_arrive [OF rep bs]
  by (cases flags) (auto simp: reads_on_def neq_Nil_conv FLAGS_LEN_def)

lemma header_completes:
  assumes rep: "dec_rep limit (ReadingHeader filled need flags buffer) pfx" and bs: "bs \<noteq> []" "length bs \<le> need - filled"
    and full: "\<not> filled + length bs < need" and fr: "flags_read flags (put_at buffer filled bs) = Ok (f, fresh)"
  shows "flags_validate f = Ok f" "take 2 (pfx @ bs) = u16_to_be_bytes f" "fresh \<longleftrightarrow> flags = None"
    "\<not> fresh \<Longrightarrow> need = header_len f" "length (pfx @ bs) = need" "fresh \<Longrightarrow> need = 2" "2 \<le> header_len f"
proof -
  note arr = header_bytes_arrive [OF rep bs]
  show len: "length (pfx @ bs) = need" using arr(3,4) bs(2) full by simp
  show "2 \<le> header_len f" by (simp add: header_len_def FLAGS_LEN_def)
  have "flags_validate f = Ok f \<and> take 2 (pfx @ bs) = u16_to_be_bytes f \<and> (fresh \<longleftrightarrow> flags = None)
    \<and> (\<not> fresh \<longrightarrow> need = header_len f) \<and> (fresh \<longrightarrow> need = 2)"
  proof (cases flags)
    case (Some g)
    then show ?thesis using rep fr by (auto simp: flags_read_def FLAGS_LEN_def)
  next
    case None
    then have need: "need = 2" using rep by (simp add: FLAGS_LEN_def)
    have "take 2 (put_at buffer filled bs) = pfx @ bs" using arr(1) len arr(3) need by simp
    then show ?thesis using fr None need len u16_be_roundtrip2 [of "pfx @ bs"]
      by (auto simp: flags_read_def flags_validate_Ok)
  qed
  then show "flags_validate f = Ok f" "take 2 (pfx @ bs) = u16_to_be_bytes f" "fresh \<longleftrightarrow> flags = None"
    "\<not> fresh \<Longrightarrow> need = header_len f" "fresh \<Longrightarrow> need = 2" by blast+
qed

lemma header_refused:
  assumes rep: "dec_rep limit (ReadingHeader filled need flags buffer) pfx" and bs: "bs \<noteq> []" "length bs \<le> need - filled"
    and full: "\<not> filled + length bs < need"
  shows "flags_read flags (put_at buffer filled bs) = Err e \<Longrightarrow> refused limit (pfx @ bs) e"
    and "flags_read flags (put_at buffer filled bs) \<noteq> Panic"
proof -
  note arr = header_bytes_arrive [OF rep bs]
  show "flags_read flags (put_at buffer filled bs) \<noteq> Panic"
    using flags_validate_not_Panic by (auto simp: flags_read_def r_bind_eq_Panic split: option.splits)
  show "refused limit (pfx @ bs) e" if err: "flags_read flags (put_at buffer filled bs) = Err e"
  proof (cases flags)
    case None
    then have len: "length (pfx @ bs) = 2" using rep arr(3,4) bs(2) full by (simp add: FLAGS_LEN_def)
    then have "take 2 (put_at buffer filled bs) = pfx @ bs" using arr(1,3) by simp
    then show ?thesis using err None len
      by (cases "flags_validate (u16_from_be_bytes (pfx @ bs))") (auto simp: flags_read_def refused_def)
  qed (use err in \<open>simp add: flags_read_def\<close>)
qed

text \<open>One round of the loop: it ends with an outcome, or goes on with a read in a later state.\<close>

definition dec_step :: "u16 \<Rightarrow> decoder_state \<Rightarrow> u8 list \<Rightarrow> 'io rd \<Rightarrow> instant \<Rightarrow> 'io \<Rightarrow> ('io \<Rightarrow> u8 list) \<Rightarrow> u8 list
    \<Rightarrow> decode_output \<times> decoder_state \<times> 'io \<Rightarrow> bool" where
  "dec_step limit st pfx rd now io taken C res \<longleftrightarrow>
     (\<exists>r st' io' bs. res = (r, st', io') \<and> taken io' = C @ pfx @ bs \<and> dec_outcome limit (pfx @ bs) r st')
     \<or> (\<exists>st' io' bs. res = poll_next_frame rd limit now st' io' \<and> taken io' = C @ pfx @ bs
          \<and> reads_on limit st (pfx @ bs) st')"

lemma dec_step_doneI:
  "taken io' = C @ pfx @ bs \<Longrightarrow> dec_outcome limit (pfx @ bs) r st' \<Longrightarrow>
   dec_step limit st pfx rd now io taken C (r, st', io')"
  by (auto simp: dec_step_def)

lemma dec_step_moreI:
  "taken io' = C @ pfx @ bs \<Longrightarrow> reads_on limit st (pfx @ bs) st' \<Longrightarrow>
   dec_step limit st pfx rd now io taken C (poll_next_frame rd limit now st' io')"
  by (auto simp: dec_step_def)

lemma header_read_step:
  assumes rep: "dec_rep limit (ReadingHeader filled need flags buffer) pfx" and bs: "bs \<noteq> []" "length bs \<le> need - filled"
    and full: "\<not> filled + length bs < need" and fr: "flags_read flags (put_at buffer filled bs) = Ok (f, fresh)"
    and c: "taken io' = C @ pfx @ bs"
  shows "dec_step limit (ReadingHeader filled need flags buffer) pfx rd now io taken C
    (let need = (if fresh then header_len f else need) in
     if fresh \<and> filled + length bs < need
     then poll_next_frame rd limit now (ReadingHeader (filled + length bs) need (Some f) (put_at buffer filled bs)) io'
     else case header_read limit now f need (put_at buffer filled bs) (ReadingHeader (filled + length bs) need (Some f) (put_at buffer filled bs)) of
       Inl (r, st) \<Rightarrow> (r, st, io')
     | Inr st \<Rightarrow> poll_next_frame rd limit now st io')"
proof -
  note hc = header_completes [OF rep bs full fr] and arr = header_bytes_arrive [OF rep bs]
  let ?st = "ReadingHeader filled need flags buffer"
  show ?thesis
  proof (cases "fresh \<and> filled + length bs < header_len f")
    case True
    then have "reads_on limit ?st (pfx @ bs) (ReadingHeader (filled + length bs) (header_len f) (Some f) (put_at buffer filled bs))"
      using hc arr full rep by (auto simp: reads_on_def FLAGS_LEN_def)
    from dec_step_moreI [where rd = rd and now = now and io = io and taken = taken and C = C and pfx = pfx and bs = bs, OF c this] show ?thesis using True by simp
  next
    case False
    let ?need = "if fresh then header_len f else need"
    have "length (pfx @ bs) = header_len f" using hc arr full False by (cases fresh) auto
    then have need: "?need = header_len f" "take ?need (put_at buffer filled bs) = pfx @ bs" "length (pfx @ bs) = ?need"
      using hc(4) arr(1,3) by auto
    let ?res = "header_read limit now f ?need (put_at buffer filled bs) (ReadingHeader (filled + length bs) ?need (Some f) (put_at buffer filled bs))"
    have out: "case ?res of Inl (r, st') \<Rightarrow> dec_outcome limit (pfx @ bs) r st' | Inr st' \<Rightarrow> dec_rep limit st' (pfx @ bs)"
      by (rule header_read_outcome [OF hc(1) need(2,1,3) hc(2)])
    have "dec_step limit ?st pfx rd now io taken C
        (case ?res of Inl (r, st) \<Rightarrow> (r, st, io') | Inr st \<Rightarrow> poll_next_frame rd limit now st io')"
    proof (cases ?res)
      case (Inl x)
      then show ?thesis using out c by (cases x) (auto intro!: dec_step_doneI)
    next
      case (Inr st)
      then have "reads_on limit ?st (pfx @ bs) st"
        using out header_read_Inr [OF Inr] by (auto simp: reads_on_def stage_header split: option.split)
      from dec_step_moreI [where rd = rd and now = now and io = io and taken = taken and C = C and pfx = pfx and bs = bs, OF c this] show ?thesis using Inr by simp
    qed
    then show ?thesis using False by (auto simp: Let_def)
  qed
qed

context byte_source
begin

lemma rd_cases:
  assumes "taken io = C @ pfx"
  obtains (pending) io' where "rd io n = (Pending, io')" "taken io' = C @ pfx @ []"
  | (failed) io' e where "rd io n = (Ready (Err e), io')" "taken io' = C @ pfx @ []"
  | (bytes) io' bs where "rd io n = (Ready (Ok bs), io')" "taken io' = C @ pfx @ bs" "length bs \<le> n"
proof -
  obtain p io' where rd: "rd io n = (p, io')" by fastforce
  show thesis
  proof (cases p)
    case Pending
    then show thesis using pending waits rd assms by simp
  next
    case (Ready x)
    then show thesis using failed bytes breaks reads read_no_panic [of io n] rd assms by (cases x) auto
  qed
qed

lemma header_round:
  assumes rep: "dec_rep limit (ReadingHeader filled need flags buffer) pfx" and c: "taken io = C @ pfx"
  shows "dec_step limit (ReadingHeader filled need flags buffer) pfx rd now io taken C
    (poll_next_frame rd limit now (ReadingHeader filled need flags buffer) io)"
  using c
proof (cases rule: rd_cases [where n = "need - filled"])
  case (pending io')
  then show ?thesis using rep
    by (subst poll_next_frame.simps) (auto simp: dec_outcome_def intro!: dec_step_doneI [where bs = "[]"])
next
  case (failed io' e)
  then show ?thesis using rep
    by (subst poll_next_frame.simps) (auto simp: dec_outcome_def intro!: dec_step_doneI [where bs = "[]"])
next
  case (bytes io' bs)
  let ?st = "ReadingHeader filled need flags buffer"
  show ?thesis
  proof (cases "bs = []")
    case True
    have "length pfx = filled" using rep by (cases flags) auto
    then show ?thesis using bytes True rep
      by (subst poll_next_frame.simps) (auto simp: dec_outcome_def intro!: dec_step_doneI [where bs = "[]"])
  next
    case bs: False
    show ?thesis
    proof (cases "filled + length bs < need")
      case True
      from dec_step_moreI [where rd = rd and now = now and io = io and taken = taken and C = C and pfx = pfx and bs = bs, OF bytes(2) header_continues [OF rep bs bytes(3) True]]
      show ?thesis using bytes True bs by (subst poll_next_frame.simps) (simp add: Let_def)
    next
      case full: False
      show ?thesis
      proof (cases "flags_read flags (put_at buffer filled bs)")
        case (Err e)
        then show ?thesis using bytes full bs header_refused(1) [OF rep bs bytes(3) full Err]
          by (subst poll_next_frame.simps) (auto simp: dec_outcome_def Let_def intro!: dec_step_doneI [where bs = bs])
      next
        case Panic
        then show ?thesis using header_refused(2) [OF rep bs bytes(3) full] by simp
      next
        case (Ok x)
        obtain f fresh where x: "x = (f, fresh)" by fastforce
        from header_read_step [where rd = rd and now = now and io = io and taken = taken and C = C, OF rep bs bytes(3) full Ok [unfolded x] bytes(2)]
        show ?thesis using bytes full bs Ok x by (subst poll_next_frame.simps) (simp add: Let_def)
      qed
    qed
  qed
qed

lemma data_round:
  assumes rep: "dec_rep limit (ReadingData h header_at cap got) pfx" and c: "taken io = C @ pfx"
  shows "dec_step limit (ReadingData h header_at cap got) pfx rd now io taken C
    (poll_next_frame rd limit now (ReadingData h header_at cap got) io)"
  using c
proof (cases rule: rd_cases [where n = "cap - length got"])
  case (pending io')
  then show ?thesis using rep
    by (subst poll_next_frame.simps) (auto simp: dec_outcome_def intro!: dec_step_doneI [where bs = "[]"])
next
  case (failed io' e)
  then show ?thesis using rep
    by (subst poll_next_frame.simps) (auto simp: dec_outcome_def intro!: dec_step_doneI [where bs = "[]"])
next
  case (bytes io' bs)
  consider "bs = []" | "bs \<noteq> []" "length (got @ bs) = cap" | "bs \<noteq> []" "length (got @ bs) < cap"
    using bytes(3) rep by fastforce
  then show ?thesis
  proof cases
    case 1
    then show ?thesis using bytes rep
      by (subst poll_next_frame.simps) (auto simp: dec_outcome_def intro!: dec_step_doneI [where bs = "[]"])
  next
    case 2
    then have "frame_valid limit \<lparr>if_header = h, if_data = got @ bs, if_header_at = header_at\<rparr>"
      using rep by (simp add: frame_valid_def)
    then show ?thesis using bytes 2 rep
      by (subst poll_next_frame.simps)
        (auto simp: dec_outcome_def frame_bytes_def intro!: dec_step_doneI [where bs = bs])
  next
    case 3
    then have "reads_on limit (ReadingData h header_at cap got) (pfx @ bs) (ReadingData h header_at cap (got @ bs))"
      using rep by (auto simp: reads_on_def neq_Nil_conv)
    from dec_step_moreI [where rd = rd and now = now and io = io and taken = taken and C = C and pfx = pfx and bs = bs, OF bytes(2) this]
    show ?thesis using bytes 3 by (subst poll_next_frame.simps) simp
  qed
qed

lemma next_frame:
  assumes "dec_rep limit st pfx" "taken io = C @ pfx" "poll_next_frame rd limit now st io = (r, st', io')"
  shows "\<exists>bs. taken io' = C @ pfx @ bs \<and> dec_outcome limit (pfx @ bs) r st'"
  using assms
proof (induction st arbitrary: pfx io rule: wf_induct [OF wf_measures [of "[stage, missing]"]])
  case (1 st)
  have step: "dec_step limit st pfx rd now io taken C (poll_next_frame rd limit now st io)"
    using header_round [OF _ 1(3)] data_round [OF _ 1(3)] 1(2) by (cases st) auto
  then consider bs where "taken io' = C @ pfx @ bs" "dec_outcome limit (pfx @ bs) r st'"
    | st1 io1 bs where "poll_next_frame rd limit now st1 io1 = (r, st', io')" "taken io1 = C @ pfx @ bs"
        "reads_on limit st (pfx @ bs) st1"
    unfolding dec_step_def 1(4) by auto
  then show ?case
  proof cases
    case 1
    then show ?thesis by blast
  next
    case 2
    then have "(st1, st) \<in> measures [stage, missing]" "dec_rep limit st1 (pfx @ bs)" "taken io1 = C @ pfx @ bs"
      by (simp_all add: reads_on_def)
    then obtain bs' where "taken io' = C @ (pfx @ bs) @ bs'" "dec_outcome limit ((pfx @ bs) @ bs') r st'"
      using "1.IH" [rule_format, of st1 "pfx @ bs" io1] 2(1) by auto
    then show ?thesis by (intro exI [of _ "bs @ bs'"]) simp
  qed
qed

end

subsection \<open>The decoder inverts the encoder\<close>

lemma prefix_take_eq: "prefix xs ys \<Longrightarrow> prefix zs ys \<Longrightarrow> length xs = length zs \<Longrightarrow> xs = zs"
  by (metis append_eq_append_conv prefix_def)

lemma prefix_take: "prefix xs ys \<Longrightarrow> n \<le> length xs \<Longrightarrow> take n xs = take n ys"
  by (auto simp: prefix_def)

lemma header_bytes_flags: "take 2 (header_bytes h) = u16_to_be_bytes (header_flags h)"
  by (simp add: header_bytes_def)

lemma header_bytes_inject:
  assumes "header_legal h" "header_typed h" "header_legal h'" "header_typed h'"
    and "prefix (header_bytes h) ys" "prefix (header_bytes h') ys"
  shows "h = h'"
proof -
  have len: "2 \<le> length (header_bytes h)" "2 \<le> length (header_bytes h')"
    by (simp_all add: header_bytes_def)
  have "u16_to_be_bytes (header_flags h) = u16_to_be_bytes (header_flags h')"
    using prefix_take [OF assms(5) len(1)] prefix_take [OF assms(6) len(2)] by (simp add: header_bytes_flags)
  then have flags: "header_flags h = header_flags h'" by (metis u16_be_roundtrip)
  then have "header_bytes h = header_bytes h'"
    using prefix_take_eq [OF assms(5,6)] length_item_header assms(1,3) by simp
  with flags have "(Ok h :: (_, decode_error) rres) = Ok h'"
    using header_decode_header_bytes [OF assms(2,1)] header_decode_header_bytes [OF assms(4,3)] by metis
  then show ?thesis by simp
qed

text \<open>What comes out of the decoder, as bytes on the wire.\<close>

fun df_valid :: "u16 \<Rightarrow> decoded_frame \<Rightarrow> bool" where
  "df_valid limit (Frame f) = frame_valid limit f"
| "df_valid limit Terminate = True"

fun df_bytes :: "decoded_frame \<Rightarrow> u8 list" where
  "df_bytes (Frame f) = frame_bytes f"
| "df_bytes Terminate = term_bytes"

fun df_header :: "decoded_frame \<Rightarrow> header" where
  "df_header (Frame f) = if_header f"
| "df_header Terminate = frame_header frame_terminate"

text \<open>A frame without the time at which its header was complete.\<close>

fun untimed :: "decoded_frame \<Rightarrow> decoded_frame" where
  "untimed (Frame f) = Frame (f\<lparr>if_header_at := 0\<rparr>)"
| "untimed Terminate = Terminate"

lemma terminate_ok: "frame_ok frame_terminate"
  by (simp add: frame_ok_def frame_terminate_def frame_is_empty_def frame_data_len_def)

lemma df_header_valid:
  assumes "df_valid limit d"
  shows "header_legal (df_header d)" "header_typed (df_header d)" "payload_len (df_header d) \<le> unat limit"
    "length (df_bytes d) = length (header_bytes (df_header d)) + payload_len (df_header d)"
    "prefix (header_bytes (df_header d)) (df_bytes d)" "h_term (df_header d) \<longleftrightarrow> d = Terminate"
  using assms frame_header_legal [OF terminate_ok] frame_header_typed [of frame_terminate]
  by (cases d; auto simp: frame_valid_def frame_bytes_def term_bytes_def payload_len_def frame_header_def frame_terminate_def)+

lemma df_bytes_untimed: "df_bytes (untimed d) = df_bytes d"
  by (cases d) (simp_all add: frame_bytes_def)

lemma df_bytes_inject:
  assumes "df_valid limit d" "df_valid limit d'" "prefix (df_bytes d) ys" "prefix (df_bytes d') ys"
  shows "untimed d = untimed d'" "df_bytes d = df_bytes d'"
proof -
  note v = df_header_valid [OF assms(1)] and v' = df_header_valid [OF assms(2)]
  have h: "df_header d = df_header d'"
    using header_bytes_inject [OF v(1,2) v'(1,2)] prefix_order.trans [OF v(5) assms(3)] prefix_order.trans [OF v'(5) assms(4)]
    by simp
  then show bytes: "df_bytes d = df_bytes d'" using prefix_take_eq [OF assms(3,4)] v(4) v'(4) by simp
  then show "untimed d = untimed d'"
    using h v(6) v'(6) by (cases d; cases d') (auto simp: frame_bytes_def)
qed

lemma not_refused:
  assumes h: "header_legal h" "header_typed h" "payload_len h \<le> unat limit"
    and pre: "prefix used ys" "prefix (header_bytes h) ys"
  shows "\<not> refused limit used e"
proof
  have two: "take 2 ys = u16_to_be_bytes (header_flags h)"
    using pre(2) by (auto simp: header_bytes_def prefix_def)
  assume "refused limit used e"
  then consider "length used = 2" "flags_validate (u16_from_be_bytes used) = Err e"
    | g where "flags_validate g = Ok g" "take 2 used = u16_to_be_bytes g" "length used = header_len g" "header_decode g used = Err e"
    | h' where "header_legal h'" "header_typed h'" "used = header_bytes h'" "unat limit < payload_len h'"
    unfolding refused_def by blast
  then show False
  proof cases
    case 1
    then have "used = u16_to_be_bytes (header_flags h)" using prefix_take [OF pre(1), of 2] two by simp
    then show False using 1(2) h(1) by (simp add: header_legal_def)
  next
    case 2
    have "2 \<le> length used" using 2(3) by (simp add: header_len_def FLAGS_LEN_def)
    then have "u16_to_be_bytes g = u16_to_be_bytes (header_flags h)" using prefix_take [OF pre(1), of 2] two 2(2) by simp
    then have "g = header_flags h" by (metis u16_be_roundtrip)
    moreover from this have "used = header_bytes h"
      using prefix_take_eq [OF pre] 2(3) length_item_header [OF h(1)] by simp
    ultimately show False using header_decode_header_bytes [OF h(2,1)] 2(4) by simp
  next
    case 3
    then have "h' = h" using header_bytes_inject [OF 3(1,2) h(1,2)] pre by simp
    then show False using 3(4) h(3) by simp
  qed
qed

text \<open>An incomplete frame does not contain a complete one.\<close>

lemma dec_rep_incomplete:
  assumes rep: "dec_rep limit st used" and d: "df_valid limit d"
  shows "\<not> prefix (df_bytes d) used"
proof
  assume pre: "prefix (df_bytes d) used"
  note v = df_header_valid [OF d]
  have hp: "prefix (header_bytes (df_header d)) used" using v(5) pre by (rule prefix_order.trans)
  have len: "header_len (header_flags (df_header d)) \<le> length used"
    using prefix_length_le [OF hp] length_item_header [OF v(1)] by simp
  have two: "take 2 used = u16_to_be_bytes (header_flags (df_header d))"
    using hp by (auto simp: header_bytes_def prefix_def)
  show False
  proof (cases st)
    case (ReadingHeader filled need flags buffer)
    show False
    proof (cases flags)
      case None
      then show False using rep ReadingHeader len by (simp add: header_len_def FLAGS_LEN_def)
    next
      case (Some f)
      then have "u16_to_be_bytes f = u16_to_be_bytes (header_flags (df_header d))" using rep ReadingHeader two by simp
      then have "f = header_flags (df_header d)" by (metis u16_be_roundtrip)
      then show False using Some rep ReadingHeader len by simp
    qed
  next
    case (ReadingData h at cap got)
    then have "prefix (header_bytes h) used" "header_legal h" "header_typed h" using rep by simp_all
    then have "h = df_header d" using header_bytes_inject [OF _ _ v(1,2) _ hp] by blast
    then show False using rep ReadingData prefix_length_le [OF pre] v(4) by simp
  qed
qed

lemma outcome_on_frame:
  assumes d: "df_valid limit d" and out: "dec_outcome limit used r st" and pre: "prefix used ys" "prefix (df_bytes d) ys"
  obtains "r = Pending" "dec_rep limit st used" | "r = Ready None" "dec_rep limit st used"
  | e where "r = Ready (Some (Err (Io e)))" "dec_rep limit st used"
  | d' where "r = Ready (Some (Ok d'))" "untimed d' = untimed d" "used = df_bytes d" "st = decoder_default"
proof -
  have ref: "\<not> refused limit used e" for e
    using df_header_valid [OF d] pre by (intro not_refused [of "df_header d" limit used ys e]) (auto intro: prefix_order.trans)
  have fin: "untimed d' = untimed d" "used = df_bytes d" if "df_valid limit d'" "used = df_bytes d'" for d'
    using df_bytes_inject [OF that(1) d _ pre(2)] pre(1) that(2) by simp_all
  consider "r = Pending" "dec_rep limit st used" | "r = Ready None" "dec_rep limit st used"
    | e where "r = Ready (Some (Err (Io e)))" "dec_rep limit st used"
    | d' where "r = Ready (Some (Ok d'))" "df_valid limit d'" "used = df_bytes d'" "st = decoder_default"
    using out ref
    by (auto simp: dec_outcome_def split: poll.splits option.splits rres.splits decoded_frame.splits error_kind.splits)
  then show thesis using fin that by cases blast+
qed

text \<open>
  A poll waits, ends or fails for the transport only when the last read of the transport did. The
  read that blocked is the last one, so the transport holds the waker of the task.
\<close>

definition blocked_by :: "'io rd \<Rightarrow> decode_output \<Rightarrow> decoder_state \<Rightarrow> 'io \<Rightarrow> bool" where
  "blocked_by rd r st io \<longleftrightarrow> (case r of
      Pending \<Rightarrow> \<exists>io1. rd io1 (missing st) = (Pending, io)
    | Ready None \<Rightarrow> \<exists>io1. rd io1 (missing st) = (Ready (Ok []), io)
    | Ready (Some (Err (Io e))) \<Rightarrow> \<exists>io1. rd io1 (missing st) = (Ready (Err e), io)
        \<or> e = UnexpectedEof \<and> rd io1 (missing st) = (Ready (Ok []), io)
    | _ \<Rightarrow> True)"

lemma header_read_blocked: "header_read limit now f need buffer st = Inl (r, st') \<Longrightarrow> blocked_by rd r st'' io"
  by (auto simp: header_read_def blocked_by_def split: rres.splits if_splits option.splits)

lemma poll_blocked:
  "poll_next_frame rd limit now st io = (r, st', io') \<Longrightarrow> blocked_by rd r st' io'"
proof (induction rd limit now st io rule: poll_next_frame.induct)
  case (1 rd limit now filled need flags buffer io)
  obtain p io1 where call: "rd io (need - filled) = (p, io1)" by fastforce
  show ?case
  proof (cases "\<exists>bs. p = Ready (Ok bs) \<and> bs \<noteq> [] \<and> length bs \<le> need - filled")
    case False
    then show ?thesis using 1(4) call
      by (subst (asm) poll_next_frame.simps)
        (auto simp: blocked_by_def split: poll.splits rres.splits if_splits intro!: exI [of _ io])
  next
    case True
    then obtain bs where bs: "p = Ready (Ok bs)" "bs \<noteq> []" "\<not> need - filled < length bs" by auto
    let ?b = "put_at buffer filled bs" and ?n = "filled + length bs"
    note IH = 1(1-3) [OF call [symmetric] bs(1) refl bs(3,2) refl refl]
    note run = 1(4) [unfolded poll_next_frame.simps(1) [of rd limit now filled need flags buffer io] call bs(1)]
    show ?thesis
    proof (cases "?n < need")
      case True
      then show ?thesis using run bs IH(1) by (simp add: Let_def)
    next
      case full: False
      show ?thesis
      proof (cases "flags_read flags ?b")
        case (Ok ff)
        obtain f fresh where f: "ff = (f, fresh)" by fastforce
        let ?need = "if fresh then header_len f else need"
        note IH' = IH(2,3) [OF full Ok f [symmetric] refl]
        show ?thesis
        proof (cases "fresh \<and> ?n < ?need")
          case True
          then show ?thesis using run bs full Ok f IH'(1) by (auto simp: Let_def)
        next
          case whole: False
          show ?thesis
          proof (cases "header_read limit now f ?need ?b (ReadingHeader ?n ?need (Some f) ?b)")
            case (Inl out)
            then show ?thesis using run bs full Ok f whole header_read_blocked [of limit now f ?need ?b _ _ _ rd]
              by (cases out) (auto simp: Let_def)
          next
            case (Inr st1)
            then show ?thesis using run bs full Ok f whole IH'(2) [OF whole Inr] by (auto simp: Let_def)
          qed
        qed
      qed (use run bs full in \<open>auto simp: Let_def blocked_by_def\<close>)
    qed
  qed
next
  case (2 rd limit now h header_at cap got io)
  obtain p io1 where call: "rd io (cap - length got) = (p, io1)" by fastforce
  show ?case
  proof (cases "\<exists>bs. p = Ready (Ok bs) \<and> bs \<noteq> [] \<and> length bs \<le> cap - length got \<and> length (got @ bs) \<noteq> cap")
    case False
    then show ?thesis using 2(2) call
      by (subst (asm) poll_next_frame.simps)
        (auto simp: blocked_by_def split: poll.splits rres.splits if_splits intro!: exI [of _ io])
  next
    case True
    then obtain bs where bs: "p = Ready (Ok bs)" "bs \<noteq> []" "\<not> cap - length got < length bs" "length (got @ bs) \<noteq> cap" by auto
    show ?thesis using 2(2) call bs 2(1) [OF call [symmetric] bs(1) refl bs(3,2,4)]
      by (subst (asm) poll_next_frame.simps) auto
  qed
qed

subsection \<open>Whole streams of frames\<close>

text \<open>The codec is polled again and again, at the given times.\<close>

fun decode_polls :: "'io rd \<Rightarrow> u16 \<Rightarrow> instant list \<Rightarrow> decoder_state \<Rightarrow> 'io \<Rightarrow> decode_output list \<times> decoder_state \<times> 'io" where
  "decode_polls rd limit [] st io = ([], st, io)"
| "decode_polls rd limit (now # nows) st io =
     (let (r, st, io) = poll_next_frame rd limit now st io; (rs, st, io) = decode_polls rd limit nows st io
      in (r # rs, st, io))"

fun yielded :: "decode_output list \<Rightarrow> decoded_frame list" where
  "yielded [] = []"
| "yielded (Ready (Some (Ok d)) # rs) = d # yielded rs"
| "yielded (_ # rs) = yielded rs"

text \<open>The only results besides frames are those of the transport.\<close>

fun transport_result :: "decode_output \<Rightarrow> bool" where
  "transport_result (Ready (Some (Err (Io _)))) = True"
| "transport_result (Ready (Some (Ok _))) = True"
| "transport_result (Ready (Some _)) = False"
| "transport_result _ = True"

lemma dec_rep_missing: "dec_rep limit st used \<Longrightarrow> 0 < missing st"
  by (cases "(limit, st, used)" rule: dec_rep.cases) auto

lemma df_bytes_pos: "0 < length (df_bytes d)"
  by (cases d) (simp_all add: frame_bytes_def term_bytes_def header_bytes_def)

text \<open>A poll changes the transport only by reads.\<close>

definition rd_step :: "'io rd \<Rightarrow> 'io \<Rightarrow> 'io \<Rightarrow> bool" where
  "rd_step rd io io' \<longleftrightarrow> (\<exists>n. snd (rd io n) = io')"

lemma poll_steps:
  "poll_next_frame rd limit now st io = (r, st', io') \<Longrightarrow> (rd_step rd)\<^sup>*\<^sup>* io io'"
proof (induction rd limit now st io rule: poll_next_frame.induct)
  case (1 rd limit now filled need flags buffer io)
  obtain p io1 where call: "rd io (need - filled) = (p, io1)" by fastforce
  then have step: "rd_step rd io io1" by (auto simp: rd_step_def intro: exI [of _ "need - filled"])
  have "(rd_step rd)\<^sup>*\<^sup>* io1 io' \<or> io' = io1"
    using 1(4) call 1(1-3) [OF call [symmetric]]
    by (subst (asm) poll_next_frame.simps) (auto simp: Let_def split: poll.splits rres.splits if_splits prod.splits sum.splits)
  then show ?case using step by (auto intro: converse_rtranclp_into_rtranclp)
next
  case (2 rd limit now h header_at cap got io)
  obtain p io1 where call: "rd io (cap - length got) = (p, io1)" by fastforce
  then have step: "rd_step rd io io1" by (auto simp: rd_step_def intro: exI [of _ "cap - length got"])
  have "(rd_step rd)\<^sup>*\<^sup>* io1 io' \<or> io' = io1"
    using 2(2) call 2(1) [OF call [symmetric]]
    by (subst (asm) poll_next_frame.simps) (auto split: poll.splits rres.splits if_splits)
  then show ?case using step by (auto intro: converse_rtranclp_into_rtranclp)
qed

lemma polls_steps:
  "decode_polls rd limit nows st io = (rs, st', io') \<Longrightarrow> (rd_step rd)\<^sup>*\<^sup>* io io'"
proof (induction nows arbitrary: st io rs)
  case (Cons now nows)
  obtain r st1 io1 where one: "poll_next_frame rd limit now st io = (r, st1, io1)" by (metis prod_cases3)
  then show ?case using Cons poll_steps [OF one] by (fastforce split: prod.splits intro: rtranclp_trans)
qed simp

context byte_source
begin

lemma step_taken: "rd_step rd io io' \<Longrightarrow> prefix (taken io) (taken io')"
proof -
  assume "rd_step rd io io'"
  then obtain n p where "rd io n = (p, io')" unfolding rd_step_def by (metis prod.collapse)
  then show ?thesis using reads waits breaks read_no_panic [of io n] by (cases p) (auto, metis rres.exhaust prefix_def prefix_order.refl)
qed

lemma steps_taken: "(rd_step rd)\<^sup>*\<^sup>* io io' \<Longrightarrow> prefix (taken io) (taken io')"
  by (induction rule: rtranclp_induct) (auto dest: step_taken intro: prefix_order.trans)

lemma decode_stream:
  assumes "dec_rep limit st pfx" "taken io = C @ pfx" "decode_polls rd limit nows st io = (rs, st', io')"
    and "prefix (taken io') (C @ concat (map df_bytes ds))" "\<forall>d \<in> set ds. df_valid limit d"
  shows "\<exists>k used. map untimed (yielded rs) = map untimed (take k ds) \<and> k \<le> length ds
    \<and> taken io' = C @ concat (map df_bytes (take k ds)) @ used \<and> dec_rep limit st' used
    \<and> (\<forall>r \<in> set rs. transport_result r)"
  using assms
proof (induction nows arbitrary: st io rs C pfx ds)
  case Nil
  then show ?case by (intro exI [of _ 0] exI [of _ pfx]) simp
next
  case (Cons now nows)
  obtain r st1 io1 where one: "poll_next_frame rd limit now st io = (r, st1, io1)" by (metis prod_cases3)
  obtain rs' where rest: "decode_polls rd limit nows st1 io1 = (rs', st', io')" "rs = r # rs'"
    using Cons.prems(3) one by (auto split: prod.splits)
  obtain bs where bs: "taken io1 = C @ pfx @ bs" "dec_outcome limit (pfx @ bs) r st1"
    using next_frame [OF Cons.prems(1,2) one] by blast
  have "prefix (C @ pfx @ bs) (C @ concat (map df_bytes ds))"
    using steps_taken [OF polls_steps [OF rest(1)]] Cons.prems(4) bs(1) by (metis prefix_order.trans)
  then have pre: "prefix (pfx @ bs) (concat (map df_bytes ds))" by simp
  have wait: ?case if "dec_rep limit st1 (pfx @ bs)" "transport_result r" "yielded rs = yielded rs'"
    using Cons.IH [OF that(1) bs(1) rest(1) Cons.prems(4,5)] that rest(2) by auto
  show ?case
  proof (cases ds)
    case Nil
    then have nil: "pfx @ bs = []" using pre by simp
    have "df_valid limit Terminate" "prefix (pfx @ bs) (df_bytes Terminate)" "prefix (df_bytes Terminate) (df_bytes Terminate)"
      using nil by simp_all
    from outcome_on_frame [OF this(1) bs(2) this(2,3)] show ?thesis
    proof cases
      case (4 d')
      then show ?thesis using nil df_bytes_pos [of Terminate] by simp
    qed (rule wait; use rest(2) in simp)+
  next
    case ds: (Cons d ds')
    then have d: "df_valid limit d" "prefix (df_bytes d) (concat (map df_bytes ds))" using Cons.prems(5) by simp_all
    from outcome_on_frame [OF d(1) bs(2) pre d(2)] show ?thesis
    proof cases
      case (4 d')
      have C: "taken io1 = (C @ df_bytes d) @ []" using bs(1) 4(3) by simp
      have pre': "prefix (taken io') ((C @ df_bytes d) @ concat (map df_bytes ds'))" using Cons.prems(4) ds by simp
      have ok: "\<forall>d \<in> set ds'. df_valid limit d" using Cons.prems(5) ds by simp
      from Cons.IH [OF dec_rep_default [of limit, folded 4(4)] C rest(1) pre' ok] obtain k used where
        k: "map untimed (yielded rs') = map untimed (take k ds')" "k \<le> length ds'"
          "taken io' = (C @ df_bytes d) @ concat (map df_bytes (take k ds')) @ used" "dec_rep limit st' used"
          "\<forall>r \<in> set rs'. transport_result r" by blast
      then show ?thesis using 4 ds rest(2) by (intro exI [of _ "Suc k"] exI [of _ used]) simp
    qed (rule wait; use rest(2) in simp)+
  qed
qed

end

text \<open>
  A transport on which the bytes \<open>ahead\<close> have arrived: reading takes from these.
\<close>

locale buffered_source = byte_source +
  fixes ahead :: "'a \<Rightarrow> u8 list"
  assumes conserved: "rd io n = (p, io') \<Longrightarrow> taken io' @ ahead io' = taken io @ ahead io"
begin

lemma steps_conserved: "(rd_step rd)\<^sup>*\<^sup>* io io' \<Longrightarrow> taken io' @ ahead io' = taken io @ ahead io"
proof (induction rule: rtranclp_induct)
  case (step io1 io2)
  then obtain n p where "rd io1 n = (p, io2)" unfolding rd_step_def by (metis prod.collapse)
  then show ?case using conserved step by metis
qed simp

lemma steps_from_ahead: "(rd_step rd)\<^sup>*\<^sup>* io io' \<Longrightarrow> prefix (taken io') (taken io @ ahead io)"
  using steps_conserved by (metis prefixI)

end

text \<open>
  When bytes have arrived, reading hands over at least one of them.
\<close>

locale ready_source = buffered_source +
  assumes ready: "ahead io \<noteq> [] \<Longrightarrow> 0 < n \<Longrightarrow> \<exists>bs io'. rd io n = (Ready (Ok bs), io') \<and> bs \<noteq> []"
begin

lemma blocked_empty:
  assumes "blocked_by rd r st io" "dec_rep limit st used" "r \<in> {Pending, Ready None} \<or> (\<exists>e. r = Ready (Some (Err (Io e))))"
  shows "ahead io = []"
proof -
  obtain io1 p where call: "rd io1 (missing st) = (p, io)" "p \<in> {Pending, Ready (Ok [])} \<or> (\<exists>e. p = Ready (Err e))"
    using assms(1,3) by (auto simp: blocked_by_def)
  have "ahead io1 = []" using ready [of io1 "missing st"] dec_rep_missing [OF assms(2)] call by (cases "ahead io1") auto
  moreover have "taken io = taken io1" using call waits breaks reads by auto
  ultimately show ?thesis using conserved [OF call(1)] by simp
qed

lemma ready_next:
  assumes "taken io = C @ pfx" "dec_rep limit st pfx" "pfx @ ahead io = df_bytes d @ rest" "df_valid limit d"
    and "poll_next_frame rd limit now st io = (r, st', io')"
  shows "\<exists>d'. r = Ready (Some (Ok d')) \<and> untimed d' = untimed d \<and> st' = decoder_default
    \<and> taken io' = C @ df_bytes d \<and> ahead io' = rest"
proof -
  have cons: "taken io' @ ahead io' = C @ df_bytes d @ rest"
    using steps_conserved [OF poll_steps [OF assms(5)]] assms(1,3) by simp
  obtain used where used: "taken io' = C @ used" "dec_outcome limit used r st'"
    using next_frame [OF assms(2,1,5)] by auto
  have split: "df_bytes d @ rest = used @ ahead io'" using cons used(1) by simp
  from outcome_on_frame [OF assms(4) used(2) prefixI [OF split]] have
    "(\<exists>d'. r = Ready (Some (Ok d')) \<and> untimed d' = untimed d \<and> used = df_bytes d \<and> st' = decoder_default)
     \<or> dec_rep limit st' used \<and> (r \<in> {Pending, Ready None} \<or> (\<exists>e. r = Ready (Some (Err (Io e)))))" by auto
  then show ?thesis
  proof
    assume "dec_rep limit st' used \<and> (r \<in> {Pending, Ready None} \<or> (\<exists>e. r = Ready (Some (Err (Io e)))))"
    moreover from this have "ahead io' = []" using blocked_empty [OF poll_blocked [OF assms(5)]] by blast
    then have "used = df_bytes d @ rest" using cons used(1) by simp
    ultimately show ?thesis using dec_rep_incomplete [OF _ assms(4), of st' used] by simp
  qed (use used(1) cons in auto)
qed

lemma ready_frame:
  assumes "taken io = C" "ahead io = df_bytes d @ rest" "df_valid limit d"
    and "poll_next_frame rd limit now decoder_default io = (r, st', io')"
  shows "\<exists>d'. r = Ready (Some (Ok d')) \<and> untimed d' = untimed d \<and> st' = decoder_default
    \<and> taken io' = C @ df_bytes d \<and> ahead io' = rest"
  using ready_next [OF _ dec_rep_default _ assms(3,4)] assms(1,2) by simp

end

text \<open>
  The in-memory pipe of the unit tests (\<^verbatim>\<open>tokio::io::duplex\<close>, which hands over at most the size of its
  buffer at a time): reads wait while it is empty and end once it is closed.
\<close>

record pipe =
  pp_ahead :: "u8 list"
  pp_taken :: "u8 list"
  pp_closed :: bool
  pp_size :: nat

definition pipe_read :: "pipe rd" where
  "pipe_read p n =
     (let bs = take (min n (Suc (pp_size p))) (pp_ahead p)
      in if n > 0 \<and> pp_ahead p = [] \<and> \<not> pp_closed p then (Pending, p)
         else (Ready (Ok bs), p\<lparr>pp_ahead := drop (length bs) (pp_ahead p), pp_taken := pp_taken p @ bs\<rparr>))"

interpretation pipe: ready_source pipe_read pp_taken pp_ahead
  by unfold_locales (auto simp: pipe_read_def Let_def min_def split: if_splits)

subsection \<open>The properties\<close>

text \<open>The frame that the peer decodes when \<open>f\<close> was written with the timestamp \<open>t\<close>.\<close>

definition arrives_as :: "u32 \<times> out_frame \<Rightarrow> decoded_frame" where
  "arrives_as = (\<lambda>(t, f). if of_term f then Terminate
     else Frame \<lparr>if_header = with_ping t (frame_header f), if_data = frame_payload f, if_header_at = 0\<rparr>)"

definition encoding :: "u32 \<times> out_frame \<Rightarrow> u8 list" where
  "encoding = (\<lambda>(t, f). header_bytes (with_ping t (frame_header f)) @ frame_payload f)"

lemma non_zero_len:
  assumes "n \<le> 65535"
  shows "(case non_zero (word_of_nat n :: u16) of None \<Rightarrow> 0 | Some len \<Rightarrow> unat len) = n"
proof -
  have "unat (word_of_nat n :: u16) = n" using assms by (simp add: unat_of_nat)
  then show ?thesis by (auto simp: non_zero_def word_unat_eq_iff)
qed

lemma payload_len_frame:
  "frame_ok f \<Longrightarrow> payload_len (with_ping t (frame_header f)) = length (frame_payload f)"
  using non_zero_len [of "length (frame_payload f)"]
  by (cases "of_stream f")
    (simp_all add: payload_len_def frame_payload_def stream_header_of_def frame_ok_def frame_data_len_def,
      simp_all add: frame_header_def stream_header_of_def)

lemma arrives_as_valid:
  assumes "frame_ok f" "frame_data_len f \<le> unat limit"
  shows "df_valid limit (arrives_as (t, f))" "df_bytes (arrives_as (t, f)) = encoding (t, f)"
    "untimed (arrives_as (t, f)) = arrives_as (t, f)"
proof -
  have len: "frame_data_len f = length (frame_payload f)" by (simp add: frame_data_len_def frame_payload_def split: option.split)
  have ends: "f = frame_terminate" if "of_term f" using that assms(1) by (simp add: frame_ok_def frame_terminate_def)
  have hterm: "h_term (with_ping t (frame_header f)) = of_term f" by (simp add: with_ping_def frame_header_def)
  have "with_ping t (frame_header frame_terminate) = frame_header frame_terminate" "frame_payload frame_terminate = []"
    by (simp_all add: with_ping_def frame_header_def frame_terminate_def frame_payload_def)
  then show "df_valid limit (arrives_as (t, f))" "df_bytes (arrives_as (t, f)) = encoding (t, f)"
    "untimed (arrives_as (t, f)) = arrives_as (t, f)"
    using assms payload_len_frame [OF assms(1), of t] frame_header_legal [OF assms(1)] frame_header_typed [of f] len ends hterm
    by (cases "of_term f"; simp add: arrives_as_def encoding_def frame_valid_def frame_bytes_def term_bytes_def)+
qed

text \<open>
  C6. The decoder inverts the encoder, however the transport splits the bytes. When the bytes that
  come over a transport are the encodings of frames, a new codec that is polled any number of times
  yields exactly these frames, in order, each with the timestamp that the writer stamped: the results
  are a prefix of the frames that were written, nothing but the transport ends or fails the
  decoding, and once all bytes were taken all frames have come out. No byte behind the last frame
  is taken.
\<close>

theorem decoder_inverts_encoder:
  assumes "byte_source rd taken" and "\<forall>(t, f) \<in> set tfs. frame_ok f \<and> frame_data_len f \<le> unat limit"
    and "decode_polls rd limit nows decoder_default io = (rs, st', io')"
    and "prefix (taken io') (taken io @ concat (map encoding tfs))"
  shows "\<exists>k. map untimed (yielded rs) = map arrives_as (take k tfs) \<and> (\<forall>r \<in> set rs. transport_result r)
    \<and> prefix (taken io @ concat (map encoding (take k tfs))) (taken io')
    \<and> (taken io' = taken io @ concat (map encoding tfs) \<longrightarrow> map untimed (yielded rs) = map arrives_as tfs)"
proof -
  let ?ds = "map arrives_as tfs"
  have valid: "\<forall>d \<in> set ?ds. df_valid limit d" using assms(2) arrives_as_valid(1) by fastforce
  have bytes: "map df_bytes (map arrives_as (take k tfs)) = map encoding (take k tfs)" for k
    using assms(2) arrives_as_valid(2) by (fastforce dest: in_set_takeD)
  have unt: "map untimed (map arrives_as (take k tfs)) = map arrives_as (take k tfs)" for k
    using assms(2) arrives_as_valid(3) by (fastforce dest: in_set_takeD)
  have pre: "prefix (taken io') (taken io @ concat (map df_bytes ?ds))"
    using assms(4) bytes [of "length tfs"] by (simp only: take_all order_refl)
  obtain k used where k: "map untimed (yielded rs) = map untimed (take k ?ds)" "k \<le> length ?ds"
    "taken io' = taken io @ concat (map df_bytes (take k ?ds)) @ used" "dec_rep limit st' used" "\<forall>r \<in> set rs. transport_result r"
    using byte_source.decode_stream [OF assms(1) dec_rep_default _ assms(3) pre valid] by auto
  have k': "map untimed (yielded rs) = map arrives_as (take k tfs)" using k(1) unt [of k] by (simp add: take_map)
  have "k = length tfs" if all: "taken io' = taken io @ concat (map encoding tfs)"
  proof (rule ccontr)
    assume "k \<noteq> length tfs"
    then have less: "k < length ?ds" using k(2) by simp
    have ds: "?ds = take k ?ds @ ?ds ! k # drop (Suc k) ?ds" using less by (rule id_take_nth_drop)
    have "taken io' = taken io @ concat (map df_bytes ?ds)"
      using all bytes [of "length tfs"] by (simp only: take_all order_refl)
    also have "concat (map df_bytes ?ds)
        = concat (map df_bytes (take k ?ds)) @ df_bytes (?ds ! k) @ concat (map df_bytes (drop (Suc k) ?ds))"
      by (subst ds) (simp only: map_append concat_append list.map concat.simps)
    finally have "used = df_bytes (?ds ! k) @ concat (map df_bytes (drop (Suc k) ?ds))"
      using k(3) by (simp only: append_assoc same_append_eq)
    then have "prefix (df_bytes (?ds ! k)) used" by simp
    then show False using dec_rep_incomplete [OF k(4)] valid less by (meson nth_mem)
  qed
  moreover have "prefix (taken io @ concat (map encoding (take k tfs))) (taken io')"
    unfolding k(3) take_map bytes by simp
  ultimately show ?thesis using k' k(5) by (intro exI [of _ k]) auto
qed

theorem decoder_inverts_encoder_witness:
  "let io = \<lparr>pp_ahead = concat (map encoding [(7, frame_terminate)]), pp_taken = [], pp_closed = False, pp_size = 0\<rparr>;
       (rs, st, io') = decode_polls pipe_read 11 [0, 0] decoder_default io
   in map untimed (yielded rs) = [Terminate] \<and> rs = [Ready (Some (Ok Terminate)), Pending]"
proof -
  let ?io = "\<lparr>pp_ahead = concat (map encoding [(7, frame_terminate)]), pp_taken = [], pp_closed = False, pp_size = 0\<rparr>"
  have run: "decode_polls pipe_read 11 [0, 0] decoder_default ?io
    = ([Ready (Some (Ok Terminate)), Pending], decoder_default, ?io\<lparr>pp_ahead := [], pp_taken := [0, 128]\<rparr>)"
    by code_simp
  have enc: "encoding (7, frame_terminate) = [0, 128]" by code_simp
  have "arrives_as (7, frame_terminate) = Terminate" by (simp add: arrives_as_def frame_terminate_def)
  then show ?thesis
    using decoder_inverts_encoder [OF pipe.byte_source_axioms _ run, of "[(7, frame_terminate)]"] terminate_ok run enc
    by (simp add: frame_terminate_def frame_data_len_def)
qed

text \<open>
  A frame whose bytes are all there is decoded by a single poll: no wake-up of the transport is
  needed, nothing behind the frame is taken, and the decoder is ready for the next frame.
\<close>

theorem ready_frame_is_decoded:
  assumes "ready_source rd taken ahead" and "frame_ok f" "frame_data_len f \<le> unat limit"
    and "ahead io = encoding (t, f) @ rest"
  shows "\<exists>d io'. poll_next_frame rd limit now decoder_default io = (Ready (Some (Ok d)), decoder_default, io')
    \<and> untimed d = arrives_as (t, f) \<and> taken io' = taken io @ encoding (t, f) \<and> ahead io' = rest"
proof -
  obtain r st' io' where "poll_next_frame rd limit now decoder_default io = (r, st', io')" by (metis prod_cases3)
  then show ?thesis
    using ready_source.ready_frame [OF assms(1) refl _ arrives_as_valid(1) [OF assms(2,3), of t], of io rest now r st' io']
      arrives_as_valid(2,3) [OF assms(2,3)] assms(4) by auto
qed

theorem ready_frame_is_decoded_witness:
  "let io = \<lparr>pp_ahead = encoding (7, frame_terminate) @ [1, 2], pp_taken = [], pp_closed = False, pp_size = 0\<rparr>
   in \<exists>d io'. poll_next_frame pipe_read 11 0 decoder_default io = (Ready (Some (Ok d)), decoder_default, io')
    \<and> untimed d = Terminate \<and> pp_ahead io' = [1, 2]"
  using ready_frame_is_decoded [OF pipe.ready_source_axioms terminate_ok, of 11
      "\<lparr>pp_ahead = encoding (7, frame_terminate) @ [1, 2], pp_taken = [], pp_closed = False, pp_size = 0\<rparr>" 7 "[1, 2]" 0]
  by (auto simp: frame_terminate_def frame_data_len_def arrives_as_def)

text \<open>
  C31. Whatever bytes a peer sends, a poll of the decoder ends without a panic, and its result follows
  from the bytes alone: a frame comes out exactly with its encoding, which is legal and within the
  frame limit; an error of the protocol is due to the flags, the header or the length of the payload;
  the stream ends between two frames only; otherwise the poll was stopped by the transport, which was
  the last one to be asked, and the state stands for the bytes of the incomplete frame.
\<close>

theorem decoder_outcome:
  assumes "byte_source rd taken" and "dec_rep limit st pfx" "taken io = C @ pfx"
    and "poll_next_frame rd limit now st io = (r, st', io')"
  shows "\<exists>bs. taken io' = C @ pfx @ bs \<and> dec_outcome limit (pfx @ bs) r st' \<and> r \<noteq> Ready (Some Panic)
    \<and> blocked_by rd r st' io'"
proof -
  obtain bs where bs: "taken io' = C @ pfx @ bs" "dec_outcome limit (pfx @ bs) r st'"
    using byte_source.next_frame [OF assms] by blast
  then show ?thesis using poll_blocked [OF assms(4)] by (intro exI [of _ bs]) (auto simp: dec_outcome_def)
qed

theorem decoder_outcome_witness:
  "let io = \<lparr>pp_ahead = [1, 16, 0, 1, 0, 1, 97], pp_taken = [], pp_closed = True, pp_size = 0\<rparr>;
       (r, st, io') = poll_next_frame pipe_read 11 0 decoder_default io
   in \<exists>e. r = Ready (Some (Err (Decode e))) \<and> refused 11 [1, 16] e"
proof -
  let ?io = "\<lparr>pp_ahead = [1, 16, 0, 1, 0, 1, 97], pp_taken = [], pp_closed = True, pp_size = 0\<rparr>"
  obtain r st io' where run: "poll_next_frame pipe_read 11 0 decoder_default ?io = (r, st, io')" by (metis prod_cases3)
  have res: "pp_taken (snd (snd (poll_next_frame pipe_read 11 0 decoder_default ?io))) = [1, 16]"
    "case fst (poll_next_frame pipe_read 11 0 decoder_default ?io) of Ready (Some (Err (Decode e))) \<Rightarrow> True | _ \<Rightarrow> False"
    by code_simp+
  from decoder_outcome [OF pipe.byte_source_axioms dec_rep_default, of ?io "[]", OF _ run]
  have "dec_outcome 11 [1, 16] r st" using res(1) run by simp
  then show ?thesis using res(2) run
    by (auto simp: dec_outcome_def split: poll.splits option.splits rres.splits error_kind.splits)
qed

end
