(* ===== verification/Codec.thy ===== *)
theory Codec
  imports Decoder
begin

text \<open>
  The frame codec on a transport (\<^verbatim>\<open>RammuxCodec\<close> of \<^verbatim>\<open>src/wire/codec.rs\<close>): its state, the \<^verbatim>\<open>Stream\<close> of
  decoded frames with the timeout of inbound frames, and the \<^verbatim>\<open>Sink\<close> of frames to write. The operations
  of the transport are the record \<open>transport\<close>; what the code relies on is the interface
  \<open>byte_transport\<close>, which joins the interfaces of the two halves. The runtime is the range of its
  clock and its timers; a poll reads the clock once.
\<close>

section \<open>Definitions\<close>

record 'io transport =
  t_read :: "'io rd"
  t_write :: "'io wr"
  t_flush :: "'io io_op"
  t_shutdown :: "'io io_op"

record runtime =
  rt_fires :: timer
  rt_limit :: instant

record 'io codec =
  cd_io :: 'io
  cd_pending :: "encoder_item option"
  cd_decoder :: decoder_state
  cd_frame_limit :: u16
  cd_clock :: clock
  cd_sleep_at :: instant
  cd_timeout :: duration

definition codec_new :: "runtime \<Rightarrow> instant \<Rightarrow> 'io \<Rightarrow> u16 \<Rightarrow> duration \<Rightarrow> ('io codec, 'e) rres" where
  "codec_new rt now io limit timeout =
     r_bind (deadline (rt_limit rt) now timeout) (\<lambda>at.
       Ok \<lparr>cd_io = io, cd_pending = None, cd_decoder = decoder_default, cd_frame_limit = limit,
           cd_clock = clock_new now, cd_sleep_at = at, cd_timeout = timeout\<rparr>)"

definition into_inner :: "'io codec \<Rightarrow> 'io" where
  "into_inner c = cd_io c"

definition codec_poll_next :: "runtime \<Rightarrow> 'io transport \<Rightarrow> instant \<Rightarrow> 'io codec \<Rightarrow> decode_output \<times> 'io codec" where
  "codec_poll_next rt tr now c =
     (let (r, st, io) = poll_next_frame (t_read tr) (cd_frame_limit c) now (cd_decoder c) (cd_io c);
          c = c\<lparr>cd_decoder := st, cd_io := io\<rparr>
      in case r of
           Pending \<Rightarrow>
             if rt_fires rt (cd_sleep_at c) now then (Ready (Some (Err (Io TimedOut))), c) else (Pending, c)
         | Ready result \<Rightarrow>
             (case deadline (rt_limit rt) now (cd_timeout c) of
                Ok at \<Rightarrow> (Ready result, c\<lparr>cd_sleep_at := at\<rparr>)
              | Err e \<Rightarrow> (Ready (Some (Err e)), c)
              | Panic \<Rightarrow> (Ready (Some Panic), c)))"

definition codec_poll_ready :: "'io transport \<Rightarrow> instant \<Rightarrow> 'io codec \<Rightarrow> (unit, error_kind) rres poll \<times> 'io codec" where
  "codec_poll_ready tr now c =
     (let (r, pending, io) = poll_write_pending (t_write tr) (clock_micros (cd_clock c) now) (cd_pending c) (cd_io c)
      in (r, c\<lparr>cd_pending := pending, cd_io := io\<rparr>))"

definition codec_start_send :: "'io codec \<Rightarrow> out_frame \<Rightarrow> ('io codec, error_kind) rres" where
  "codec_start_send c f = r_bind (sink_start (cd_pending c) f) (\<lambda>pending. Ok (c\<lparr>cd_pending := pending\<rparr>))"

definition codec_poll_flush :: "'io transport \<Rightarrow> instant \<Rightarrow> 'io codec \<Rightarrow> (unit, error_kind) rres poll \<times> 'io codec" where
  "codec_poll_flush tr now c =
     (let (r, pending, io) = sink_finish (t_write tr) (t_flush tr) (clock_micros (cd_clock c) now) (cd_pending c) (cd_io c)
      in (r, c\<lparr>cd_pending := pending, cd_io := io\<rparr>))"

definition codec_poll_close :: "'io transport \<Rightarrow> instant \<Rightarrow> 'io codec \<Rightarrow> (unit, error_kind) rres poll \<times> 'io codec" where
  "codec_poll_close tr now c =
     (let (r, pending, io) = sink_finish (t_write tr) (t_shutdown tr) (clock_micros (cd_clock c) now) (cd_pending c) (cd_io c)
      in (r, c\<lparr>cd_pending := pending, cd_io := io\<rparr>))"

section \<open>Specification\<close>

text \<open>
  A transport reads and writes bytes; reading does not write and writing does not read. A flush and
  a shutdown do neither.
\<close>

locale byte_transport = byte_source rd taken + byte_sink wr written
  for rd :: "'io rd" and taken :: "'io \<Rightarrow> u8 list" and wr :: "'io wr" and written :: "'io \<Rightarrow> u8 list" +
  fixes flush shutdown :: "'io io_op"
  assumes rd_written: "rd io n = (p, io') \<Longrightarrow> written io' = written io"
    and wr_taken: "wr io bufs = (q, io') \<Longrightarrow> taken io' = taken io"
    and flush_ok: "flush io = (f, io') \<Longrightarrow> taken io' = taken io \<and> written io' = written io \<and> f \<noteq> Ready Panic"
    and shutdown_ok: "shutdown io = (f, io') \<Longrightarrow> taken io' = taken io \<and> written io' = written io \<and> f \<noteq> Ready Panic"

definition transport_ok :: "'io transport \<Rightarrow> ('io \<Rightarrow> u8 list) \<Rightarrow> ('io \<Rightarrow> u8 list) \<Rightarrow> bool" where
  "transport_ok tr taken written \<longleftrightarrow> byte_transport (t_read tr) taken (t_write tr) written (t_flush tr) (t_shutdown tr)"

text \<open>
  The codec after the bytes \<open>C\<close> were decoded and the bytes \<open>W\<close> of frames were handed over.
\<close>

definition codec_ok :: "'io codec \<Rightarrow> bool" where
  [inv_defs]: "codec_ok c \<longleftrightarrow> (\<exists>used. dec_rep (cd_frame_limit c) (cd_decoder c) used)
     \<and> (\<forall>it. cd_pending c = Some it \<longrightarrow> item_ok it)"

section \<open>Lemmas\<close>

lemma codec_new_ok:
  assumes "now + never \<le> rt_limit rt"
  shows "\<exists>c. codec_new rt now io limit timeout = Ok c \<and> codec_ok c \<and> cd_io c = io \<and> cd_pending c = None
    \<and> cd_decoder c = decoder_default \<and> cd_frame_limit c = limit \<and> cd_timeout c = timeout
    \<and> cd_sleep_at c = now + min timeout never"
  using assms dec_rep_default by (auto simp: codec_new_def deadline_eq codec_ok_def)

text \<open>Writing changes the transport only by writes.\<close>

definition wr_step :: "'io wr \<Rightarrow> 'io \<Rightarrow> 'io \<Rightarrow> bool" where
  "wr_step wr io io' \<longleftrightarrow> (\<exists>bufs. snd (wr io bufs) = io')"

lemma write_steps:
  "poll_write_pending wr t pending io = (r, pending', io') \<Longrightarrow> (wr_step wr)\<^sup>*\<^sup>* io io'"
proof (induction wr t pending io rule: poll_write_pending.induct)
  case (1 wr t pending io)
  show ?case
  proof (cases "\<exists>it it'. pending = Some it \<and> remaining it \<noteq> 0 \<and> restamp it t = Ok it'")
    case False
    then show ?thesis using 1(2) by (subst (asm) poll_write_pending.simps) (auto split: option.splits if_splits rres.splits)
  next
    case True
    then obtain it it' where it: "pending = Some it" "remaining it \<noteq> 0" "restamp it t = Ok it'" by blast
    obtain p io1 where call: "wr io (slices it') = (p, io1)" by fastforce
    then have step: "wr_step wr io io1" by (auto simp: wr_step_def intro: exI [of _ "slices it'"])
    have "(wr_step wr)\<^sup>*\<^sup>* io1 io' \<or> io' = io1"
      using 1(2) call it 1(1) [OF it call [symmetric]]
      by (subst (asm) poll_write_pending.simps) (auto split: poll.splits rres.splits if_splits)
    then show ?thesis using step by (auto intro: converse_rtranclp_into_rtranclp)
  qed
qed

context byte_transport
begin

lemma reads_keep_written: "(rd_step rd)\<^sup>*\<^sup>* io io' \<Longrightarrow> written io' = written io"
proof (induction rule: rtranclp_induct)
  case (step io1 io2)
  then show ?case using rd_written unfolding rd_step_def by (metis prod.collapse)
qed simp

lemma writes_keep_taken: "(wr_step wr)\<^sup>*\<^sup>* io io' \<Longrightarrow> taken io' = taken io"
proof (induction rule: rtranclp_induct)
  case (step io1 io2)
  then show ?case using wr_taken unfolding wr_step_def by (metis prod.collapse)
qed simp

lemma writes_extend: "(wr_step wr)\<^sup>*\<^sup>* io io' \<Longrightarrow> prefix (written io) (written io')"
proof (induction rule: rtranclp_induct)
  case (step io1 io2)
  then obtain bufs where "snd (wr io1 bufs) = io2" unfolding wr_step_def by blast
  moreover have "fst (wr io1 bufs) \<noteq> Ready Panic" by (rule no_panic)
  ultimately have "prefix (written io1) (written io2)"
    using accepts [of io1 bufs _ io2] refuses [of io1 bufs io2] fails [of io1 bufs _ io2]
    by (cases "wr io1 bufs"; cases "fst (wr io1 bufs)"; cases "case fst (wr io1 bufs) of Ready x \<Rightarrow> x | _ \<Rightarrow> Panic") auto
  then show ?case using step.IH prefix_order.trans by blast
qed simp

lemma written_out:
  assumes "poll_write_pending wr t pending io = (r, pending', io')" "\<forall>it. pending = Some it \<longrightarrow> item_ok it"
  shows "written io' @ owed pending' = written io @ owed_at t pending" "taken io' = taken io"
    "r \<noteq> Ready Panic" "\<forall>it. pending' = Some it \<longrightarrow> item_ok it" "r = Ready (Ok ()) \<longleftrightarrow> pending' = None"
    "\<forall>e. r = Ready (Err e) \<longrightarrow> (\<exists>ioe. e = Io ioe)" "prefix (written io) (written io')"
  using write_pending [OF refl assms(2), of io t] writes_keep_taken [OF write_steps [OF assms(1)]]
    writes_extend [OF write_steps [OF assms(1)]] assms(1)
  by (simp_all add: write_result_def)

lemma finished:
  assumes "sink_finish wr io_op t pending io = (r, pending', io')" "\<forall>it. pending = Some it \<longrightarrow> item_ok it"
    and "\<And>io f io'. io_op io = (f, io') \<Longrightarrow> taken io' = taken io \<and> written io' = written io \<and> f \<noteq> Ready Panic"
  shows "written io' @ owed pending' = written io @ owed_at t pending" "taken io' = taken io"
    "r \<noteq> Ready Panic" "\<forall>it. pending' = Some it \<longrightarrow> item_ok it" "r = Ready (Ok ()) \<Longrightarrow> pending' = None"
    "\<forall>e. r = Ready (Err e) \<longrightarrow> (\<exists>ioe. e = Io ioe)" "prefix (written io) (written io')"
proof -
  obtain r1 p1 io1 where w: "poll_write_pending wr t pending io = (r1, p1, io1)" by (metis prod_cases3)
  note o = written_out [OF w assms(2)]
  obtain f io2 where f: "io_op io1 = (f, io2)" by fastforce
  note keep = assms(3) [OF f]
  have cases: "(r1 \<noteq> Ready (Ok ()) \<and> r = r1 \<and> pending' = p1 \<and> io' = io1)
    \<or> (r1 = Ready (Ok ()) \<and> pending' = p1 \<and> io' = io2 \<and> r = (case f of Pending \<Rightarrow> Pending | Ready res \<Rightarrow> Ready (map_err Io res)))"
    using assms(1) w f by (auto simp: sink_finish_def split: poll.splits rres.splits)
  show "written io' @ owed pending' = written io @ owed_at t pending" "taken io' = taken io"
    "\<forall>it. pending' = Some it \<longrightarrow> item_ok it" "r = Ready (Ok ()) \<Longrightarrow> pending' = None" "prefix (written io) (written io')"
    using cases o keep by auto
  have f': "map_err Io res \<noteq> Panic" "map_err Io res = Err e \<Longrightarrow> \<exists>ioe. e = Io ioe" if "f = Ready res" for res e
    using keep that by (cases res; auto)+
  show "r \<noteq> Ready Panic" "\<forall>e. r = Ready (Err e) \<longrightarrow> (\<exists>ioe. e = Io ioe)"
    using cases o(3,6) f' by (auto split: poll.splits)
qed

end

text \<open>What every operation of the writing side keeps of the codec.\<close>

definition reader_same :: "'io codec \<Rightarrow> 'io codec \<Rightarrow> bool" where
  "reader_same c c' \<longleftrightarrow> cd_decoder c' = cd_decoder c \<and> cd_frame_limit c' = cd_frame_limit c \<and> cd_clock c' = cd_clock c
     \<and> cd_sleep_at c' = cd_sleep_at c \<and> cd_timeout c' = cd_timeout c"

lemma reader_same_trans: "reader_same c c' \<Longrightarrow> reader_same c' c'' \<Longrightarrow> reader_same c c''"
  by (simp add: reader_same_def)

definition handed_over :: "('io \<Rightarrow> u8 list) \<Rightarrow> u32 \<Rightarrow> 'io codec \<Rightarrow> u8 list" where
  "handed_over written t c = written (cd_io c) @ owed_at t (cd_pending c)"

lemma codec_writes:
  assumes tr: "transport_ok tr taken written" and ok: "codec_ok c"
    and op: "codec_poll_ready tr now c = (r, c') \<or> codec_poll_flush tr now c = (r, c') \<or> codec_poll_close tr now c = (r, c')"
  shows "codec_ok c'" "reader_same c c'" "taken (cd_io c') = taken (cd_io c)" "r \<noteq> Ready Panic"
    "written (cd_io c') @ owed (cd_pending c') = handed_over written (clock_micros (cd_clock c) now) c"
    "r = Ready (Ok ()) \<Longrightarrow> cd_pending c' = None" "\<And>e. r = Ready (Err e) \<Longrightarrow> \<exists>ioe. e = Io ioe"
    "prefix (written (cd_io c)) (written (cd_io c'))"
proof -
  let ?t = "clock_micros (cd_clock c) now"
  note bt = tr [unfolded transport_ok_def]
  have it: "\<forall>it. cd_pending c = Some it \<longrightarrow> item_ok it" using ok by (simp add: codec_ok_def)
  have "\<exists>pending io. c' = c\<lparr>cd_pending := pending, cd_io := io\<rparr> \<and> (poll_write_pending (t_write tr) ?t (cd_pending c) (cd_io c) = (r, pending, io)
     \<or> sink_finish (t_write tr) (t_flush tr) ?t (cd_pending c) (cd_io c) = (r, pending, io)
     \<or> sink_finish (t_write tr) (t_shutdown tr) ?t (cd_pending c) (cd_io c) = (r, pending, io))"
    using op by (auto simp: codec_poll_ready_def codec_poll_flush_def codec_poll_close_def split: prod.splits)
  then obtain pending io where c': "c' = c\<lparr>cd_pending := pending, cd_io := io\<rparr>"
    and run: "poll_write_pending (t_write tr) ?t (cd_pending c) (cd_io c) = (r, pending, io)
     \<or> sink_finish (t_write tr) (t_flush tr) ?t (cd_pending c) (cd_io c) = (r, pending, io)
     \<or> sink_finish (t_write tr) (t_shutdown tr) ?t (cd_pending c) (cd_io c) = (r, pending, io)" by blast
  have all: "written io @ owed pending = written (cd_io c) @ owed_at ?t (cd_pending c) \<and> taken io = taken (cd_io c)
     \<and> r \<noteq> Ready Panic \<and> (\<forall>it. pending = Some it \<longrightarrow> item_ok it) \<and> (r = Ready (Ok ()) \<longrightarrow> pending = None)
     \<and> (\<forall>e. r = Ready (Err e) \<longrightarrow> (\<exists>ioe. e = Io ioe)) \<and> prefix (written (cd_io c)) (written io)"
    using run
  proof (elim disjE)
    assume "poll_write_pending (t_write tr) ?t (cd_pending c) (cd_io c) = (r, pending, io)"
    from byte_transport.written_out [OF bt this it] show ?thesis by simp
  next
    assume "sink_finish (t_write tr) (t_flush tr) ?t (cd_pending c) (cd_io c) = (r, pending, io)"
    from byte_transport.finished [OF bt this it byte_transport.flush_ok [OF bt]] show ?thesis by simp
  next
    assume "sink_finish (t_write tr) (t_shutdown tr) ?t (cd_pending c) (cd_io c) = (r, pending, io)"
    from byte_transport.finished [OF bt this it byte_transport.shutdown_ok [OF bt]] show ?thesis by simp
  qed
  show "codec_ok c'" "reader_same c c'" "taken (cd_io c') = taken (cd_io c)" "r \<noteq> Ready Panic"
    "written (cd_io c') @ owed (cd_pending c') = handed_over written ?t c"
    "r = Ready (Ok ()) \<Longrightarrow> cd_pending c' = None" "\<And>e. r = Ready (Err e) \<Longrightarrow> \<exists>ioe. e = Io ioe"
    "prefix (written (cd_io c)) (written (cd_io c'))"
    using all ok by (simp_all add: c' codec_ok_def reader_same_def handed_over_def)
qed

text \<open>What a poll for the next frame does to the codec, the timeout included.\<close>

definition writer_same :: "'io codec \<Rightarrow> 'io codec \<Rightarrow> bool" where
  "writer_same c c' \<longleftrightarrow> cd_pending c' = cd_pending c \<and> cd_frame_limit c' = cd_frame_limit c \<and> cd_clock c' = cd_clock c
     \<and> cd_timeout c' = cd_timeout c"

lemma codec_reads:
  assumes tr: "transport_ok tr taken written" and rep: "dec_rep (cd_frame_limit c) (cd_decoder c) pfx" "taken (cd_io c) = C @ pfx"
    and lim: "now + never \<le> rt_limit rt" and op: "codec_poll_next rt tr now c = (r, c')"
  shows "\<exists>bs. taken (cd_io c') = C @ pfx @ bs \<and> writer_same c c' \<and> written (cd_io c') = written (cd_io c) \<and> r \<noteq> Ready (Some Panic)
    \<and> (dec_outcome (cd_frame_limit c) (pfx @ bs) r (cd_decoder c')
        \<and> cd_sleep_at c' = (if r = Pending then cd_sleep_at c else now + min (cd_timeout c) never)
        \<and> (r = Pending \<longrightarrow> \<not> rt_fires rt (cd_sleep_at c) now)
      \<or> r = Ready (Some (Err (Io TimedOut))) \<and> rt_fires rt (cd_sleep_at c) now \<and> cd_sleep_at c' = cd_sleep_at c
        \<and> dec_rep (cd_frame_limit c) (cd_decoder c') (pfx @ bs))"
proof -
  note bt = tr [unfolded transport_ok_def]
  obtain r1 st io where poll: "poll_next_frame (t_read tr) (cd_frame_limit c) now (cd_decoder c) (cd_io c) = (r1, st, io)"
    by (metis prod_cases3)
  obtain bs where bs: "taken io = C @ pfx @ bs" "dec_outcome (cd_frame_limit c) (pfx @ bs) r1 st"
    using byte_source.next_frame [OF byte_transport.axioms(1) [OF bt] rep poll] by blast
  have w: "written io = written (cd_io c)" using byte_transport.reads_keep_written [OF bt poll_steps [OF poll]] .
  have "r1 \<noteq> Ready (Some Panic)" using bs(2) by (auto simp: dec_outcome_def)
  moreover have "dec_outcome (cd_frame_limit c) (pfx @ bs) Pending st \<longleftrightarrow> dec_rep (cd_frame_limit c) st (pfx @ bs)"
    by (simp add: dec_outcome_def)
  ultimately show ?thesis using op poll bs w lim
    by (intro exI [of _ bs])
      (cases r1, auto simp: codec_poll_next_def Let_def writer_same_def deadline_eq split: if_splits)
qed

lemma codec_start_send_ok:
  assumes "frame_ok f" "cd_pending c = None"
  obtains it where "codec_start_send c f = Ok (c\<lparr>cd_pending := Some it\<rparr>)" "item_ok it" "\<not> is_started it"
    "ei_header it = frame_header f" "ei_payload it = frame_payload f"
proof -
  from assms(1) obtain it where it: "encoder_new f = Ok it" "item_ok it" "ei_consumed it = 0"
    "ei_header it = frame_header f" "ei_payload it = frame_payload f"
    by (rule encoder_new_ok)
  have "codec_start_send c f = Ok (c\<lparr>cd_pending := Some it\<rparr>)"
    using assms it(1) by (simp add: codec_start_send_def sink_start_def frame_ok_def)
  then show thesis using it by (intro that [of it]) (simp_all add: is_started_def)
qed

subsection \<open>A transport in memory\<close>

text \<open>
  Two in-memory pipes, one for each direction, as the tests of the codec and of the connection use
  them.
\<close>

record duplex_io =
  dx_in :: pipe
  dx_out :: mock_io

definition duplex_transport :: "duplex_io transport" where
  "duplex_transport = \<lparr>
     t_read = (\<lambda>d n. map_prod id (\<lambda>p. d\<lparr>dx_in := p\<rparr>) (pipe_read (dx_in d) n)),
     t_write = (\<lambda>d bufs. map_prod id (\<lambda>m. d\<lparr>dx_out := m\<rparr>) (mock_write_vectored (dx_out d) bufs)),
     t_flush = (\<lambda>d. (Ready (Ok ()), d)),
     t_shutdown = (\<lambda>d. (Ready (Ok ()), d))\<rparr>"

abbreviation dx_taken :: "duplex_io \<Rightarrow> u8 list" where
  "dx_taken d \<equiv> pp_taken (dx_in d)"

abbreviation dx_written :: "duplex_io \<Rightarrow> u8 list" where
  "dx_written d \<equiv> concat (mock_writes (dx_out d))"

interpretation duplex_io: byte_transport "t_read duplex_transport" dx_taken "t_write duplex_transport" dx_written
  "t_flush duplex_transport" "t_shutdown duplex_transport"
proof unfold_locales
  fix io bufs n io'
  assume "t_write duplex_transport io bufs = (Ready (Ok n), io')"
  then show "n \<le> length (concat bufs) \<and> dx_written io' = dx_written io @ take n (concat bufs)"
    using mock.accepts [of "dx_out io" bufs n "dx_out io'"]
    by (auto simp: duplex_transport_def map_prod_def split: prod.splits)
qed (auto simp: duplex_transport_def pipe_read_def mock_write_vectored_def mock_write_def Let_def split: if_splits)

lemma duplex_transport_ok: "transport_ok duplex_transport dx_taken dx_written"
  unfolding transport_ok_def by (rule duplex_io.byte_transport_axioms)

subsection \<open>The properties\<close>

text \<open>
  C32. The timeout of inbound frames. After a poll that yielded something at the time \<open>t0\<close>, a poll at a
  later time fails with a timeout exactly when the transport has no complete frame and the timer of
  \<open>t0\<close> plus the configured timeout (at most 30 years) has elapsed. So the timeout is never early,
  and a frame that is there is never lost to it: it is decoded even when the timer has elapsed. Polls
  without a result do not move the timer, so a peer that sends a frame slowly does not escape it.
\<close>

theorem inbound_frame_timeout:
  assumes "timer_ok (rt_fires rt)"
    and "t0 + never \<le> rt_limit rt" and "now + never \<le> rt_limit rt"
    and "codec_poll_next rt tr t0 c = (Ready (Some (Ok d)), c0)"
    and "codec_poll_next rt tr now c0 = (r, c1)"
  shows "(case poll_next_frame (t_read tr) (cd_frame_limit c) now (cd_decoder c0) (cd_io c0) of (r', _, _) \<Rightarrow>
        r = (if r' \<noteq> Pending then r' else if rt_fires rt (t0 + min (cd_timeout c) never) now
             then Ready (Some (Err (Io TimedOut))) else Pending)
        \<and> cd_sleep_at c1 = (if r' = Pending then t0 else now) + min (cd_timeout c) never
        \<and> (r' = Pending \<and> r \<noteq> Pending \<longrightarrow> t0 + min (cd_timeout c) never \<le> now))"
proof -
  obtain r1 st io where poll: "poll_next_frame (t_read tr) (cd_frame_limit c) t0 (cd_decoder c) (cd_io c) = (r1, st, io)"
    by (metis prod_cases3)
  have c0: "cd_sleep_at c0 = t0 + min (cd_timeout c) never" "cd_timeout c0 = cd_timeout c" "cd_frame_limit c0 = cd_frame_limit c"
    using assms(2,4) poll by (cases r1; auto simp: codec_poll_next_def deadline_eq Let_def split: if_splits)+
  have early: "rt_fires rt (t0 + min (cd_timeout c) never) now \<Longrightarrow> t0 + min (cd_timeout c) never \<le> now"
    using assms(1) by (simp add: timer_ok_def)
  obtain r2 st2 io2 where poll2: "poll_next_frame (t_read tr) (cd_frame_limit c) now (cd_decoder c0) (cd_io c0) = (r2, st2, io2)"
    by (metis prod_cases3)
  show ?thesis using assms(3,5) c0 early
    by (cases r2) (auto simp: codec_poll_next_def deadline_eq Let_def poll2 split: if_splits)
qed

definition demo_io :: duplex_io where
  "demo_io = \<lparr>dx_in = \<lparr>pp_ahead = [0, 32, 0, 0, 0, 9, 0], pp_taken = [], pp_closed = False, pp_size = 3\<rparr>,
     dx_out = \<lparr>mock_writes = [], vectored = True, refuse = False, max_accept = 100\<rparr>\<rparr>"

definition demo_rt :: runtime where
  "demo_rt = \<lparr>rt_fires = (\<lambda>d now. d \<le> now), rt_limit = 9 + never\<rparr>"

definition demo_codec :: "duplex_io codec" where
  "demo_codec = \<lparr>cd_io = demo_io, cd_pending = None, cd_decoder = decoder_default, cd_frame_limit = 11,
     cd_clock = clock_new 0, cd_sleep_at = 7, cd_timeout = 7\<rparr>"

lemma demo_timer: "timer_ok (rt_fires demo_rt)"
  by (auto simp: demo_rt_def timer_ok_def)

definition demo_ping :: decoded_frame where
  "demo_ping = Frame \<lparr>if_header = \<lparr>h_stream = None, h_ping = Some 9, h_pong = None, h_term = False\<rparr>,
     if_data = [], if_header_at = 1\<rparr>"

lemma demo_poll: "\<exists>c0. codec_poll_next demo_rt duplex_transport 1 demo_codec = (Ready (Some (Ok demo_ping)), c0)
    \<and> cd_timeout c0 = 7 \<and> cd_io c0 = demo_io\<lparr>dx_in := \<lparr>pp_ahead = [0], pp_taken = [0, 32, 0, 0, 0, 9], pp_closed = False, pp_size = 3\<rparr>\<rparr>
    \<and> cd_decoder c0 = decoder_default"
proof -
  have "poll_next_frame (t_read duplex_transport) 11 1 decoder_default demo_io = (Ready (Some (Ok demo_ping)), decoder_default,
    demo_io\<lparr>dx_in := \<lparr>pp_ahead = [0], pp_taken = [0, 32, 0, 0, 0, 9], pp_closed = False, pp_size = 3\<rparr>\<rparr>)"
    by code_simp
  then show ?thesis by (simp add: codec_poll_next_def demo_codec_def demo_rt_def deadline_eq Let_def)
qed

theorem inbound_frame_timeout_witness:
  "\<exists>c0 c1. codec_poll_next demo_rt duplex_transport 1 demo_codec = (Ready (Some (Ok demo_ping)), c0)
    \<and> codec_poll_next demo_rt duplex_transport 9 c0 = (Ready (Some (Err (Io TimedOut))), c1)"
proof -
  obtain c0 where c0: "codec_poll_next demo_rt duplex_transport 1 demo_codec = (Ready (Some (Ok demo_ping)), c0)"
      "cd_io c0 = demo_io\<lparr>dx_in := \<lparr>pp_ahead = [0], pp_taken = [0, 32, 0, 0, 0, 9], pp_closed = False, pp_size = 3\<rparr>\<rparr>"
      "cd_decoder c0 = decoder_default"
    using demo_poll by blast
  obtain r c1 where c1: "codec_poll_next demo_rt duplex_transport 9 c0 = (r, c1)" by fastforce
  have "fst (poll_next_frame (t_read duplex_transport) 11 9 decoder_default
      (demo_io\<lparr>dx_in := \<lparr>pp_ahead = [0], pp_taken = [0, 32, 0, 0, 0, 9], pp_closed = False, pp_size = 3\<rparr>\<rparr>)) = Pending"
    by code_simp
  moreover have "1 + never \<le> rt_limit demo_rt" "9 + never \<le> rt_limit demo_rt" by (simp_all add: demo_rt_def)
  moreover have "rt_fires demo_rt (1 + min 7 never) 9" by (simp add: demo_rt_def min_def)
  ultimately show ?thesis
    using inbound_frame_timeout [OF demo_timer _ _ c0(1) c1] c0 c1
    by (auto simp: demo_codec_def split: prod.splits)
qed

end
