(* ===== verification/Pin_List.thy ===== *)
theory Pin_List
  imports Rammux_Prelude
begin

text \<open>
  The intrusive doubly linked list (\<^verbatim>\<open>src/pin_list.rs\<close>) on an explicit heap. An element is its
  address; the heap holds for every element the fields of its \<^verbatim>\<open>Node\<close> (the ID of the owning list
  and the two links) and the strong count of its \<^verbatim>\<open>Arc\<close>. The atomics are plain fields, since the
  list is only used by the task that polls the connection.

  The locale \<open>turn_queue\<close> states what a client of the list may rely on, in terms of the sequence
  of its elements. \<open>pin_list_rep\<close> relates a list and a heap to that sequence, every operation
  implements its abstract counterpart, and the interpretation \<open>pin\<close> discharges the laws.
\<close>

section \<open>Definitions\<close>

subsection \<open>Elements and lists\<close>

type_synonym addr = nat

record element =
  owner :: nat
  l_prev :: "addr option"
  l_next :: "addr option"
  strong :: nat

type_synonym heap = "addr \<Rightarrow> element"

definition node_new :: "nat \<Rightarrow> element" where
  "node_new refs = \<lparr>owner = 0, l_prev = None, l_next = None, strong = refs\<rparr>"

record pin_list =
  pl_id :: nat
  head :: "addr option"
  tail :: "addr option"
  pl_len :: nat

text \<open>A new list takes the next value of the global counter of list IDs.\<close>

definition pl_new :: "nat \<Rightarrow> pin_list \<times> nat" where
  "pl_new next_id = (\<lparr>pl_id = next_id, head = None, tail = None, pl_len = 0\<rparr>, next_id + 1)"

definition pl_front :: "pin_list \<Rightarrow> addr option" where
  "pl_front l = head l"

definition pl_contains :: "pin_list \<Rightarrow> heap \<Rightarrow> addr \<Rightarrow> bool" where
  "pl_contains l h x \<longleftrightarrow> owner (h x) = pl_id l"

definition pl_push_back :: "pin_list \<Rightarrow> heap \<Rightarrow> addr \<Rightarrow> (pin_list \<times> heap \<times> bool, unit) rres" where
  "pl_push_back l h x =
     (if owner (h x) \<noteq> 0 then
        (if owner (h x) = pl_id l then Ok (l, h, False) else Panic)
      else
        let h = h(x := (h x)\<lparr>owner := pl_id l, strong := strong (h x) + 1\<rparr>);
            h = h(x := (h x)\<lparr>l_prev := tail l, l_next := None\<rparr>);
            (l, h) = (case tail l of
                        Some t \<Rightarrow> (l, h(t := (h t)\<lparr>l_next := Some x\<rparr>))
                      | None \<Rightarrow> (l\<lparr>head := Some x\<rparr>, h))
        in Ok (l\<lparr>tail := Some x, pl_len := pl_len l + 1\<rparr>, h, True))"

definition pl_unlink :: "pin_list \<Rightarrow> heap \<Rightarrow> addr \<Rightarrow> pin_list \<times> heap" where
  "pl_unlink l h x =
     (let p = l_prev (h x); n = l_next (h x);
          h = h(x := (h x)\<lparr>l_prev := None, l_next := None\<rparr>);
          (l, h) = (case p of
                      Some a \<Rightarrow> (l, h(a := (h a)\<lparr>l_next := n\<rparr>))
                    | None \<Rightarrow> (l\<lparr>head := n\<rparr>, h));
          (l, h) = (case n of
                      Some b \<Rightarrow> (l, h(b := (h b)\<lparr>l_prev := p\<rparr>))
                    | None \<Rightarrow> (l\<lparr>tail := p\<rparr>, h))
      in (l\<lparr>pl_len := pl_len l - 1\<rparr>, h(x := (h x)\<lparr>owner := 0\<rparr>)))"

text \<open>Dropping the \<^verbatim>\<open>Arc\<close> that \<^verbatim>\<open>unlink\<close> returns.\<close>

definition drop_arc :: "heap \<Rightarrow> addr \<Rightarrow> heap" where
  "drop_arc h x = h(x := (h x)\<lparr>strong := strong (h x) - 1\<rparr>)"

definition pl_remove :: "pin_list \<Rightarrow> heap \<Rightarrow> addr \<Rightarrow> (pin_list \<times> heap \<times> bool, unit) rres" where
  "pl_remove l h x =
     (if \<not> pl_contains l h x then Ok (l, h, False)
      else case (case l_prev (h x) of Some p \<Rightarrow> l_next (h p) | None \<Rightarrow> head l) of
             None \<Rightarrow> Panic
           | Some ptr \<Rightarrow> let (l, h) = pl_unlink l h ptr in Ok (l, drop_arc h ptr, True))"

definition pl_pop_front :: "pin_list \<Rightarrow> heap \<Rightarrow> pin_list \<times> heap \<times> addr option" where
  "pl_pop_front l h =
     (case head l of
        None \<Rightarrow> (l, h, None)
      | Some x \<Rightarrow> let (l, h) = pl_unlink l h x in (l, h, Some x))"

text \<open>The iterator follows the links; the fuel bounds the number of elements it yields.\<close>

fun pl_iter :: "nat \<Rightarrow> heap \<Rightarrow> addr option \<Rightarrow> addr list option" where
  "pl_iter fuel h None = Some []"
| "pl_iter 0 h (Some x) = None"
| "pl_iter (Suc fuel) h (Some x) = map_option ((#) x) (pl_iter fuel h (l_next (h x)))"

text \<open>Dropping the list pops its elements, and drops their \<^verbatim>\<open>Arc\<close>s.\<close>

fun pl_drop :: "nat \<Rightarrow> pin_list \<Rightarrow> heap \<Rightarrow> (pin_list \<times> heap) option" where
  "pl_drop fuel l h =
     (case pl_pop_front l h of
        (l', h', None) \<Rightarrow> Some (l', h')
      | (l', h', Some x) \<Rightarrow>
          (case fuel of 0 \<Rightarrow> None | Suc n \<Rightarrow> pl_drop n l' (drop_arc h' x)))"

declare pl_drop.simps [simp del]

section \<open>The interface of a turn queue\<close>

locale turn_queue =
  fixes q_inv :: "'q \<Rightarrow> bool"
    and q_list :: "'q \<Rightarrow> 's list"
    and q_front :: "'q \<Rightarrow> 's option"
    and q_contains :: "'q \<Rightarrow> 's \<Rightarrow> bool"
    and q_len :: "'q \<Rightarrow> nat"
    and q_push_back :: "'q \<Rightarrow> 's \<Rightarrow> 'q \<times> bool"
    and q_remove :: "'q \<Rightarrow> 's \<Rightarrow> 'q \<times> bool"
  assumes q_distinct: "q_inv q \<Longrightarrow> distinct (q_list q)"
    and q_front_list: "q_inv q \<Longrightarrow> q_front q = (if q_list q = [] then None else Some (hd (q_list q)))"
    and q_contains_list: "q_inv q \<Longrightarrow> q_contains q x \<longleftrightarrow> x \<in> set (q_list q)"
    and q_len_list: "q_inv q \<Longrightarrow> q_len q = length (q_list q)"
    and q_push_inv: "q_inv q \<Longrightarrow> q_inv (fst (q_push_back q x))"
    and q_push_list: "q_inv q \<Longrightarrow> q_list (fst (q_push_back q x))
           = (if x \<in> set (q_list q) then q_list q else q_list q @ [x])"
    and q_push_result: "q_inv q \<Longrightarrow> snd (q_push_back q x) \<longleftrightarrow> x \<notin> set (q_list q)"
    and q_remove_inv: "q_inv q \<Longrightarrow> q_inv (fst (q_remove q x))"
    and q_remove_list: "q_inv q \<Longrightarrow> q_list (fst (q_remove q x)) = remove1 x (q_list q)"
    and q_remove_result: "q_inv q \<Longrightarrow> snd (q_remove q x) \<longleftrightarrow> x \<in> set (q_list q)"
begin

lemmas queue_laws = q_front_list q_contains_list q_len_list q_push_inv q_push_list q_push_result
  q_remove_inv q_remove_list q_remove_result

text \<open>Others joining or leaving never take the turn away from the element at the front.\<close>

lemma front_keeps_turn:
  assumes "q_inv q" "q_front q = Some x" "y \<noteq> x"
  shows "q_front (fst (q_push_back q y)) = Some x" and "q_front (fst (q_remove q y)) = Some x"
  using assms by (auto simp: queue_laws remove1_append neq_Nil_conv split: if_splits)

text \<open>An element that leaves is gone, and may join again at the back.\<close>

lemma rejoin_at_back:
  assumes "q_inv q" "x \<in> set (q_list q)"
  shows "q_list (fst (q_push_back (fst (q_remove q x)) x)) = remove1 x (q_list q) @ [x]"
  using assms q_distinct [of q] by (simp add: queue_laws)

text \<open>
  A round of turns: when the element at the front takes its turn and rejoins at the back, every
  other element moves one place forward.
\<close>

lemma turn_rotates:
  assumes "q_inv q" "q_front q = Some x"
  shows "q_list (fst (q_push_back (fst (q_remove q x)) x)) = rotate1 (q_list q)"
  using assms q_distinct [of q] by (cases "q_list q") (auto simp: rejoin_at_back queue_laws)

end

section \<open>Lemmas\<close>

subsection \<open>Doubly linked segments\<close>

fun dll :: "heap \<Rightarrow> addr option \<Rightarrow> addr list \<Rightarrow> addr option \<Rightarrow> bool" where
  "dll h p [] n \<longleftrightarrow> True"
| "dll h p (x # xs) n \<longleftrightarrow>
     l_prev (h x) = p \<and> l_next (h x) = (if xs = [] then n else Some (hd xs)) \<and> dll h (Some x) xs n"

definition pin_list_rep :: "pin_list \<Rightarrow> heap \<Rightarrow> addr list \<Rightarrow> bool" where
  "pin_list_rep l h xs \<longleftrightarrow> dll h None xs None \<and> distinct xs
     \<and> head l = (if xs = [] then None else Some (hd xs))
     \<and> tail l = (if xs = [] then None else Some (last xs))
     \<and> pl_len l = length xs \<and> pl_id l \<noteq> 0 \<and> (\<forall>x. owner (h x) = pl_id l \<longleftrightarrow> x \<in> set xs)"

lemma rep_links: "pin_list_rep l h xs \<Longrightarrow> dll h None xs None \<and> distinct xs"
  by (simp add: pin_list_rep_def)

lemma rep_owner: "pin_list_rep l h xs \<Longrightarrow> owner (h x) = pl_id l \<longleftrightarrow> x \<in> set xs"
  by (simp add: pin_list_rep_def)

lemma rep_id: "pin_list_rep l h xs \<Longrightarrow> pl_id l \<noteq> 0"
  by (simp add: pin_list_rep_def)

lemma dll_append:
  "dll h p (xs @ ys) n \<longleftrightarrow>
     dll h p xs (if ys = [] then n else Some (hd ys)) \<and> dll h (if xs = [] then p else Some (last xs)) ys n"
  by (induction xs arbitrary: p) auto

lemma dll_cong:
  "(\<And>x. x \<in> set xs \<Longrightarrow> l_prev (h x) = l_prev (h' x) \<and> l_next (h x) = l_next (h' x)) \<Longrightarrow> dll h p xs n = dll h' p xs n"
  by (induction xs arbitrary: p) auto

lemma dll_set_next:
  assumes "dll h p (xs @ [t]) n" "t \<notin> set xs" "l_next (h' t) = m" "l_prev (h' t) = l_prev (h t)"
    and "\<And>x. x \<in> set xs \<Longrightarrow> l_prev (h' x) = l_prev (h x) \<and> l_next (h' x) = l_next (h x)"
  shows "dll h' p (xs @ [t]) m"
  using assms dll_cong [of xs h' h] by (auto simp: dll_append)

lemma dll_set_prev:
  assumes "dll h p (x # xs) n" "l_prev (h' x) = q" "l_next (h' x) = l_next (h x)"
    and "\<And>y. y \<in> set xs \<Longrightarrow> l_prev (h' y) = l_prev (h y) \<and> l_next (h' y) = l_next (h y)"
  shows "dll h' q (x # xs) n"
  using assms dll_cong [of xs h' h] by auto

lemma pl_push_back_Ok:
  assumes rep: "pin_list_rep l h xs" and free: "owner (h x) = 0"
  obtains l' h' where "pl_push_back l h x = Ok (l', h', True)" "pin_list_rep l' h' (xs @ [x])"
    "pl_id l' = pl_id l" "strong (h' x) = strong (h x) + 1"
    "\<And>y. y \<noteq> x \<Longrightarrow> owner (h' y) = owner (h y) \<and> strong (h' y) = strong (h y)"
    "\<And>y. y \<notin> set xs \<Longrightarrow> y \<noteq> x \<Longrightarrow> h' y = h y"
proof -
  have new: "x \<notin> set xs" using rep free unfolding pin_list_rep_def by metis
  show thesis
  proof (cases xs rule: rev_cases)
    case Nil
    then show thesis using rep free
      by (intro that [of "l\<lparr>head := Some x, tail := Some x, pl_len := 1\<rparr>"
            "h(x := (h x)\<lparr>owner := pl_id l, strong := strong (h x) + 1, l_prev := None, l_next := None\<rparr>)"])
        (auto simp: pl_push_back_def pin_list_rep_def Let_def)
  next
    case (snoc ys t)
    let ?h = "h(x := (h x)\<lparr>owner := pl_id l, strong := strong (h x) + 1, l_prev := Some t, l_next := None\<rparr>,
                t := (h t)\<lparr>l_next := Some x\<rparr>)"
    have t: "t \<notin> set ys" "t \<noteq> x" "x \<notin> set ys" "dll h None (ys @ [t]) None"
      using rep_links [OF rep] new by (simp_all add: snoc)
    have "dll ?h None (ys @ [t]) (Some x)"
      using t(4,1) by (rule dll_set_next) (use t in auto)
    then have "dll ?h None (xs @ [x]) None"
      using snoc new by (auto simp: dll_append)
    moreover have "owner (?h y) = pl_id l \<longleftrightarrow> y \<in> set (xs @ [x])" for y
      using rep_owner [OF rep, of y] snoc by auto
    ultimately have "pin_list_rep (l\<lparr>tail := Some x, pl_len := pl_len l + 1\<rparr>) ?h (xs @ [x])"
      using rep new snoc by (simp add: pin_list_rep_def hd_append)
    moreover have "pl_push_back l h x = Ok (l\<lparr>tail := Some x, pl_len := pl_len l + 1\<rparr>, ?h, True)"
      using rep free snoc t(2) by (simp add: pl_push_back_def pin_list_rep_def Let_def)
    ultimately show thesis
      using t snoc by (intro that [of "l\<lparr>tail := Some x, pl_len := pl_len l + 1\<rparr>" ?h]) simp_all
  qed
qed

lemma pl_unlink_rep:
  assumes rep: "pin_list_rep l h (xs @ x # ys)" and un: "pl_unlink l h x = (l', h')"
  shows "pin_list_rep l' h' (xs @ ys)" and "pl_id l' = pl_id l" and "owner (h' x) = 0"
    and "\<And>y. strong (h' y) = strong (h y)" and "\<And>y. y \<noteq> x \<Longrightarrow> owner (h' y) = owner (h y)"
    and "\<And>y. y \<notin> set (xs @ x # ys) \<Longrightarrow> h' y = h y"
proof -
  have d: "dll h None xs (Some x)" "dll h (Some x) ys None" "distinct (xs @ x # ys)"
      and p: "l_prev (h x) = (if xs = [] then None else Some (last xs))"
      and n: "l_next (h x) = (if ys = [] then None else Some (hd ys))"
    using rep_links [OF rep] by (auto simp: dll_append)
  have disj: "ys \<noteq> [] \<Longrightarrow> hd ys \<notin> set xs" "xs \<noteq> [] \<Longrightarrow> last xs \<notin> set ys"
    using d(3) by (auto dest: hd_in_set last_in_set)
  have l: "l' = l\<lparr>head := (if xs = [] then l_next (h x) else head l),
                  tail := (if ys = [] then l_prev (h x) else tail l), pl_len := pl_len l - 1\<rparr>"
    using un p n by (auto simp: pl_unlink_def Let_def split: option.splits if_splits)
  have next_upd: "l_next (h' y) = (if y = x then None else if xs \<noteq> [] \<and> y = last xs then l_next (h x) else l_next (h y))"
    and prev_upd: "l_prev (h' y) = (if y = x then None else if ys \<noteq> [] \<and> y = hd ys then l_prev (h x) else l_prev (h y))"
    and owner_upd: "owner (h' y) = (if y = x then 0 else owner (h y))"
    and strong_upd: "strong (h' y) = strong (h y)" for y
    using un p n d(3) by (auto simp: pl_unlink_def Let_def split: option.splits if_splits)
  show "pl_id l' = pl_id l" "owner (h' x) = 0" "\<And>y. strong (h' y) = strong (h y)"
    "\<And>y. y \<noteq> x \<Longrightarrow> owner (h' y) = owner (h y)"
    using l owner_upd strong_upd by simp_all
  show "\<And>y. y \<notin> set (xs @ x # ys) \<Longrightarrow> h' y = h y"
    using un p n by (auto simp: pl_unlink_def Let_def split: option.splits if_splits)
  have xs: "dll h' None xs (l_next (h x))"
  proof (cases xs rule: rev_cases)
    case (snoc as a)
    then show ?thesis using d disj
      by (auto intro!: dll_set_next [of h None as a "Some x"] simp: next_upd prev_upd)
  qed simp
  have ys: "dll h' (l_prev (h x)) ys None"
  proof (cases ys)
    case (Cons b bs)
    then show ?thesis using d disj
      by (auto intro!: dll_set_prev [of h "Some x" b bs None] simp del: dll.simps simp: next_upd prev_upd)
  qed simp
  have "dll h' None (xs @ ys) None" using xs ys n p by (auto simp: dll_append split: if_splits)
  then show "pin_list_rep l' h' (xs @ ys)"
    using rep l p n d(3) by (auto simp: pin_list_rep_def owner_upd hd_append split: if_splits)
qed

lemma pl_push_back_present:
  "pin_list_rep l h xs \<Longrightarrow> x \<in> set xs \<Longrightarrow> pl_push_back l h x = Ok (l, h, False)"
  using rep_owner [of l h xs x] rep_id [of l h xs] by (simp add: pl_push_back_def)

lemma pl_push_back_foreign:
  "pin_list_rep l h xs \<Longrightarrow> x \<notin> set xs \<Longrightarrow> owner (h x) \<noteq> 0 \<Longrightarrow> pl_push_back l h x = Panic"
  using rep_owner [of l h xs x] by (simp add: pl_push_back_def)

lemma pl_remove_absent: "pin_list_rep l h xs \<Longrightarrow> x \<notin> set xs \<Longrightarrow> pl_remove l h x = Ok (l, h, False)"
  using rep_owner [of l h xs x] by (simp add: pl_remove_def pl_contains_def)

text \<open>The pointer that \<^verbatim>\<open>remove\<close> recovers from the neighbour is the element itself.\<close>

lemma remove_ptr:
  assumes "pin_list_rep l h (xs @ x # ys)"
  shows "(case l_prev (h x) of Some p \<Rightarrow> l_next (h p) | None \<Rightarrow> head l) = Some x"
  using assms by (cases xs rule: rev_cases) (auto simp: pin_list_rep_def dll_append)

lemma pl_remove_present:
  assumes rep: "pin_list_rep l h xs" and x: "x \<in> set xs"
  obtains l' h' where "pl_remove l h x = Ok (l', h', True)" "pin_list_rep l' h' (remove1 x xs)"
    "pl_id l' = pl_id l" "owner (h' x) = 0" "strong (h' x) = strong (h x) - 1"
    "\<And>y. y \<noteq> x \<Longrightarrow> owner (h' y) = owner (h y) \<and> strong (h' y) = strong (h y)"
    "\<And>y. y \<notin> set xs \<Longrightarrow> h' y = h y"
proof -
  obtain as bs where xs: "xs = as @ x # bs" and as: "x \<notin> set as"
    using split_list_first [OF x] by blast
  obtain l' h' where un: "pl_unlink l h x = (l', h')" by (cases "pl_unlink l h x")
  note u = pl_unlink_rep [OF rep [unfolded xs] un]
  have "dll (drop_arc h' x) None (as @ bs) None = dll h' None (as @ bs) None"
    by (rule dll_cong) (simp add: drop_arc_def)
  then have "pin_list_rep l' (drop_arc h' x) (remove1 x xs)"
    using u(1) xs as by (simp add: pin_list_rep_def remove1_append drop_arc_def)
  moreover have "pl_remove l h x = Ok (l', drop_arc h' x, True)"
    using remove_ptr [OF rep [unfolded xs]] rep_owner [OF rep, of x] x un
    by (simp add: pl_remove_def pl_contains_def)
  ultimately show thesis using u xs by (intro that [of l' "drop_arc h' x"]) (simp_all add: drop_arc_def)
qed

lemma pl_pop_front_Cons:
  assumes rep: "pin_list_rep l h (x # xs)"
  obtains l' h' where "pl_pop_front l h = (l', h', Some x)" "pin_list_rep l' h' xs" "pl_id l' = pl_id l"
    "owner (h' x) = 0" "\<And>y. strong (h' y) = strong (h y)" "\<And>y. y \<notin> set (x # xs) \<Longrightarrow> h' y = h y"
    "\<And>y. y \<noteq> x \<Longrightarrow> owner (h' y) = owner (h y)"
proof -
  obtain l' h' where un: "pl_unlink l h x = (l', h')" by (cases "pl_unlink l h x")
  have "pl_pop_front l h = (l', h', Some x)"
    using rep un by (simp add: pl_pop_front_def pin_list_rep_def)
  moreover note u = pl_unlink_rep [of l h "[]" x xs, simplified, OF rep un]
  ultimately show thesis using u by (intro that [of l' h']) simp_all
qed

lemma pl_pop_front_Nil: "pin_list_rep l h [] \<Longrightarrow> pl_pop_front l h = (l, h, None)"
  by (simp add: pl_pop_front_def pin_list_rep_def)

lemma pl_iter_rep: "dll h p xs None \<Longrightarrow> length xs \<le> fuel \<Longrightarrow>
    pl_iter fuel h (if xs = [] then None else Some (hd xs)) = Some xs"
proof (induction xs arbitrary: p fuel)
  case (Cons x xs)
  then obtain n where "fuel = Suc n" by (cases fuel) auto
  with Cons show ?case by (cases xs) auto
qed simp

lemma pl_new_rep:
  "\<forall>x. owner (h x) \<noteq> n \<Longrightarrow> n \<noteq> 0 \<Longrightarrow> pin_list_rep (fst (pl_new n)) h []"
  by (simp add: pl_new_def pin_list_rep_def)

subsection \<open>The list implements the queue\<close>

text \<open>
  The state of the queue is the list with its heap. In this program every stream belongs to one
  connection, so no element is ever in another list.
\<close>

definition pin_seq :: "pin_list \<times> heap \<Rightarrow> addr list" where
  "pin_seq q = the (pl_iter (pl_len (fst q)) (snd q) (head (fst q)))"

definition pin_inv :: "pin_list \<times> heap \<Rightarrow> bool" where
  "pin_inv q \<longleftrightarrow> pin_list_rep (fst q) (snd q) (pin_seq q)
     \<and> (\<forall>x. owner (snd q x) = 0 \<or> owner (snd q x) = pl_id (fst q))"

definition pin_push_back :: "pin_list \<times> heap \<Rightarrow> addr \<Rightarrow> (pin_list \<times> heap) \<times> bool" where
  "pin_push_back q x = (case pl_push_back (fst q) (snd q) x of
      Ok (l, h, b) \<Rightarrow> ((l, h), b) | _ \<Rightarrow> (q, False))"

definition pin_remove :: "pin_list \<times> heap \<Rightarrow> addr \<Rightarrow> (pin_list \<times> heap) \<times> bool" where
  "pin_remove q x = (case pl_remove (fst q) (snd q) x of
      Ok (l, h, b) \<Rightarrow> ((l, h), b) | _ \<Rightarrow> (q, False))"

lemma rep_seq: "pin_list_rep l h xs \<Longrightarrow> pin_seq (l, h) = xs"
  using pl_iter_rep [of h None xs "pl_len l"] by (simp add: pin_list_rep_def pin_seq_def)

lemma pin_invI:
  "pin_list_rep l h xs \<Longrightarrow> (\<And>x. owner (h x) = 0 \<or> owner (h x) = pl_id l) \<Longrightarrow> pin_inv (l, h)"
  by (simp add: pin_inv_def rep_seq)

lemma pin_push_back_cases:
  assumes "pin_inv q"
  shows "pin_inv (fst (pin_push_back q x))
    \<and> pin_seq (fst (pin_push_back q x)) = (if x \<in> set (pin_seq q) then pin_seq q else pin_seq q @ [x])
    \<and> (snd (pin_push_back q x) \<longleftrightarrow> x \<notin> set (pin_seq q))"
proof -
  obtain l h where q: "q = (l, h)" by (cases q)
  have rep: "pin_list_rep l h (pin_seq q)" and own: "\<And>y. owner (h y) = 0 \<or> owner (h y) = pl_id l"
    using assms by (simp_all add: pin_inv_def q)
  show ?thesis
  proof (cases "x \<in> set (pin_seq q)")
    case True
    then show ?thesis using assms pl_push_back_present [OF rep] by (simp add: pin_push_back_def q)
  next
    case False
    then have "owner (h x) = 0" using own rep_owner [OF rep, of x] by auto
    from rep this obtain l' h' where push: "pl_push_back l h x = Ok (l', h', True)"
        "pin_list_rep l' h' (pin_seq q @ [x])" "pl_id l' = pl_id l"
        "\<And>y. y \<noteq> x \<Longrightarrow> owner (h' y) = owner (h y) \<and> strong (h' y) = strong (h y)"
      by (rule pl_push_back_Ok) blast
    have "owner (h' y) = 0 \<or> owner (h' y) = pl_id l'" for y
      using own [of y] push(3) push(4) [of y] rep_owner [OF push(2), of y] by (cases "y = x") auto
    then show ?thesis
      using push False pin_invI [OF push(2)] rep_seq [OF push(2)] by (simp add: pin_push_back_def q)
  qed
qed

lemma pin_remove_cases:
  assumes "pin_inv q"
  shows "pin_inv (fst (pin_remove q x)) \<and> pin_seq (fst (pin_remove q x)) = remove1 x (pin_seq q)
    \<and> (snd (pin_remove q x) \<longleftrightarrow> x \<in> set (pin_seq q))"
proof -
  obtain l h where q: "q = (l, h)" by (cases q)
  have rep: "pin_list_rep l h (pin_seq q)" and own: "\<And>y. owner (h y) = 0 \<or> owner (h y) = pl_id l"
    using assms by (simp_all add: pin_inv_def q)
  show ?thesis
  proof (cases "x \<in> set (pin_seq q)")
    case True
    with rep obtain l' h' where rem: "pl_remove l h x = Ok (l', h', True)"
        "pin_list_rep l' h' (remove1 x (pin_seq q))" "pl_id l' = pl_id l" "owner (h' x) = 0"
        "\<And>y. y \<noteq> x \<Longrightarrow> owner (h' y) = owner (h y) \<and> strong (h' y) = strong (h y)"
      by (rule pl_remove_present) blast
    have "owner (h' y) = 0 \<or> owner (h' y) = pl_id l'" for y
      using own [of y] rem(3,4) rem(5) [of y] by (cases "y = x") auto
    then show ?thesis
      using rem True pin_invI [OF rem(2)] rep_seq [OF rem(2)] by (simp add: pin_remove_def q)
  next
    case False
    then show ?thesis using assms pl_remove_absent [OF rep] by (simp add: pin_remove_def q remove1_idem)
  qed
qed

interpretation pin: turn_queue pin_inv pin_seq "\<lambda>q. pl_front (fst q)" "\<lambda>q. pl_contains (fst q) (snd q)"
    "\<lambda>q. pl_len (fst q)" pin_push_back pin_remove
  by unfold_locales
    (simp_all add: pin_push_back_cases pin_remove_cases,
      simp_all add: pin_inv_def pin_list_rep_def pl_front_def pl_contains_def)

subsection \<open>Properties\<close>

text \<open>
  C13. The intrusive list implements a sequence without duplicates. Pushing an element that is in
  no list appends it and takes one strong reference; pushing it again does nothing; pushing an
  element of another list panics. Removing takes the element out wherever it is, gives the
  reference back and frees the node; removing an element that is not in the list does nothing.
  Neither touches an element outside of the list.
\<close>

theorem pin_list_refines:
  assumes "pin_list_rep l h xs"
  shows "(x \<in> set xs \<longrightarrow> pl_push_back l h x = Ok (l, h, False))
    \<and> (owner (h x) = 0 \<longrightarrow> (\<exists>l' h'. pl_push_back l h x = Ok (l', h', True) \<and> pin_list_rep l' h' (xs @ [x])
         \<and> strong (h' x) = strong (h x) + 1 \<and> (\<forall>y. y \<notin> set (x # xs) \<longrightarrow> h' y = h y)))
    \<and> (x \<notin> set xs \<and> owner (h x) \<noteq> 0 \<longrightarrow> pl_push_back l h x = Panic)
    \<and> (x \<in> set xs \<longrightarrow> (\<exists>l' h'. pl_remove l h x = Ok (l', h', True) \<and> pin_list_rep l' h' (remove1 x xs)
         \<and> owner (h' x) = 0 \<and> strong (h' x) = strong (h x) - 1 \<and> (\<forall>y. y \<notin> set xs \<longrightarrow> h' y = h y)))
    \<and> (x \<notin> set xs \<longrightarrow> pl_remove l h x = Ok (l, h, False))
    \<and> (pl_contains l h x \<longleftrightarrow> x \<in> set xs) \<and> pl_len l = length xs"
proof (intro conjI impI)
  assume "owner (h x) = 0"
  with assms show "\<exists>l' h'. pl_push_back l h x = Ok (l', h', True) \<and> pin_list_rep l' h' (xs @ [x])
      \<and> strong (h' x) = strong (h x) + 1 \<and> (\<forall>y. y \<notin> set (x # xs) \<longrightarrow> h' y = h y)"
    by (rule pl_push_back_Ok) auto
next
  assume "x \<in> set xs"
  with assms show "\<exists>l' h'. pl_remove l h x = Ok (l', h', True) \<and> pin_list_rep l' h' (remove1 x xs)
      \<and> owner (h' x) = 0 \<and> strong (h' x) = strong (h x) - 1 \<and> (\<forall>y. y \<notin> set xs \<longrightarrow> h' y = h y)"
    by (rule pl_remove_present) blast
next
  show "pl_contains l h x \<longleftrightarrow> x \<in> set xs" using rep_owner [OF assms] by (simp add: pl_contains_def)
  show "pl_len l = length xs" using assms by (simp add: pin_list_rep_def)
qed (use assms pl_push_back_present pl_push_back_foreign pl_remove_absent in auto)

text \<open>A list of two elements, as two pushes build it.\<close>

definition demo_heap :: heap where
  "demo_heap = (\<lambda>_. node_new 1)(3 := \<lparr>owner = 1, l_prev = None, l_next = Some 5, strong = 2\<rparr>,
     5 := \<lparr>owner = 1, l_prev = Some 3, l_next = None, strong = 2\<rparr>)"

lemma demo_rep: "pin_list_rep \<lparr>pl_id = 1, head = Some 3, tail = Some 5, pl_len = 2\<rparr> demo_heap [3, 5]"
  by (simp add: pin_list_rep_def demo_heap_def node_new_def)

theorem pin_list_refines_witness:
  "\<exists>l' h'. pl_remove \<lparr>pl_id = 1, head = Some 3, tail = Some 5, pl_len = 2\<rparr> demo_heap 3 = Ok (l', h', True)
     \<and> pin_list_rep l' h' [5] \<and> strong (h' 3) = 1"
  using pin_list_refines [OF demo_rep, of 3] by (auto simp: demo_heap_def)

lemma pl_drop_rep:
  assumes "pin_list_rep l h xs" "length xs \<le> fuel"
  shows "\<exists>l' h'. pl_drop fuel l h = Some (l', h') \<and> pin_list_rep l' h' []
    \<and> (\<forall>x. strong (h' x) = strong (h x) - of_bool (x \<in> set xs))
    \<and> (\<forall>x. owner (h' x) = (if x \<in> set xs then 0 else owner (h x)))"
  using assms
proof (induction xs arbitrary: l h fuel)
  case Nil
  then show ?case by (subst pl_drop.simps) (auto simp: pl_pop_front_Nil)
next
  case (Cons x xs)
  then obtain n where n: "fuel = Suc n" "length xs \<le> n" by (cases fuel) auto
  from Cons.prems(1) obtain l1 h1 where pop: "pl_pop_front l h = (l1, h1, Some x)"
      "pin_list_rep l1 h1 xs" "owner (h1 x) = 0" "\<And>y. strong (h1 y) = strong (h y)"
      "\<And>y. y \<noteq> x \<Longrightarrow> owner (h1 y) = owner (h y)"
    by (rule pl_pop_front_Cons) blast
  have x: "x \<notin> set xs" using rep_links [OF Cons.prems(1)] by simp
  have "dll (drop_arc h1 x) None xs None = dll h1 None xs None"
    by (rule dll_cong) (simp add: drop_arc_def)
  then have "pin_list_rep l1 (drop_arc h1 x) xs"
    using pop(2) by (simp add: pin_list_rep_def drop_arc_def)
  from Cons.IH [OF this n(2)] obtain l' h' where IH: "pl_drop n l1 (drop_arc h1 x) = Some (l', h')"
      "pin_list_rep l' h' []"
      "\<And>y. strong (h' y) = strong (drop_arc h1 x y) - of_bool (y \<in> set xs)"
      "\<And>y. owner (h' y) = (if y \<in> set xs then 0 else owner (drop_arc h1 x y))" by blast
  have "pl_drop fuel l h = Some (l', h')"
    by (subst pl_drop.simps) (simp add: pop(1) n(1) IH(1))
  then show ?case using IH pop x by (auto simp: drop_arc_def)
qed

text \<open>
  C26. Dropping the list terminates, unlinks every element, and gives back exactly the strong
  references that the list held: one per linked element.
\<close>

theorem pin_list_drop_releases:
  assumes "pin_list_rep l h xs"
  shows "\<exists>l' h'. pl_drop (pl_len l) l h = Some (l', h') \<and> pl_len l' = 0
    \<and> (\<forall>x. strong (h' x) = strong (h x) - of_bool (x \<in> set xs))
    \<and> (\<forall>x \<in> set xs. owner (h' x) = 0)"
proof -
  have "pl_len l = length xs" using assms by (simp add: pin_list_rep_def)
  then have "length xs \<le> pl_len l" by simp
  then obtain l' h' where d: "pl_drop (pl_len l) l h = Some (l', h')" "pin_list_rep l' h' []"
      "\<forall>x. strong (h' x) = strong (h x) - of_bool (x \<in> set xs)"
      "\<forall>x. owner (h' x) = (if x \<in> set xs then 0 else owner (h x))"
    using pl_drop_rep [OF assms] by blast
  moreover have "pl_len l' = 0" using d(2) by (simp add: pin_list_rep_def)
  ultimately show ?thesis by auto
qed

theorem pin_list_drop_releases_witness:
  "\<exists>l' h'. pl_drop 2 \<lparr>pl_id = 1, head = Some 3, tail = Some 5, pl_len = 2\<rparr> demo_heap = Some (l', h')
     \<and> pl_len l' = 0 \<and> strong (h' 3) = 1 \<and> strong (h' 7) = 1"
proof -
  have "demo_heap 3 = \<lparr>owner = 1, l_prev = None, l_next = Some 5, strong = 2\<rparr>" "strong (demo_heap 7) = 1"
    by (simp_all add: demo_heap_def node_new_def)
  then show ?thesis using pin_list_drop_releases [OF demo_rep] by (auto split: if_splits)
qed

end
