(* ===== verification/F64.thy ===== *)
theory F64
  imports Complex_Main Rammux_Prelude "HOL-Library.Log_Nat"
begin

text \<open>
  The double precision arithmetic of the flow control. A finite \<^verbatim>\<open>f64\<close> is its rational value, and
  every operation is the exact operation followed by rounding to the nearest representable value,
  ties to even, with 53 significant bits and gradual underflow at \<open>2 ^ -1074\<close>, as IEEE 754 says.
  Infinities and NaN are not represented: the rates and times of a connection stay far below the
  overflow threshold \<open>2 ^ 1024\<close>. The exponential function has no specified precision in the
  language, so it is a parameter of the definitions that use it.

  What the clients use of rounding are the laws of the locale \<open>rounding\<close>, which the concrete
  rounding function \<open>rnd64\<close> satisfies.
\<close>

section \<open>Definitions\<close>

type_synonym f64 = rat

text \<open>Round half to even, to an integer.\<close>

definition rne :: "rat \<Rightarrow> int" where
  "rne x = (let f = \<lfloor>x\<rfloor>; r = x - of_int f in
     if r < 1 / 2 then f else if 1 / 2 < r then f + 1 else if even f then f else f + 1)"

text \<open>Rounding of a non-negative value in units of the smallest subnormal number.\<close>

definition quantum :: "rat \<Rightarrow> nat" where
  "quantum x = floorlog 2 (nat \<lfloor>x\<rfloor>) - 53"

definition rnd_units :: "rat \<Rightarrow> rat" where
  "rnd_units x = of_int (rne (x / 2 ^ quantum x)) * 2 ^ quantum x"

definition rnd64 :: "rat \<Rightarrow> f64" where
  "rnd64 x = (if 0 \<le> x then rnd_units (x * 2 ^ 1074) / 2 ^ 1074
     else - (rnd_units (- x * 2 ^ 1074) / 2 ^ 1074))"

text \<open>The cast of a float to \<^verbatim>\<open>u64\<close> truncates, and saturates at both ends.\<close>

definition f64_to_u64 :: "f64 \<Rightarrow> u64" where
  "f64_to_u64 x = min (nat \<lfloor>x\<rfloor>) (u64_size - 1)"

section \<open>The interface of rounding\<close>

locale rounding =
  fixes rnd :: "rat \<Rightarrow> rat"
  assumes rnd_mono: "x \<le> y \<Longrightarrow> rnd x \<le> rnd y"
    and rnd_minus: "rnd (- x) = - rnd x"
    and rnd_rnd: "rnd (rnd x) = rnd x"
    and rnd_le_double: "0 \<le> x \<Longrightarrow> rnd x \<le> 2 * x"
begin

lemma rnd_zero: "rnd 0 = 0"
  using rnd_minus [of 0] by simp

lemma rnd_nonneg: "0 \<le> x \<Longrightarrow> 0 \<le> rnd x"
  using rnd_mono [of 0 x] by (simp add: rnd_zero)

lemma rnd_le: "rnd y = y \<Longrightarrow> x \<le> y \<Longrightarrow> rnd x \<le> y"
  using rnd_mono [of x y] by simp

lemma rnd_ge: "rnd y = y \<Longrightarrow> y \<le> x \<Longrightarrow> y \<le> rnd x"
  using rnd_mono [of y x] by simp

text \<open>
  An exponentially weighted average stays between the old value and the sample, although each of
  its three operations rounds.
\<close>

lemma ewma_upper:
  assumes s: "rnd s = s" and r: "rnd r = r" and g: "0 \<le> g" "g \<le> 1 / 4"
  shows "rnd (s + rnd (rnd (r - s) * g)) \<le> max s r"
proof (cases "s \<le> r")
  case True
  then have d: "0 \<le> r - s" "0 \<le> rnd (r - s)" by (simp_all add: rnd_nonneg)
  have "rnd (rnd (r - s) * g) \<le> 2 * (rnd (r - s) * g)" using d g by (intro rnd_le_double) simp
  also have "\<dots> \<le> 2 * ((2 * (r - s)) * (1 / 4))"
    using d g rnd_le_double [OF d(1)] by (intro mult_left_mono mult_mono) simp_all
  finally have "s + rnd (rnd (r - s) * g) \<le> r" using d(1) by simp
  then show ?thesis using r rnd_le [OF r] by (simp add: le_max_iff_disj)
next
  case False
  then have "rnd (r - s) \<le> 0" using rnd_mono [of "r - s" 0] by (simp add: rnd_zero)
  then have "rnd (r - s) * g \<le> 0" using g by (simp add: mult_nonpos_nonneg)
  then have "rnd (rnd (r - s) * g) \<le> 0" using rnd_mono [of _ 0] by (fastforce simp: rnd_zero)
  then show ?thesis using rnd_le [OF s] by (simp add: le_max_iff_disj)
qed

lemma ewma_lower:
  assumes "rnd s = s" and "rnd r = r" and "0 \<le> g" "g \<le> 1 / 4"
  shows "min s r \<le> rnd (s + rnd (rnd (r - s) * g))"
proof -
  have eq: "rnd (- s + rnd (rnd (- r - - s) * g)) = - rnd (s + rnd (rnd (r - s) * g))"
  proof -
    have "rnd (- r - - s) = - rnd (r - s)" by (simp flip: rnd_minus)
    then have "rnd (rnd (- r - - s) * g) = - rnd (rnd (r - s) * g)" by (simp add: rnd_minus)
    then show ?thesis by (simp flip: rnd_minus)
  qed
  have "rnd (- s + rnd (rnd (- r - - s) * g)) \<le> max (- s) (- r)"
    using assms by (intro ewma_upper) (simp_all add: rnd_minus)
  then have "- max (- s) (- r) \<le> rnd (s + rnd (rnd (r - s) * g))" unfolding eq by linarith
  moreover have "- max (- s) (- r) = min s r" by (simp add: max_def min_def)
  ultimately show ?thesis by simp
qed

lemma decay_le:
  assumes "rnd v = v" "0 \<le> v" "0 \<le> d" "d \<le> 1"
  shows "0 \<le> rnd (v * d)" and "rnd (v * d) \<le> v"
  using assms mult_left_mono [of d 1 v] by (auto intro: rnd_nonneg rnd_le)

end

section \<open>Lemmas\<close>

subsection \<open>Rounding to integers\<close>

lemma rne_of_int [simp]: "rne (of_int n) = n"
  by (simp add: rne_def Let_def)

lemma rne_eq_floor_or: "rne x = \<lfloor>x\<rfloor> \<or> rne x = \<lfloor>x\<rfloor> + 1"
  by (simp add: rne_def Let_def)

lemma rne_mono: "x \<le> y \<Longrightarrow> rne x \<le> rne y"
proof -
  assume le: "x \<le> y"
  then consider "\<lfloor>x\<rfloor> < \<lfloor>y\<rfloor>" | "\<lfloor>x\<rfloor> = \<lfloor>y\<rfloor>" using floor_mono [OF le] by linarith
  then show ?thesis
  proof cases
    case 1
    then show ?thesis using rne_eq_floor_or [of x] rne_eq_floor_or [of y] by linarith
  next
    case 2
    then show ?thesis using le by (auto simp: rne_def Let_def)
  qed
qed

lemma rne_nonneg: "0 \<le> x \<Longrightarrow> 0 \<le> rne x"
  using rne_mono [of 0 x] rne_of_int [of 0] by simp

subsection \<open>Rounding of non-negative values\<close>

lemma lt_two_pow_bits: "0 \<le> (x :: rat) \<Longrightarrow> x < 2 ^ floorlog 2 (nat \<lfloor>x\<rfloor>)"
proof -
  assume x: "0 \<le> x"
  have "nat \<lfloor>x\<rfloor> < 2 ^ floorlog 2 (nat \<lfloor>x\<rfloor>)"
    using floorlog_bounds [of "nat \<lfloor>x\<rfloor>" 2] by (cases "nat \<lfloor>x\<rfloor> = 0") simp_all
  then have "\<lfloor>x\<rfloor> < 2 ^ floorlog 2 (nat \<lfloor>x\<rfloor>)"
    using x by (simp add: nat_less_iff)
  then show ?thesis by (metis floor_less_iff of_int_numeral of_int_power)
qed

lemma ge_two_pow_bits: "0 < nat \<lfloor>x :: rat\<rfloor> \<Longrightarrow> 2 ^ (floorlog 2 (nat \<lfloor>x\<rfloor>) - 1) \<le> x"
proof -
  assume x: "0 < nat \<lfloor>x\<rfloor>"
  then have "2 ^ (floorlog 2 (nat \<lfloor>x\<rfloor>) - 1) \<le> nat \<lfloor>x\<rfloor>"
    using floorlog_bounds [of "nat \<lfloor>x\<rfloor>" 2] by simp
  then have "2 ^ (floorlog 2 (nat \<lfloor>x\<rfloor>) - 1) \<le> \<lfloor>x\<rfloor>"
    using x by (simp add: le_nat_iff)
  then show ?thesis by (metis le_floor_iff of_int_numeral of_int_power)
qed

lemma lt_quantum: "0 \<le> x \<Longrightarrow> x < 2 ^ (quantum x + 53)"
proof -
  assume "0 \<le> x"
  then have "x < 2 ^ floorlog 2 (nat \<lfloor>x\<rfloor>)" by (rule lt_two_pow_bits)
  also have "\<dots> \<le> (2 :: rat) ^ (quantum x + 53)"
    by (rule power_increasing) (simp_all add: quantum_def)
  finally show ?thesis .
qed

lemma ge_quantum: "0 < quantum x \<Longrightarrow> 2 ^ (quantum x + 52) \<le> x"
proof -
  assume q: "0 < quantum x"
  then have "0 < nat \<lfloor>x\<rfloor>" by (auto simp: quantum_def floorlog_def split: if_splits)
  moreover have "quantum x + 52 = floorlog 2 (nat \<lfloor>x\<rfloor>) - 1" using q by (simp add: quantum_def)
  ultimately show ?thesis using ge_two_pow_bits [of x] by simp
qed

lemma quantum_mono: "0 \<le> x \<Longrightarrow> x \<le> y \<Longrightarrow> quantum x \<le> quantum y"
  unfolding quantum_def by (intro diff_le_mono floorlog_mono nat_mono floor_mono)

lemma rnd_units_le_pow: "0 \<le> x \<Longrightarrow> quantum x \<le> k \<Longrightarrow> x \<le> 2 ^ k \<Longrightarrow> rnd_units x \<le> 2 ^ k"
proof -
  assume x: "0 \<le> x" "quantum x \<le> k" "x \<le> 2 ^ k"
  let ?q = "quantum x"
  have k: "(2 :: rat) ^ k = 2 ^ (k - ?q) * 2 ^ ?q" using x(2) by (simp flip: power_add)
  have "rne (x / 2 ^ ?q) \<le> rne (of_int (2 ^ (k - ?q)))"
    using x(3) by (intro rne_mono) (simp add: k divide_le_eq)
  then have "rne (x / 2 ^ ?q) \<le> 2 ^ (k - ?q)" by (simp only: rne_of_int)
  then have "of_int (rne (x / 2 ^ ?q)) \<le> (2 :: rat) ^ (k - ?q)"
    by (metis of_int_le_iff of_int_numeral of_int_power)
  then show ?thesis unfolding rnd_units_def k by (rule mult_right_mono) simp
qed

lemma rnd_units_ge_pow: "quantum x \<le> k \<Longrightarrow> 2 ^ k \<le> x \<Longrightarrow> 2 ^ k \<le> rnd_units x"
proof -
  assume x: "quantum x \<le> k" "2 ^ k \<le> x"
  let ?q = "quantum x"
  have k: "(2 :: rat) ^ k = 2 ^ (k - ?q) * 2 ^ ?q" using x(1) by (simp flip: power_add)
  have "rne (of_int (2 ^ (k - ?q))) \<le> rne (x / 2 ^ ?q)"
    using x(2) by (intro rne_mono) (simp add: k le_divide_eq)
  then have "2 ^ (k - ?q) \<le> rne (x / 2 ^ ?q)" by (simp only: rne_of_int)
  then have "(2 :: rat) ^ (k - ?q) \<le> of_int (rne (x / 2 ^ ?q))"
    by (metis of_int_le_iff of_int_numeral of_int_power)
  then show ?thesis unfolding rnd_units_def k by (rule mult_right_mono) simp
qed

lemma rnd_units_mono:
  assumes "0 \<le> x" "x \<le> y"
  shows "rnd_units x \<le> rnd_units y"
proof (cases "quantum x = quantum y")
  case True
  have "rne (x / 2 ^ quantum y) \<le> rne (y / 2 ^ quantum y)"
    using assms by (intro rne_mono divide_right_mono) simp_all
  then show ?thesis unfolding rnd_units_def True by (intro mult_right_mono) simp_all
next
  case False
  then have q: "quantum x < quantum y" using quantum_mono [OF assms] by simp
  have "rnd_units x \<le> 2 ^ (quantum x + 53)"
    using assms(1) lt_quantum [of x] by (intro rnd_units_le_pow) simp_all
  also have "\<dots> \<le> 2 ^ (quantum y + 52)" using q by (intro power_increasing) simp_all
  also have "\<dots> \<le> rnd_units y" using q by (intro rnd_units_ge_pow ge_quantum) simp_all
  finally show ?thesis .
qed

lemma rnd_units_nonneg: "0 \<le> x \<Longrightarrow> 0 \<le> rnd_units x"
  by (simp add: rnd_units_def rne_nonneg)

lemma rnd_units_fix:
  assumes "y = of_int n * 2 ^ j" "quantum y \<le> j"
  shows "rnd_units y = y"
proof -
  define q where "q = quantum y"
  have "(2 :: rat) ^ j = 2 ^ (j - q) * 2 ^ q" using assms(2) by (simp add: q_def flip: power_add)
  then have "y / 2 ^ q = of_int (n * 2 ^ (j - q))" using assms(1) by simp
  then have "y / 2 ^ quantum y = of_int (n * 2 ^ (j - quantum y))" by (simp only: q_def)
  then have "of_int (rne (y / 2 ^ quantum y)) = y / 2 ^ quantum y" by (simp only: rne_of_int)
  then show ?thesis by (simp add: rnd_units_def)
qed

lemma quantum_le:
  assumes "y < 2 ^ (k + 53)"
  shows "quantum y \<le> k"
proof (rule ccontr)
  assume "\<not> quantum y \<le> k"
  then have "(2 :: rat) ^ (k + 53) \<le> 2 ^ (quantum y + 52)" "2 ^ (quantum y + 52) \<le> y"
    by (auto intro: power_increasing ge_quantum)
  with assms show False by simp
qed

lemma rnd_units_idem:
  assumes "0 \<le> x"
  shows "rnd_units (rnd_units x) = rnd_units x"
proof -
  let ?y = "rnd_units x" and ?q = "quantum x"
  have le: "?y \<le> 2 ^ (?q + 53)"
    using assms lt_quantum [of x] by (intro rnd_units_le_pow) simp_all
  show ?thesis
  proof (cases "?y < 2 ^ (?q + 53)")
    case True
    then show ?thesis by (intro rnd_units_fix quantum_le) (simp_all add: rnd_units_def)
  next
    case False
    with le have y: "?y = 2 ^ (?q + 53)" by simp
    have "?y < 2 ^ (Suc ?q + 53)" unfolding y by (rule power_strict_increasing) simp_all
    then have "quantum ?y \<le> Suc ?q" by (rule quantum_le)
    then show ?thesis using y by (intro rnd_units_fix [of _ 1 "?q + 53"]) simp_all
  qed
qed

lemma rne_cases:
  "rne x = \<lfloor>x\<rfloor> \<or> rne x = \<lfloor>x\<rfloor> + 1 \<and> (1 / 2 < x - of_int \<lfloor>x\<rfloor> \<or> odd \<lfloor>x\<rfloor>)"
  by (simp add: rne_def Let_def)

lemma rne_le_double: "0 \<le> x \<Longrightarrow> of_int (rne x) \<le> 2 * x"
proof -
  assume x: "0 \<le> x"
  then have f: "0 \<le> \<lfloor>x\<rfloor>" "of_int \<lfloor>x\<rfloor> \<le> x" by simp_all
  consider "rne x = \<lfloor>x\<rfloor>" | "rne x = \<lfloor>x\<rfloor> + 1" "1 / 2 < x - of_int \<lfloor>x\<rfloor>" | "rne x = \<lfloor>x\<rfloor> + 1" "odd \<lfloor>x\<rfloor>"
    using rne_cases [of x] by blast
  then show ?thesis
  proof cases
    case 1
    then show ?thesis using f(2) x by linarith
  next
    case 2
    then have "of_int (rne x) = (of_int \<lfloor>x\<rfloor> + 1 :: rat)" by simp
    moreover have "(0 :: rat) \<le> of_int \<lfloor>x\<rfloor>" using f(1) by simp
    ultimately show ?thesis using 2(2) by linarith
  next
    case 3
    then have "\<lfloor>x\<rfloor> \<noteq> 0" by (metis even_zero)
    then have "1 \<le> \<lfloor>x\<rfloor>" using f(1) by linarith
    then have "(1 :: rat) \<le> of_int \<lfloor>x\<rfloor>" by (metis of_int_1 of_int_le_iff)
    moreover have "of_int (rne x) = (of_int \<lfloor>x\<rfloor> + 1 :: rat)" using 3 by simp
    ultimately show ?thesis using f(2) by linarith
  qed
qed

lemma rnd_units_le_double: "0 \<le> x \<Longrightarrow> rnd_units x \<le> 2 * x"
  using mult_right_mono [OF rne_le_double, of "x / 2 ^ quantum x" "2 ^ quantum x"]
  by (simp add: rnd_units_def)

subsection \<open>The rounding of f64\<close>

lemma rnd_units_0 [simp]: "rnd_units 0 = 0"
  using rne_of_int [of 0] by (simp add: rnd_units_def)

lemma rnd64_minus: "rnd64 (- x) = - rnd64 x"
  by (cases "x = 0") (auto simp: rnd64_def)

lemma rnd64_nonneg_mono: "0 \<le> x \<Longrightarrow> x \<le> y \<Longrightarrow> rnd64 x \<le> rnd64 y"
  by (simp add: rnd64_def divide_right_mono rnd_units_mono)

lemma rnd64_nonneg: "0 \<le> x \<Longrightarrow> 0 \<le> rnd64 x"
  by (simp add: rnd64_def rnd_units_nonneg)

lemma rnd64_mono:
  assumes "x \<le> y"
  shows "rnd64 x \<le> rnd64 y"
proof -
  consider "0 \<le> x" | "x < 0" "0 \<le> y" | "y < 0" by linarith
  then show ?thesis
  proof cases
    case 1
    then show ?thesis using assms by (rule rnd64_nonneg_mono)
  next
    case 2
    then show ?thesis using rnd64_nonneg [of "- x"] rnd64_nonneg [of y] by (simp add: rnd64_minus)
  next
    case 3
    then show ?thesis using rnd64_nonneg_mono [of "- y" "- x"] assms by (simp add: rnd64_minus)
  qed
qed

lemma rnd64_idem: "rnd64 (rnd64 x) = rnd64 x"
proof -
  have pos: "rnd64 (rnd64 z) = rnd64 z" if "0 \<le> z" for z
    using that by (simp add: rnd64_def rnd_units_nonneg rnd_units_idem)
  show ?thesis
    using pos [of x] pos [of "- x"] by (cases "0 \<le> x") (simp_all add: rnd64_minus)
qed

lemma rnd64_le_double: "0 \<le> x \<Longrightarrow> rnd64 x \<le> 2 * x"
  using rnd_units_le_double [of "x * 2 ^ 1074"] by (simp add: rnd64_def field_simps)

lemma rnd64_of_nat: "n < 2 ^ 53 \<Longrightarrow> rnd64 (of_nat n) = of_nat n"
proof -
  assume n: "n < 2 ^ 53"
  have "(of_nat n :: rat) < of_nat (2 ^ 53)" using n by (simp only: of_nat_less_iff)
  then have "(of_nat n :: rat) * 2 ^ 1074 < of_nat (2 ^ 53) * 2 ^ 1074"
    by (rule mult_strict_right_mono) simp
  also have "\<dots> = 2 ^ (1074 + 53)" unfolding power_add by simp
  finally have "quantum (of_nat n * 2 ^ 1074) \<le> 1074" by (rule quantum_le)
  then have "rnd_units (of_nat n * 2 ^ 1074) = of_nat n * 2 ^ 1074"
    by (intro rnd_units_fix [of _ "int n"]) simp_all
  then show ?thesis by (simp add: rnd64_def)
qed

text \<open>Subtracting a natural number from a double below \<open>2 ^ 53\<close> is exact while the result is not negative.\<close>

lemma rnd64_minus_nat:
  assumes a: "rnd64 a = a" "a < 2 ^ 53" and b: "of_nat b \<le> a"
  shows "rnd64 (a - of_nat b) = a - of_nat b"
proof -
  let ?A = "a * 2 ^ 1074" and ?q = "quantum (a * 2 ^ 1074)"
  have nn: "0 \<le> a" using b by (rule order_trans [rotated]) simp
  have "?A < 2 ^ 53 * 2 ^ 1074" using a(2) by (rule mult_strict_right_mono) simp
  also have "(2 :: rat) ^ 53 * 2 ^ 1074 = 2 ^ (1074 + 53)" by (simp only: power_add mult.commute)
  finally have q: "?q \<le> 1074" by (rule quantum_le)
  have "rnd_units ?A = ?A" using a(1) nn by (simp add: rnd64_def field_simps)
  then obtain k :: int where k: "?A = of_int k * 2 ^ ?q" by (metis rnd_units_def)
  have "(2 :: rat) ^ 1074 = 2 ^ (1074 - ?q) * 2 ^ ?q" using q by (simp flip: power_add)
  then have "(of_nat b :: rat) * 2 ^ 1074 = of_int (int b * 2 ^ (1074 - ?q)) * 2 ^ ?q"
    by (simp only: of_int_mult of_int_power of_int_numeral of_int_of_nat_eq mult.assoc)
  then have x: "(a - of_nat b) * 2 ^ 1074 = of_int (k - int b * 2 ^ (1074 - ?q)) * 2 ^ ?q"
    using k by (simp only: left_diff_distrib of_int_diff)
  have le: "0 \<le> (a - of_nat b) * 2 ^ 1074" "(a - of_nat b) * 2 ^ 1074 \<le> ?A"
    using b by (auto intro!: mult_nonneg_nonneg mult_right_mono)
  have "rnd_units ((a - of_nat b) * 2 ^ 1074) = (a - of_nat b) * 2 ^ 1074"
    by (rule rnd_units_fix [OF x quantum_mono [OF le]])
  then show ?thesis using b by (simp add: rnd64_def)
qed

interpretation f64: rounding rnd64
  by unfold_locales (rule rnd64_mono rnd64_minus rnd64_idem rnd64_le_double; assumption?)+

end
