(* ===== verification/Flow.thy ===== *)
theory Flow
  imports Clock F64
begin

text \<open>
  The arithmetic of the flow control (\<^verbatim>\<open>src/flow.rs\<close>, \<^verbatim>\<open>src/flow/rate.rs\<close>): the credit threshold,
  the pool that the streams of one direction share, the window of one stream, the smoothed round
  trip time and the rate estimate. Counters are \<^verbatim>\<open>u64\<close> with wrap-around; the float arithmetic is
  that of theory \<open>F64\<close>, with the exponential function as the argument \<open>fexp\<close>.
\<close>

section \<open>Definitions\<close>

subsection \<open>Credit threshold\<close>

definition CREDIT_THRESHOLD :: u32 where
  "CREDIT_THRESHOLD = 32 * 1024"

definition credit_threshold :: "u32 \<Rightarrow> u64" where
  "credit_threshold base_window = unat (max (min CREDIT_THRESHOLD (base_window div 2)) 1)"

subsection \<open>Pools and windows\<close>

record pool =
  p_size :: u64
  p_used :: u64

definition pool_new :: "u32 \<Rightarrow> pool" where
  "pool_new sz = \<lparr>p_size = unat sz, p_used = 0\<rparr>"

definition pool_room :: "pool \<Rightarrow> u64" where
  "pool_room p = p_size p - p_used p"

definition has_room :: "pool \<Rightarrow> bool" where
  "has_room p \<longleftrightarrow> pool_room p > 0"

definition is_overdrawn :: "pool \<Rightarrow> bool" where
  "is_overdrawn p \<longleftrightarrow> p_used p > p_size p"

record window =
  win_base :: u64
  unacked :: u64

definition window_new :: "u32 \<Rightarrow> window" where
  "window_new base = \<lparr>win_base = unat base, unacked = 0\<rparr>"

definition borrowed_at :: "u64 \<Rightarrow> u64 \<Rightarrow> u64" where
  "borrowed_at n base = n - base"

definition borrowed :: "window \<Rightarrow> u64" where
  "borrowed w = borrowed_at (unacked w) (win_base w)"

definition base_room :: "window \<Rightarrow> u64" where
  "base_room w = win_base w - unacked w"

text \<open>\<^verbatim>\<open>Window::set\<close> returns whether the stream gave some of the pool back.\<close>

definition window_set :: "window \<Rightarrow> pool \<Rightarrow> u64 \<Rightarrow> window \<times> pool \<times> bool" where
  "window_set w p n =
     (let old = borrowed w; new = borrowed_at n (win_base w) in
      (w\<lparr>unacked := n\<rparr>, p\<lparr>p_used := add_u64 (sub_u64 (p_used p) old) new\<rparr>, new < old))"

definition window_add :: "window \<Rightarrow> pool \<Rightarrow> u64 \<Rightarrow> window \<times> pool" where
  "window_add w p len =
     (let (w', p', _) = window_set w p (add_u64 (unacked w) len) in (w', p'))"

subsection \<open>The smoothed round trip time\<close>

definition as_secs_f64 :: "duration \<Rightarrow> f64" where
  "as_secs_f64 d = rnd64 (rnd64 (of_nat (d div 1000000000))
     + rnd64 (rnd64 (of_nat (d mod 1000000000)) / rnd64 1000000000))"

text \<open>\<^verbatim>\<open>Duration::from_secs_f64\<close> panics on a negative value and on overflow, and rounds to nanoseconds.\<close>

definition from_secs_f64 :: "f64 \<Rightarrow> (duration, 'e) rres" where
  "from_secs_f64 s =
     (if s < 0 \<or> rne (s * 1000000000) \<ge> 2 ^ 64 * 1000000000 then Panic
      else Ok (nat (rne (s * 1000000000))))"

definition ALLOWANCE_RTTS :: f64 where
  "ALLOWANCE_RTTS = 2"

definition SRTT_GAIN :: f64 where
  "SRTT_GAIN = 1 / 8"

definition SRTT_MIN :: duration where
  "SRTT_MIN = from_micros 1"

type_synonym srtt = "duration option"

definition srtt_secs :: "srtt \<Rightarrow> f64 option" where
  "srtt_secs s = map_option as_secs_f64 s"

definition srtt_observe :: "srtt \<Rightarrow> duration \<Rightarrow> (srtt, 'e) rres" where
  "srtt_observe s rtt =
     r_bind
       (case s of
          None \<Rightarrow> Ok rtt
        | Some srtt \<Rightarrow>
            let secs = as_secs_f64 srtt in
            from_secs_f64 (rnd64 (secs + rnd64 (rnd64 (as_secs_f64 rtt - secs) * SRTT_GAIN))))
       (\<lambda>srtt. Ok (Some (max srtt SRTT_MIN)))"

subsection \<open>The rate estimate\<close>

record rate_estimate =
  rate :: f64
  rate_at :: instant

definition rate_new :: "instant \<Rightarrow> rate_estimate" where
  "rate_new now = \<lparr>rate = 0, rate_at = now\<rparr>"

definition rate_value :: "(f64 \<Rightarrow> f64) \<Rightarrow> rate_estimate \<Rightarrow> instant \<Rightarrow> f64 \<Rightarrow> f64" where
  "rate_value fexp r now tau =
     (let age = as_secs_f64 (now - rate_at r) in rnd64 (rate r * fexp (rnd64 (- age / tau))))"

definition rate_add_amount :: "(f64 \<Rightarrow> f64) \<Rightarrow> rate_estimate \<Rightarrow> f64 \<Rightarrow> instant \<Rightarrow> f64 \<Rightarrow> rate_estimate" where
  "rate_add_amount fexp r bytes now tau =
     \<lparr>rate = rnd64 (rate_value fexp r now tau + rnd64 (bytes / tau)), rate_at = now\<rparr>"

definition rate_add :: "(f64 \<Rightarrow> f64) \<Rightarrow> rate_estimate \<Rightarrow> u32 \<Rightarrow> instant \<Rightarrow> f64 \<Rightarrow> rate_estimate" where
  "rate_add fexp r bytes now tau = rate_add_amount fexp r (of_nat (unat bytes)) now tau"

definition allowance :: "(f64 \<Rightarrow> f64) \<Rightarrow> rate_estimate \<Rightarrow> instant \<Rightarrow> f64 \<Rightarrow> f64" where
  "allowance fexp r now srtt = rnd64 (rnd64 (rate_value fexp r now srtt * ALLOWANCE_RTTS) * srtt)"

section \<open>The interface of the accounting\<close>

text \<open>
  The streams of one direction account for their bytes in a shared pool. \<open>accounts S win p\<close> says
  that the pool is used by exactly what the windows of the streams \<open>S\<close> borrow.
\<close>

definition accounts :: "'s set \<Rightarrow> ('s \<Rightarrow> window) \<Rightarrow> pool \<Rightarrow> bool" where
  "accounts S win p \<longleftrightarrow> finite S \<and> p_used p = (\<Sum>s\<in>S. borrowed (win s)) \<and> p_used p < u64_size"

text \<open>A pool of the size of the configuration that is not overdrawn.\<close>

definition pool_ok :: "pool \<Rightarrow> bool" where
  [inv_defs]: "pool_ok p \<longleftrightarrow> p_size p \<le> u32_max \<and> p_used p \<le> p_size p"

section \<open>Lemmas\<close>

subsection \<open>Credit threshold\<close>

lemma credit_threshold_eq: "credit_threshold b = max (min 32768 (unat b div 2)) 1"
proof -
  have "unat (min CREDIT_THRESHOLD (b div 2)) = min 32768 (unat b div 2)"
    by (auto simp: min_def CREDIT_THRESHOLD_def word_le_nat_alt unat_div_distrib)
  then show ?thesis
    by (auto simp: credit_threshold_def max_def word_le_nat_alt)
qed

text \<open>
  C28. The credit threshold is at least one byte and never exceeds a non-zero base window, so
  while fewer bytes than the threshold wait to be credited, the sender still has room in the base
  window (credit cannot deadlock); it is at most half of the window whenever the window holds at
  least two bytes.
\<close>

theorem credit_threshold_no_deadlock:
  assumes "b \<noteq> 0"
  shows "1 \<le> credit_threshold b \<and> credit_threshold b \<le> unat b \<and> credit_threshold b \<le> 32768
    \<and> (2 \<le> unat b \<longrightarrow> 2 * credit_threshold b \<le> unat b)
    \<and> (\<forall>uncredited. uncredited < credit_threshold b \<longrightarrow> 0 < base_room \<lparr>win_base = unat b, unacked = uncredited\<rparr>)"
proof -
  have "1 \<le> unat b" using assms by (simp add: Suc_le_eq unat_gt_0)
  then show ?thesis by (auto simp: credit_threshold_eq base_room_def)
qed

theorem credit_threshold_no_deadlock_witness:
  "1 \<le> credit_threshold 1 \<and> credit_threshold 1 \<le> 1 \<and> \<not> 2 * credit_threshold 1 \<le> 1"
  using credit_threshold_no_deadlock [of 1] by (simp add: credit_threshold_eq)

subsection \<open>Pools and windows\<close>

lemma window_set_fields [simp]:
  "win_base (fst (window_set w p n)) = win_base w" "unacked (fst (window_set w p n)) = n"
  "p_size (fst (snd (window_set w p n))) = p_size p"
  by (simp_all add: window_set_def Let_def)

lemma borrowed_le_used:
  "accounts S win p \<Longrightarrow> s \<in> S \<Longrightarrow> borrowed (win s) \<le> p_used p"
  by (auto simp: accounts_def intro: member_le_sum)

lemma sum_borrowed_upd:
  assumes "finite S" "s \<in> S"
  shows "(\<Sum>t\<in>S. borrowed ((win(s := w)) t)) + borrowed (win s) = (\<Sum>t\<in>S. borrowed (win t)) + borrowed w"
  using sum_fun_upd_nat [OF assms, of "\<lambda>t. borrowed (win t)" "borrowed w"]
  by (simp add: fun_upd_def if_distrib cong: if_cong)

lemma window_set_accounts:
  assumes acc: "accounts S win p" and s: "s \<in> S"
    and set: "window_set (win s) p n = (w', p', freed)"
    and bound: "p_used p - borrowed (win s) + (n - win_base (win s)) < u64_size"
  shows "accounts S (win(s := w')) p'"
    and "p_used p' = p_used p - borrowed (win s) + (n - win_base (win s))"
    and "p_size p' = p_size p" and "win_base w' = win_base (win s)" and "unacked w' = n"
    and "freed \<longleftrightarrow> p_used p' < p_used p"
proof -
  have le: "borrowed (win s) \<le> p_used p" using acc s by (rule borrowed_le_used)
  show used: "p_used p' = p_used p - borrowed (win s) + (n - win_base (win s))"
    using set le bound by (auto simp: window_set_def Let_def borrowed_at_def u64_simps)
  show "p_size p' = p_size p" "win_base w' = win_base (win s)" "unacked w' = n"
    using set by (auto simp: window_set_def Let_def)
  then have "borrowed w' = n - win_base (win s)" by (simp add: borrowed_def borrowed_at_def)
  then show "accounts S (win(s := w')) p'"
    using acc s used le bound sum_borrowed_upd [of S s win w'] by (auto simp: accounts_def)
  show "freed \<longleftrightarrow> p_used p' < p_used p"
    using set used le by (auto simp: window_set_def Let_def borrowed_at_def)
qed

lemma window_add_eq:
  "window_add w p len = (w', p') \<longleftrightarrow> (\<exists>f. window_set w p (add_u64 (unacked w) len) = (w', p', f))"
  by (auto simp: window_add_def split: prod.splits)

lemma pool_new_ok: "pool_ok (pool_new sz)"
  using unat_le_u32_max [of sz] by (simp add: pool_ok_def pool_new_def)

lemma window_set_le:
  assumes acc: "accounts S win p" and s: "s \<in> S" and ok: "pool_ok p"
    and set: "window_set (win s) p n = (w', p', freed)" and n: "n \<le> unacked (win s)"
  shows "accounts S (win(s := w')) p'" and "pool_ok p'" and "p_size p' = p_size p"
    and "win_base w' = win_base (win s)" and "unacked w' = n" and "p_used p' \<le> p_used p"
    and "freed \<longleftrightarrow> p_used p' < p_used p"
proof -
  have le: "n - win_base (win s) \<le> borrowed (win s)" using n by (simp add: borrowed_def borrowed_at_def)
  then have used: "p_used p - borrowed (win s) + (n - win_base (win s)) \<le> p_used p"
    using borrowed_le_used [OF acc s] by simp
  then have bound: "p_used p - borrowed (win s) + (n - win_base (win s)) < u64_size"
    using acc by (simp add: accounts_def)
  note ws = window_set_accounts [OF acc s set bound]
  show "accounts S (win(s := w')) p'" "p_size p' = p_size p" "win_base w' = win_base (win s)"
    "unacked w' = n" "freed \<longleftrightarrow> p_used p' < p_used p" "p_used p' \<le> p_used p"
    using ws used by simp_all
  then show "pool_ok p'" using ok by (simp add: pool_ok_def)
qed

lemma unacked_le:
  assumes "accounts S win p" "s \<in> S" "pool_ok p" "win_base (win s) \<le> u32_max"
  shows "unacked (win s) \<le> 2 * u32_max"
  using borrowed_le_used [OF assms(1,2)] assms(3,4)
  unfolding pool_ok_def borrowed_def borrowed_at_def by linarith

lemma window_add_accounts:
  assumes acc: "accounts S win p" and s: "s \<in> S" and ok: "pool_ok p"
    and base: "win_base (win s) \<le> u32_max" and len: "len \<le> u32_max"
    and add: "window_add (win s) p len = (w', p')"
  shows "accounts S (win(s := w')) p'" and "p_size p' = p_size p"
    and "win_base w' = win_base (win s)" and "unacked w' = unacked (win s) + len"
    and "p_used p' = p_used p - borrowed (win s) + (unacked (win s) + len - win_base (win s))"
proof -
  have ub: "unacked (win s) + len \<le> 3 * u32_max" using unacked_le [OF acc s ok base] len by simp
  then obtain f where set: "window_set (win s) p (unacked (win s) + len) = (w', p', f)"
    using add by (auto simp: window_add_eq u64_simps)
  have "p_used p - borrowed (win s) + (unacked (win s) + len - win_base (win s)) < u64_size"
    using ok ub unfolding pool_ok_def by linarith
  from window_set_accounts [OF acc s set this]
  show "accounts S (win(s := w')) p'" "p_size p' = p_size p" "win_base w' = win_base (win s)"
    "unacked w' = unacked (win s) + len"
    "p_used p' = p_used p - borrowed (win s) + (unacked (win s) + len - win_base (win s))" by simp_all
qed

lemma pool_room_le: "pool_room p \<le> p_size p"
  by (simp add: pool_room_def)

subsection \<open>The smoothed round trip time\<close>

lemma as_secs_f64_rnd [simp]: "rnd64 (as_secs_f64 d) = as_secs_f64 d"
  by (simp add: as_secs_f64_def f64.rnd_rnd)

lemma as_secs_f64_nonneg [simp]: "0 \<le> as_secs_f64 d"
  unfolding as_secs_f64_def by (intro f64.rnd_nonneg add_nonneg_nonneg divide_nonneg_nonneg) simp_all

lemma rnd64_numeral_secs: "rnd64 1000000000 = 1000000000" "rnd64 1 = 1"
    "rnd64 4503599627370496 = 4503599627370496"
  using rnd64_of_nat [of 1000000000] rnd64_of_nat [of 1] rnd64_of_nat [of "4503599627370496"] by simp_all

text \<open>Times of at most \<open>2 ^ 52\<close> seconds: far more than any connection lasts, and exact enough.\<close>

abbreviation secs_limit :: nat where
  "secs_limit \<equiv> 4503599627370496"

lemma as_secs_f64_le:
  assumes "d \<le> secs_limit * 1000000000"
  shows "as_secs_f64 d \<le> of_nat secs_limit"
proof -
  let ?s = "d div 1000000000" and ?n = "d mod 1000000000"
  have exact: "rnd64 (of_nat ?s) = of_nat ?s" "rnd64 (of_nat ?n) = of_nat ?n"
    using assms by (auto intro!: rnd64_of_nat)
  have frac: "rnd64 (of_nat ?n / 1000000000) \<le> (if ?n = 0 then 0 else 1)"
  proof (cases "?n = 0")
    case False
    have "?n \<le> 1000000000" by simp
    then have "(of_nat ?n :: rat) \<le> of_nat 1000000000" by (simp only: of_nat_le_iff)
    then have "(of_nat ?n / 1000000000 :: rat) \<le> 1" by simp
    then show ?thesis using False f64.rnd_le [OF rnd64_numeral_secs(2)] by simp
  qed (simp add: f64.rnd_zero)
  have "?s < secs_limit" if "?n \<noteq> 0"
  proof -
    have "d \<noteq> secs_limit * 1000000000" using that by auto
    then show ?thesis using assms by (intro less_mult_imp_div_less) simp
  qed
  then have "?s + (if ?n = 0 then 0 else 1) \<le> secs_limit" using assms by auto
  then have "of_nat (?s + (if ?n = 0 then 0 else 1)) \<le> (of_nat secs_limit :: rat)" by (simp only: of_nat_le_iff)
  then have "of_nat ?s + rnd64 (of_nat ?n / 1000000000) \<le> 4503599627370496"
    using frac by (simp split: if_splits)
  then have "rnd64 (of_nat ?s + rnd64 (of_nat ?n / 1000000000)) \<le> 4503599627370496"
    by (rule f64.rnd_le [OF rnd64_numeral_secs(3)])
  then show ?thesis by (simp add: as_secs_f64_def exact rnd64_numeral_secs)
qed

definition srtt_ok :: "srtt \<Rightarrow> bool" where
  [inv_defs]: "srtt_ok s \<longleftrightarrow> (\<forall>d. s = Some d \<longrightarrow> SRTT_MIN \<le> d \<and> d \<le> secs_limit * 1000000000)"

lemma from_secs_f64_le:
  assumes "0 \<le> v" "v \<le> of_nat secs_limit"
  shows "\<exists>d. from_secs_f64 v = Ok d \<and> d \<le> secs_limit * 1000000000"
proof -
  have "rne (v * 1000000000) \<le> rne (of_int (int secs_limit * 1000000000))"
    using assms by (intro rne_mono) simp
  then have "rne (v * 1000000000) \<le> int secs_limit * 1000000000" by (simp only: rne_of_int)
  then show ?thesis using assms(1) by (simp add: from_secs_f64_def nat_le_iff)
qed

lemma srtt_observe_ok:
  assumes "srtt_ok s" and "rtt \<le> secs_limit * 1000000000"
  shows "\<exists>d. srtt_observe s rtt = Ok (Some d) \<and> srtt_ok (Some d)"
proof (cases s)
  case None
  then show ?thesis
    using assms(2) by (auto simp: srtt_observe_def srtt_ok_def SRTT_MIN_def from_micros_def)
next
  case (Some srtt)
  let ?s = "as_secs_f64 srtt" and ?r = "as_secs_f64 rtt"
  let ?v = "rnd64 (?s + rnd64 (rnd64 (?r - ?s) * SRTT_GAIN))"
  have "srtt \<le> secs_limit * 1000000000" using assms(1) Some by (simp add: srtt_ok_def)
  then have "?s \<le> of_nat secs_limit" "?r \<le> of_nat secs_limit"
    using assms(2) as_secs_f64_le by blast+
  moreover have "?v \<le> max ?s ?r" "min ?s ?r \<le> ?v"
    by (rule f64.ewma_upper f64.ewma_lower; simp add: SRTT_GAIN_def)+
  ultimately have "0 \<le> ?v" "?v \<le> of_nat secs_limit"
    by (simp_all add: min_le_iff_disj le_max_iff_disj)
      (metis as_secs_f64_nonneg order_trans, linarith)
  then obtain d where "from_secs_f64 ?v = (Ok d :: (duration, 'a) rres)" "d \<le> secs_limit * 1000000000"
    using from_secs_f64_le by blast
  then show ?thesis
    by (auto simp: Some srtt_observe_def Let_def srtt_ok_def SRTT_MIN_def from_micros_def)
qed

lemma elapsed_le: "elapsed a b \<le> secs_limit * 1000000000"
  using unsigned_less [of "a - b", where ?'a = nat] by (simp add: elapsed_def from_micros_def)

text \<open>
  C25. Folding round trip samples into the smoothed round trip time never panics, whatever the
  timestamps on the wire are: the average of rounded doubles is neither negative nor too long for
  a \<^verbatim>\<open>Duration\<close>. The result is never empty again, and never below one microsecond.
\<close>

theorem srtt_observe_total:
  assumes "srtt_ok s"
  shows "\<exists>d. srtt_observe s (elapsed now t_echo) = (Ok (Some d) :: (srtt, 'e) rres)
    \<and> SRTT_MIN \<le> d \<and> srtt_ok (Some d)"
  using srtt_observe_ok [OF assms elapsed_le] by (auto simp: srtt_ok_def)

theorem srtt_observe_total_witness:
  "\<exists>d. srtt_observe None (elapsed 3 4294967293) = (Ok (Some d) :: (srtt, unit) rres) \<and> SRTT_MIN \<le> d"
  using srtt_observe_total [of None 3 4294967293] by (auto simp: srtt_ok_def)

subsection \<open>The rate estimate\<close>

definition rate_ok :: "rate_estimate \<Rightarrow> bool" where
  [inv_defs]: "rate_ok r \<longleftrightarrow> rnd64 (rate r) = rate r \<and> 0 \<le> rate r"

text \<open>What the code relies on of the exponential function on negative arguments.\<close>

definition fexp_decays :: "(f64 \<Rightarrow> f64) \<Rightarrow> bool" where
  "fexp_decays fexp \<longleftrightarrow> (\<forall>x \<le> 0. 0 \<le> fexp x \<and> fexp x \<le> 1)"

lemma decay_arg: "0 < tau \<Longrightarrow> rnd64 (- as_secs_f64 d / tau) \<le> 0"
  using f64.rnd_mono [of "- as_secs_f64 d / tau" 0] by (simp add: f64.rnd_zero)

lemma rate_value_bounds:
  assumes "fexp_decays fexp" "rate_ok r" "0 < tau"
  shows "0 \<le> rate_value fexp r now tau" and "rate_value fexp r now tau \<le> rate r"
    and "rnd64 (rate_value fexp r now tau) = rate_value fexp r now tau"
  using assms decay_arg [of tau]
  by (auto simp: rate_value_def Let_def rate_ok_def fexp_decays_def f64.rnd_rnd intro!: f64.decay_le)

lemma rate_new_ok: "rate_ok (rate_new now)"
  by (simp add: rate_ok_def rate_new_def f64.rnd_zero)

lemma rate_add_ok:
  assumes "fexp_decays fexp" "rate_ok r" "0 < tau"
  shows "rate_ok (rate_add fexp r bytes now tau)"
  using rate_value_bounds [OF assms] assms(3)
  by (auto simp: rate_add_def rate_add_amount_def rate_ok_def f64.rnd_rnd
      simp del: of_nat_unat intro!: f64.rnd_nonneg add_nonneg_nonneg divide_nonneg_nonneg)

lemma allowance_bounds:
  assumes "fexp_decays fexp" "rate_ok r" "0 < srtt"
  shows "0 \<le> allowance fexp r now srtt"
    and "allowance fexp r now srtt \<le> rnd64 (rnd64 (rate r * ALLOWANCE_RTTS) * srtt)"
  using rate_value_bounds [OF assms, of now] assms(3)
  by (auto simp: allowance_def ALLOWANCE_RTTS_def intro!: mult_nonneg_nonneg f64.rnd_nonneg f64.rnd_mono mult_right_mono)

lemma allowance_new: "allowance fexp (rate_new t) now srtt = 0"
  by (simp add: allowance_def rate_value_def Let_def rate_new_def f64.rnd_zero)

end
