(* ===== verification/Turns.thy ===== *)
theory Turns
  imports Pin_List Flow
begin

text \<open>
  The queue of streams that wait for their turn to borrow from the peer's pool
  (\<^verbatim>\<open>src/stream/turns.rs\<close>), the state that the streams of a connection share
  (\<^verbatim>\<open>src/stream/conn_flow.rs\<close>), and the slots for wakers (\<^verbatim>\<open>src/stream/waker.rs\<close>).

  A stream is its \<^verbatim>\<open>StreamRef\<close>, the address of its shared state. The queue is the sequence of the
  waiting streams, which the intrusive list of theory \<open>Pin_List\<close> implements: both are
  interpretations of the locale \<open>turn_queue\<close>, and the lemma \<open>turns_refine\<close> relates them. Waking is
  an effect that the operations report: \<open>WakeUpdates s\<close> is a call of \<^verbatim>\<open>updates.wake()\<close> on the stream
  \<open>s\<close>, and \<open>WakeTask w\<close> a call of the waker \<open>w\<close> that an application task registered.
\<close>

section \<open>Definitions\<close>

type_synonym sref = addr

datatype wake = WakeUpdates sref | WakeTask nat

subsection \<open>Waker slots\<close>

type_synonym waker = nat

type_synonym waker_slot = "waker option"

fun slot_register :: "waker_slot \<Rightarrow> waker \<Rightarrow> waker_slot" where
  "slot_register (Some prev) w = (if prev = w then Some prev else Some w)"
| "slot_register None w = Some w"

fun slot_wake :: "waker_slot \<Rightarrow> waker_slot \<times> wake list" where
  "slot_wake (Some w) = (None, [WakeTask w])"
| "slot_wake None = (None, [])"

subsection \<open>Turns\<close>

type_synonym turns = "sref list"

definition seq_front :: "'a list \<Rightarrow> 'a option" where
  "seq_front q = (case q of [] \<Rightarrow> None | x # _ \<Rightarrow> Some x)"

definition seq_push_back :: "'a list \<Rightarrow> 'a \<Rightarrow> 'a list \<times> bool" where
  "seq_push_back q x = (if x \<in> set q then (q, False) else (q @ [x], True))"

definition seq_remove :: "'a list \<Rightarrow> 'a \<Rightarrow> 'a list \<times> bool" where
  "seq_remove q x = (remove1 x q, x \<in> set q)"

definition turns_len :: "turns \<Rightarrow> nat" where
  "turns_len q = length q"

definition has_turn :: "turns \<Rightarrow> sref \<Rightarrow> bool" where
  "has_turn q s = (case seq_front q of None \<Rightarrow> True | Some f \<Rightarrow> f = s)"

definition turns_join :: "turns \<Rightarrow> sref \<Rightarrow> turns" where
  "turns_join q s = fst (seq_push_back q s)"

definition turns_leave :: "turns \<Rightarrow> sref \<Rightarrow> turns \<times> bool" where
  "turns_leave q s = seq_remove q s"

definition wake_front :: "turns \<Rightarrow> wake list" where
  "wake_front q = (case seq_front q of None \<Rightarrow> [] | Some f \<Rightarrow> [WakeUpdates f])"

subsection \<open>The state shared by the streams of a connection\<close>

record conn_flow =
  cf_srtt :: srtt
  rx_pool :: pool
  tx_pool :: pool
  turns :: turns

definition conn_flow_new :: "u32 \<Rightarrow> u32 \<Rightarrow> conn_flow" where
  "conn_flow_new rx tx = \<lparr>cf_srtt = None, rx_pool = pool_new rx, tx_pool = pool_new tx, turns = []\<rparr>"

definition pass_turn :: "conn_flow \<Rightarrow> sref \<Rightarrow> conn_flow \<times> wake list" where
  "pass_turn flow s =
     (let (q, left) = turns_leave (turns flow) s; flow = flow\<lparr>turns := q\<rparr>
      in (flow, if left \<and> has_room (tx_pool flow) then wake_front q else []))"

section \<open>Lemmas\<close>

interpretation lst: turn_queue distinct "\<lambda>q. q" seq_front "\<lambda>q x. x \<in> set q" length seq_push_back seq_remove
  by unfold_locales
    (auto simp: seq_front_def seq_push_back_def seq_remove_def distinct_remove1 split: list.split)

lemma slot_register_eq [simp]: "slot_register s w = Some w"
  by (cases s) auto

lemma has_turn_iff: "has_turn q s \<longleftrightarrow> q = [] \<or> hd q = s"
  by (auto simp: has_turn_def seq_front_def split: list.split)

lemma turns_join_eq: "turns_join q s = (if s \<in> set q then q else q @ [s])"
  by (simp add: turns_join_def seq_push_back_def)

lemma turns_leave_eq: "turns_leave q s = (remove1 s q, s \<in> set q)"
  by (simp add: turns_leave_def seq_remove_def)

lemma wake_front_eq: "wake_front q = (if q = [] then [] else [WakeUpdates (hd q)])"
  by (auto simp: wake_front_def seq_front_def split: list.split)

lemma set_wake_front: "WakeUpdates f \<in> set (wake_front q) \<longleftrightarrow> q \<noteq> [] \<and> hd q = f"
  by (auto simp: wake_front_eq)

lemma distinct_turns [simp, intro]:
  "distinct q \<Longrightarrow> distinct (turns_join q s)" "distinct q \<Longrightarrow> distinct (fst (turns_leave q s))"
  by (simp_all add: turns_join_eq turns_leave_eq distinct_remove1)

lemma pass_turn_fields [simp]:
  "cf_srtt (fst (pass_turn f s)) = cf_srtt f" "rx_pool (fst (pass_turn f s)) = rx_pool f"
  "tx_pool (fst (pass_turn f s)) = tx_pool f" "turns (fst (pass_turn f s)) = remove1 s (turns f)"
  by (simp_all add: pass_turn_def Let_def turns_leave_eq)

lemma pass_turn_wakes:
  "snd (pass_turn f s) =
     (if s \<in> set (turns f) \<and> has_room (tx_pool f) then wake_front (remove1 s (turns f)) else [])"
  by (simp add: pass_turn_def Let_def turns_leave_eq)

text \<open>
  C21. The turn queue on the intrusive list and on the sequence of waiting streams agree: whether
  a stream has its turn, and the queue after joining and after leaving, are the same for a list
  in memory and for the sequence of its elements.
\<close>

theorem turns_refine:
  assumes "pin_inv q"
  shows "(case pl_front (fst q) of None \<Rightarrow> True | Some f \<Rightarrow> f = s) = has_turn (pin_seq q) s
    \<and> pin_seq (fst (pin_push_back q s)) = turns_join (pin_seq q) s
    \<and> pin_seq (fst (pin_remove q s)) = fst (turns_leave (pin_seq q) s)
    \<and> snd (pin_remove q s) = snd (turns_leave (pin_seq q) s)
    \<and> pl_len (fst q) = turns_len (pin_seq q)
    \<and> pin_inv (fst (pin_push_back q s)) \<and> pin_inv (fst (pin_remove q s))"
  using assms pin.queue_laws [OF assms]
  by (auto simp: has_turn_iff turns_join_eq turns_leave_eq turns_len_def)

theorem turns_refine_witness:
  "pin_seq (fst (pin_push_back (fst (pl_new 7), \<lambda>_. node_new 2) 4)) = [4]"
proof -
  have rep: "pin_list_rep (fst (pl_new 7)) (\<lambda>_. node_new 2) []"
    by (rule pl_new_rep) (simp_all add: node_new_def)
  then have "pin_inv (fst (pl_new 7), \<lambda>_. node_new 2)"
    by (rule pin_invI) (simp add: node_new_def)
  from turns_refine [OF this, of 4] show ?thesis
    by (simp add: rep_seq [OF rep] turns_join_eq)
qed

end
