(* ===== verification/Inbound.thy ===== *)
theory Inbound
  imports Turns Rammux_Error "HOL-Library.Sublist"
begin

text \<open>
  The receiving direction of a stream (\<^verbatim>\<open>src/stream/inbound.rs\<close>) and the \<^verbatim>\<open>FinState\<close> of
  \<^verbatim>\<open>src/stream.rs\<close>. The list of received chunks is the sequence of their bytes (theory \<open>Buffer\<close>
  verifies the linked list behind it). Operations return the new state and the wake-ups they
  cause; a violated expectation of the code is \<open>Panic\<close>.

  The invariant \<open>in_inv\<close> says that the window counts exactly the bytes that are queued or read and
  not credited; every operation keeps it. \<open>in_reach\<close> are the states of a direction together with a
  record of what was received, read by the application and credited, after any sequence of
  operations: data is delivered in order, without loss or duplication, credit never exceeds what
  was read, the end of the stream is reported only after everything was read, and \<^verbatim>\<open>FIN_READ\<close> is
  sent once.
\<close>

section \<open>Definitions\<close>

subsection \<open>FIN states\<close>

record fin_state =
  sent :: bool
  received :: bool

definition fin_default :: fin_state where
  "fin_default = \<lparr>sent = False, received = False\<rparr>"

definition is_dead :: "fin_state \<Rightarrow> bool" where
  "is_dead f \<longleftrightarrow> sent f \<and> received f"

definition fin_and :: "fin_state \<Rightarrow> fin_state \<Rightarrow> fin_state" where
  "fin_and f g = \<lparr>sent = sent f \<and> sent g, received = received f \<and> received g\<rparr>"

subsection \<open>State\<close>

type_synonym data = "u8 list"

definition data_push_back :: "data list \<Rightarrow> data \<Rightarrow> data list" where
  "data_push_back ds d = (if d = [] then ds else ds @ [d])"

datatype inbound_state =
    InOpen "data list" waker_slot
  | InHalfClosed "data list"
  | InClosed fin_state

record inbound =
  in_state :: inbound_state
  in_window :: window
  in_credit :: u64
  in_threshold :: u64

definition in_new :: "u32 \<Rightarrow> inbound" where
  "in_new base = \<lparr>in_state = InOpen [] None, in_window = window_new base, in_credit = 0,
     in_threshold = credit_threshold base\<rparr>"

definition in_fin_state :: "inbound \<Rightarrow> fin_state" where
  "in_fin_state i = (case in_state i of
      InOpen _ _ \<Rightarrow> fin_default | InHalfClosed _ \<Rightarrow> fin_default | InClosed f \<Rightarrow> f)"

subsection \<open>The application side\<close>

text \<open>The common end of \<^verbatim>\<open>poll_read\<close>: the chunk that is read becomes credit.\<close>

definition in_chunk_read :: "inbound \<Rightarrow> data \<Rightarrow> sref \<Rightarrow> wake list \<Rightarrow> data option poll \<times> inbound \<times> wake list" where
  "in_chunk_read i d me ws =
     (let i = i\<lparr>in_credit := add_u64 (in_credit i) (length d)\<rparr>
      in (Ready (Some d), i, ws @ (if in_credit i \<ge> in_threshold i then [WakeUpdates me] else [])))"

definition in_poll_read :: "inbound \<Rightarrow> waker \<Rightarrow> sref \<Rightarrow> (data option poll \<times> inbound \<times> wake list, unit) rres" where
  "in_poll_read i w me =
     (case in_state i of
        InOpen ds reader \<Rightarrow>
          (case ds of
             [] \<Rightarrow> Ok (Pending, i\<lparr>in_state := InOpen [] (slot_register reader w)\<rparr>, [])
           | d # ds' \<Rightarrow> Ok (in_chunk_read (i\<lparr>in_state := InOpen ds' reader\<rparr>) d me []))
      | InHalfClosed ds \<Rightarrow>
          (case ds of
             [] \<Rightarrow> Panic
           | d # ds' \<Rightarrow>
               if ds' = [] then
                 Ok (in_chunk_read (i\<lparr>in_state := InClosed \<lparr>sent = False, received = True\<rparr>\<rparr>) d me
                       [WakeUpdates me])
               else Ok (in_chunk_read (i\<lparr>in_state := InHalfClosed ds'\<rparr>) d me []))
      | InClosed _ \<Rightarrow> Ok (Ready None, i, []))"

definition in_close_reading :: "inbound \<Rightarrow> sref \<Rightarrow> inbound \<times> wake list" where
  "in_close_reading i me =
     (case in_state i of
        InOpen _ _ \<Rightarrow> (i\<lparr>in_state := InClosed \<lparr>sent = False, received = False\<rparr>\<rparr>, [WakeUpdates me])
      | InHalfClosed _ \<Rightarrow> (i\<lparr>in_state := InClosed \<lparr>sent = False, received = True\<rparr>\<rparr>, [WakeUpdates me])
      | InClosed _ \<Rightarrow> (i, []))"

subsection \<open>The connection side\<close>

definition in_poll_update :: "inbound \<Rightarrow> pool \<Rightarrow> (u32 \<times> bool) poll \<times> inbound \<times> pool" where
  "in_poll_update i p =
     (case in_state i of
        InClosed f \<Rightarrow>
          if sent f then (Pending, i, p)
          else
            let (w, p, _) = window_set (in_window i) p 0
            in (Ready (0, True), i\<lparr>in_state := InClosed (f\<lparr>sent := True\<rparr>), in_credit := 0, in_window := w\<rparr>, p)
      | _ \<Rightarrow>
          if in_credit i < in_threshold i then (Pending, i, p)
          else
            let credit = (if in_credit i \<le> u32_max then in_credit i else u32_max);
                (w, p, _) = window_set (in_window i) p (sub_u64 (unacked (in_window i)) credit)
            in (Ready (word_of_nat credit, False),
                i\<lparr>in_credit := sub_u64 (in_credit i) credit, in_window := w\<rparr>, p))"

definition in_count :: "window \<Rightarrow> pool \<Rightarrow> u64 \<Rightarrow> (window \<times> pool, stream_error) rres" where
  "in_count w p len =
     (let (w, p) = window_add w p len in
      if is_overdrawn p then Err (StreamError ''exceeded the receive pool'') else Ok (w, p))"

definition in_received_data :: "inbound \<Rightarrow> data \<Rightarrow> pool \<Rightarrow> (inbound \<times> pool \<times> wake list, stream_error) rres" where
  "in_received_data i d p =
     (if length d = 0 then Ok (i, p, [])
      else case in_state i of
        InOpen ds reader \<Rightarrow>
          r_bind (in_count (in_window i) p (length d)) (\<lambda>(w, p).
            let (reader, ws) = slot_wake reader
            in Ok (i\<lparr>in_window := w, in_state := InOpen (data_push_back ds d) reader\<rparr>, p, ws))
      | InHalfClosed _ \<Rightarrow> Err (StreamError ''sent data after FIN_WRITE'')
      | InClosed f \<Rightarrow>
          if received f then Err (StreamError ''sent data after FIN_WRITE'')
          else if \<not> sent f then
            r_bind (in_count (in_window i) p (length d)) (\<lambda>(w, p). Ok (i\<lparr>in_window := w\<rparr>, p, []))
          else Ok (i, p, []))"

definition in_received_fin_write :: "inbound \<Rightarrow> sref \<Rightarrow> (inbound \<times> wake list, stream_error) rres" where
  "in_received_fin_write i me =
     (case in_state i of
        InOpen ds reader \<Rightarrow>
          if ds \<noteq> [] then Ok (i\<lparr>in_state := InHalfClosed ds\<rparr>, [])
          else Ok (i\<lparr>in_state := InClosed \<lparr>sent = False, received = True\<rparr>\<rparr>,
                   WakeUpdates me # snd (slot_wake reader))
      | InHalfClosed _ \<Rightarrow> Err (StreamError ''sent duplicate FIN_WRITE'')
      | InClosed f \<Rightarrow>
          if received f then Err (StreamError ''sent duplicate FIN_WRITE'')
          else Ok (i\<lparr>in_state := InClosed (f\<lparr>received := True\<rparr>)\<rparr>, []))"

subsection \<open>The invariant\<close>

definition bytes_in :: "data list \<Rightarrow> nat" where
  "bytes_in ds = sum_list (map length ds)"

definition in_queued :: "inbound \<Rightarrow> data list" where
  "in_queued i = (case in_state i of InOpen ds _ \<Rightarrow> ds | InHalfClosed ds \<Rightarrow> ds | InClosed _ \<Rightarrow> [])"

definition in_inv :: "inbound \<Rightarrow> bool" where
  [inv_defs]: "in_inv i \<longleftrightarrow>
     0 < in_threshold i \<and> in_threshold i \<le> 32768
     \<and> win_base (in_window i) \<le> u32_max \<and> unacked (in_window i) < u64_size \<and> [] \<notin> set (in_queued i)
     \<and> (case in_state i of
          InOpen ds reader \<Rightarrow> unacked (in_window i) = in_credit i + bytes_in ds \<and> (ds \<noteq> [] \<longrightarrow> reader = None)
        | InHalfClosed ds \<Rightarrow> ds \<noteq> [] \<and> unacked (in_window i) = in_credit i + bytes_in ds
        | InClosed f \<Rightarrow> in_credit i \<le> unacked (in_window i) \<and> (sent f \<longrightarrow> unacked (in_window i) = 0))"

text \<open>The task of the application that waits for data.\<close>

definition in_reader :: "inbound \<Rightarrow> waker_slot" where
  "in_reader i = (case in_state i of InOpen _ reader \<Rightarrow> reader | _ \<Rightarrow> None)"

definition peer_finished :: "inbound \<Rightarrow> bool" where
  "peer_finished i = (case in_state i of InOpen _ _ \<Rightarrow> False | InHalfClosed _ \<Rightarrow> True | InClosed f \<Rightarrow> received f)"

definition fin_read_sent :: "inbound \<Rightarrow> bool" where
  "fin_read_sent i = (case in_state i of InClosed f \<Rightarrow> sent f | _ \<Rightarrow> False)"

subsection \<open>Histories\<close>

text \<open>
  The bytes that arrived and that the application read, the credit that was sent, the number of
  \<^verbatim>\<open>FIN_READ\<close> that were sent, whether the application stopped reading, and whether it was told of
  the end of the stream. The pool of the connection is also used by the other streams, so each
  operation may find a different one, in which this stream is accounted for.
\<close>

record in_trace =
  tr_in :: inbound
  tr_arrived :: "u8 list"
  tr_read :: "u8 list"
  tr_credit :: nat
  tr_fins :: nat
  tr_stopped :: bool
  tr_eof :: bool

definition in_trace_new :: "u32 \<Rightarrow> in_trace" where
  "in_trace_new base = \<lparr>tr_in = in_new base, tr_arrived = [], tr_read = [], tr_credit = 0, tr_fins = 0,
     tr_stopped = False, tr_eof = False\<rparr>"

definition pool_counts :: "pool \<Rightarrow> window \<Rightarrow> bool" where
  "pool_counts p w \<longleftrightarrow> pool_ok p \<and> borrowed w \<le> p_used p"

definition log_read :: "in_trace \<Rightarrow> data option poll \<Rightarrow> inbound \<Rightarrow> in_trace" where
  "log_read t r i = (case r of
      Pending \<Rightarrow> t\<lparr>tr_in := i\<rparr>
    | Ready None \<Rightarrow> t\<lparr>tr_in := i, tr_eof := True\<rparr>
    | Ready (Some d) \<Rightarrow> t\<lparr>tr_in := i, tr_read := tr_read t @ d\<rparr>)"

definition log_update :: "in_trace \<Rightarrow> (u32 \<times> bool) poll \<Rightarrow> inbound \<Rightarrow> in_trace" where
  "log_update t r i = (case r of
      Pending \<Rightarrow> t\<lparr>tr_in := i\<rparr>
    | Ready (c, fin) \<Rightarrow> t\<lparr>tr_in := i, tr_credit := tr_credit t + unat c,
        tr_fins := tr_fins t + (if fin then 1 else 0)\<rparr>)"

inductive in_reach :: "sref \<Rightarrow> u32 \<Rightarrow> in_trace \<Rightarrow> bool" for me :: sref and base :: u32 where
  start: "in_reach me base (in_trace_new base)"
| read: "in_reach me base t \<Longrightarrow> in_poll_read (tr_in t) w me = Ok (r, i, ws) \<Longrightarrow> in_reach me base (log_read t r i)"
| close: "in_reach me base t \<Longrightarrow> in_close_reading (tr_in t) me = (i, ws) \<Longrightarrow>
    in_reach me base (t\<lparr>tr_in := i, tr_stopped := True\<rparr>)"
| update: "in_reach me base t \<Longrightarrow> pool_counts p (in_window (tr_in t)) \<Longrightarrow>
    in_poll_update (tr_in t) p = (r, i, p') \<Longrightarrow> in_reach me base (log_update t r i)"
| data: "in_reach me base t \<Longrightarrow> pool_counts p (in_window (tr_in t)) \<Longrightarrow> length d \<le> u32_max \<Longrightarrow>
    in_received_data (tr_in t) d p = Ok (i, p', ws) \<Longrightarrow>
    in_reach me base (t\<lparr>tr_in := i, tr_arrived := tr_arrived t @ d\<rparr>)"
| fin_write: "in_reach me base t \<Longrightarrow> in_received_fin_write (tr_in t) me = Ok (i, ws) \<Longrightarrow>
    in_reach me base (t\<lparr>tr_in := i\<rparr>)"

definition trace_inv :: "in_trace \<Rightarrow> bool" where
  [inv_defs]: "trace_inv t \<longleftrightarrow> in_inv (tr_in t) \<and> tr_credit t \<le> length (tr_read t)
     \<and> prefix (tr_read t) (tr_arrived t)
     \<and> (case in_state (tr_in t) of
          InClosed f \<Rightarrow> tr_fins t = (if sent f then 1 else 0)
            \<and> (\<not> tr_stopped t \<longrightarrow> received f \<and> tr_read t = tr_arrived t)
        | _ \<Rightarrow> tr_fins t = 0 \<and> \<not> tr_eof t \<and> tr_arrived t = tr_read t @ concat (in_queued (tr_in t))
            \<and> tr_credit t + in_credit (tr_in t) = length (tr_read t))"

section \<open>Lemmas\<close>

lemma bytes_in_simps [simp]:
  "bytes_in [] = 0" "bytes_in (d # ds) = length d + bytes_in ds" "bytes_in (ds @ es) = bytes_in ds + bytes_in es"
  by (simp_all add: bytes_in_def)

lemma length_concat_bytes_in: "length (concat ds) = bytes_in ds"
  by (simp add: bytes_in_def length_concat)

lemma in_new_inv: "in_inv (in_new base)"
  using unat_le_u32_max [of base] by (simp add: in_inv_def in_new_def in_queued_def window_new_def credit_threshold_eq)

lemma in_credit_le: "in_inv i \<Longrightarrow> in_credit i \<le> unacked (in_window i)"
  by (auto simp: in_inv_def split: inbound_state.splits)

text \<open>Reading never panics: a half-closed direction has data.\<close>

lemma in_poll_read_not_Panic: "in_inv i \<Longrightarrow> in_poll_read i w me \<noteq> Panic"
  by (auto simp: in_inv_def in_poll_read_def split: inbound_state.splits list.splits)

lemma in_poll_read_not_Err: "in_poll_read i w me \<noteq> Err e"
  by (auto simp: in_poll_read_def split: inbound_state.splits list.splits)

lemma in_chunk_read_fields:
  "fst (in_chunk_read i d me ws) = Ready (Some d)"
  "in_state (fst (snd (in_chunk_read i d me ws))) = in_state i"
  "in_window (fst (snd (in_chunk_read i d me ws))) = in_window i"
  "in_threshold (fst (snd (in_chunk_read i d me ws))) = in_threshold i"
  "in_credit (fst (snd (in_chunk_read i d me ws))) = add_u64 (in_credit i) (length d)"
  by (simp_all add: in_chunk_read_def Let_def)

lemma in_poll_read_half:
  assumes "in_state i = InHalfClosed (d # ds)" "in_poll_read i w me = Ok (r, i', ws)"
  shows "r = Ready (Some d)" "in_window i' = in_window i" "in_threshold i' = in_threshold i"
    "in_credit i' = add_u64 (in_credit i) (length d)"
    "in_state i' = (if ds = [] then InClosed \<lparr>sent = False, received = True\<rparr> else InHalfClosed ds)"
proof -
  define st where "st = (if ds = [] then InClosed \<lparr>sent = False, received = True\<rparr> else InHalfClosed ds)"
  define ws0 where "ws0 = (if ds = [] then [WakeUpdates me] else [])"
  have "in_chunk_read (i\<lparr>in_state := st\<rparr>) d me ws0 = (r, i', ws)"
    using assms by (simp add: in_poll_read_def st_def ws0_def split: if_splits)
  then show "r = Ready (Some d)" "in_window i' = in_window i" "in_threshold i' = in_threshold i"
    "in_credit i' = add_u64 (in_credit i) (length d)"
    "in_state i' = (if ds = [] then InClosed \<lparr>sent = False, received = True\<rparr> else InHalfClosed ds)"
    using in_chunk_read_fields [of "i\<lparr>in_state := st\<rparr>" d me ws0] by (simp_all add: st_def)
qed

lemma in_poll_read_cases:
  assumes "in_poll_read i w me = Ok (r, i', ws)"
  obtains
    (pending) reader where "in_state i = InOpen [] reader" "r = Pending"
      "i' = i\<lparr>in_state := InOpen [] (Some w)\<rparr>"
  | (chunk) d ds where "in_queued i = d # ds" "r = Ready (Some d)"
      "in_window i' = in_window i" "in_threshold i' = in_threshold i"
      "in_credit i' = add_u64 (in_credit i) (length d)"
      "(\<exists>reader. in_state i = InOpen (d # ds) reader \<and> in_state i' = InOpen ds reader)
       \<or> in_state i = InHalfClosed (d # ds)
         \<and> in_state i' = (if ds = [] then InClosed \<lparr>sent = False, received = True\<rparr> else InHalfClosed ds)"
  | (eof) f where "in_state i = InClosed f" "r = Ready None" "i' = i"
proof (cases "in_state i")
  case (InOpen ds reader)
  show thesis
  proof (cases ds)
    case Nil
    then show thesis using InOpen assms pending by (auto simp: in_poll_read_def)
  next
    case (Cons d ds')
    then have "in_chunk_read (i\<lparr>in_state := InOpen ds' reader\<rparr>) d me [] = (r, i', ws)"
      using InOpen assms by (simp add: in_poll_read_def)
    then show thesis
      using in_chunk_read_fields [of "i\<lparr>in_state := InOpen ds' reader\<rparr>" d me "[]"] InOpen Cons
      by (intro chunk) (auto simp: in_queued_def)
  qed
next
  case (InHalfClosed ds)
  show thesis
  proof (cases ds)
    case Nil
    then show thesis using InHalfClosed assms by (simp add: in_poll_read_def)
  next
    case (Cons d ds')
    then have st: "in_state i = InHalfClosed (d # ds')" by (simp add: InHalfClosed)
    then have q: "in_queued i = d # ds'" by (simp add: in_queued_def)
    note f = in_poll_read_half [OF st assms]
    show thesis by (rule chunk [OF q f(1-4)]) (rule disjI2, rule conjI [OF st f(5)])
  qed
next
  case (InClosed f)
  then show thesis using assms by (intro eof [of f]) (simp_all add: in_poll_read_def)
qed

lemma in_poll_read_inv:
  assumes inv: "in_inv i" and "in_poll_read i w me = Ok (r, i', ws)"
  shows "in_inv i' \<and> in_window i' = in_window i \<and> in_threshold i' = in_threshold i"
  using assms(2)
proof (cases rule: in_poll_read_cases)
  case (pending reader)
  then show ?thesis using inv by (simp add: in_inv_def in_queued_def)
next
  case (chunk d ds)
  then have "in_credit i + length d \<le> unacked (in_window i)"
    using inv by (auto simp: in_inv_def)
  moreover from this have "in_credit i' = in_credit i + length d"
    using chunk(5) inv by (simp add: in_inv_def u64_simps)
  ultimately show ?thesis
    using inv chunk by (auto simp: in_inv_def in_queued_def split: if_splits)
next
  case (eof f)
  then show ?thesis using inv by simp
qed

lemma in_close_reading_inv:
  "in_inv i \<Longrightarrow> in_inv (fst (in_close_reading i me)) \<and> in_window (fst (in_close_reading i me)) = in_window i
     \<and> in_threshold (fst (in_close_reading i me)) = in_threshold i"
  by (auto simp: in_inv_def in_close_reading_def in_queued_def split: inbound_state.splits)

lemma in_received_fin_write_inv:
  "in_inv i \<Longrightarrow> in_received_fin_write i me = Ok (i', ws) \<Longrightarrow>
     in_inv i' \<and> in_window i' = in_window i \<and> in_threshold i' = in_threshold i"
  by (auto simp: in_inv_def in_received_fin_write_def in_queued_def split: inbound_state.splits if_splits)

text \<open>What the connection side does to the window, for the accounting of the pool.\<close>

lemma in_poll_update_cases:
  assumes inv: "in_inv i" and upd: "in_poll_update i p = (r, i', p')"
  obtains
    (pending) "r = Pending" "i' = i" "p' = p"
  | (credit) c f where "r = Ready (word_of_nat c, False)" "0 < c" "c \<le> u32_max" "c \<le> in_credit i"
      "window_set (in_window i) p (unacked (in_window i) - c) = (in_window i', p', f)"
      "in_credit i' = in_credit i - c" "in_state i' = in_state i" "in_threshold i' = in_threshold i"
      "\<not> (\<exists>f. in_state i = InClosed f)"
  | (fin) f g where "r = Ready (0, True)" "in_state i = InClosed f" "\<not> sent f"
      "in_state i' = InClosed (f\<lparr>sent := True\<rparr>)" "in_credit i' = 0" "in_threshold i' = in_threshold i"
      "window_set (in_window i) p 0 = (in_window i', p', g)"
proof (cases "\<exists>f. in_state i = InClosed f")
  case True
  then obtain f where f: "in_state i = InClosed f" by blast
  obtain w q g where w: "window_set (in_window i) p 0 = (w, q, g)" by (cases "window_set (in_window i) p 0")
  show thesis
  proof (cases "sent f")
    case True
    then show thesis using upd f pending by (simp add: in_poll_update_def)
  next
    case False
    then have "r = Ready (0, True)" "i' = i\<lparr>in_state := InClosed (f\<lparr>sent := True\<rparr>), in_credit := 0, in_window := w\<rparr>" "p' = q"
      using upd f w by (simp_all add: in_poll_update_def)
    then show thesis using f w False by (intro fin [of f g]) simp_all
  qed
next
  case False
  define c where "c = (if in_credit i \<le> u32_max then in_credit i else u32_max)"
  obtain w q g where w: "window_set (in_window i) p (sub_u64 (unacked (in_window i)) c) = (w, q, g)"
    by (cases "window_set (in_window i) p (sub_u64 (unacked (in_window i)) c)")
  have le: "c \<le> in_credit i" "c \<le> unacked (in_window i)" "c \<le> u32_max"
    using in_credit_le [OF inv] by (auto simp: c_def)
  have eq: "in_poll_update i p =
      (if in_credit i < in_threshold i then (Pending, i, p)
       else (Ready (word_of_nat c, False), i\<lparr>in_credit := sub_u64 (in_credit i) c, in_window := w\<rparr>, q))"
    using False w unfolding in_poll_update_def Let_def c_def [symmetric]
    by (cases "in_state i") simp_all
  show thesis
  proof (cases "in_credit i < in_threshold i")
    case True
    then show thesis using upd eq pending by simp
  next
    case thr: False
    have "0 < c" using thr inv by (auto simp: c_def in_inv_def)
    moreover have "r = Ready (word_of_nat c, False)"
      "i' = i\<lparr>in_credit := in_credit i - c, in_window := w\<rparr>" "p' = q"
      using upd eq thr le by (simp_all add: u64_simps)
    ultimately show thesis
      using False w le by (intro credit [of c g]) (simp_all add: u64_simps)
  qed
qed

lemma in_poll_update_inv:
  assumes inv: "in_inv i" and upd: "in_poll_update i p = (r, i', p')"
  shows "in_inv i' \<and> in_threshold i' = in_threshold i"
  using inv upd
proof (cases rule: in_poll_update_cases)
  case pending
  then show ?thesis using inv by simp
next
  case (credit c f)
  have "unacked (in_window i') = unacked (in_window i) - c" "win_base (in_window i') = win_base (in_window i)"
    using window_set_fields(1,2) [of "in_window i" p "unacked (in_window i) - c"] credit(5) by simp_all
  then show ?thesis using inv credit
    by (auto simp: in_inv_def in_queued_def split: inbound_state.splits)
next
  case (fin f g)
  have "unacked (in_window i') = 0" "win_base (in_window i') = win_base (in_window i)"
    using window_set_fields(1,2) [of "in_window i" p 0] fin(7) by simp_all
  then show ?thesis using inv fin by (simp add: in_inv_def in_queued_def)
qed

lemma in_poll_update_ok:
  assumes inv: "in_inv i" and acc: "accounts S win p" and s: "s \<in> S" and w: "win s = in_window i" and ok: "pool_ok p"
    and upd: "in_poll_update i p = (r, i', p')"
  shows "in_inv i'" and "accounts S (win(s := in_window i')) p'" and "pool_ok p'" and "p_size p' = p_size p"
    and "win_base (in_window i') = win_base (in_window i)" and "in_threshold i' = in_threshold i"
proof -
  show "in_inv i'" "in_threshold i' = in_threshold i" using in_poll_update_inv [OF inv upd] by simp_all
  have "accounts S (win(s := in_window i')) p' \<and> pool_ok p' \<and> p_size p' = p_size p
    \<and> win_base (in_window i') = win_base (in_window i)"
    using inv upd
  proof (cases rule: in_poll_update_cases)
    case pending
    then show ?thesis using acc ok w by (simp add: fun_upd_idem)
  next
    case (credit c f)
    from window_set_le(1-4) [OF acc s ok credit(5) [folded w]] show ?thesis by (simp add: w)
  next
    case (fin f g)
    from window_set_le(1-4) [OF acc s ok fin(7) [folded w]] show ?thesis by (simp add: w)
  qed
  then show "accounts S (win(s := in_window i')) p'" "pool_ok p'" "p_size p' = p_size p"
    "win_base (in_window i') = win_base (in_window i)" by blast+
qed

subsection \<open>Received data\<close>

lemma in_count_accounts:
  assumes "accounts S win p" "s \<in> S" "pool_ok p" "win_base (win s) \<le> u32_max" "len \<le> u32_max"
    and "in_count (win s) p len = Ok (w', p')"
  shows "accounts S (win(s := w')) p'" and "pool_ok p'" and "p_size p' = p_size p"
    and "win_base w' = win_base (win s)" and "unacked w' = unacked (win s) + len"
proof -
  from assms(6) have add: "window_add (win s) p len = (w', p')" and "\<not> is_overdrawn p'"
    by (auto simp: in_count_def split: prod.splits if_splits)
  note wa = window_add_accounts [OF assms(1-5) add]
  show "accounts S (win(s := w')) p'" "p_size p' = p_size p" "win_base w' = win_base (win s)"
    "unacked w' = unacked (win s) + len" by (rule wa)+
  then show "pool_ok p'" using assms(3) \<open>\<not> is_overdrawn p'\<close> by (simp add: pool_ok_def is_overdrawn_def)
qed

lemma in_received_data_cases:
  assumes "in_received_data i d p = Ok (i', p', ws)"
  obtains
    (empty) "d = []" "i' = i" "p' = p"
  | (queued) ds reader w where "d \<noteq> []" "in_state i = InOpen ds reader"
      "in_count (in_window i) p (length d) = Ok (w, p')"
      "i' = i\<lparr>in_window := w, in_state := InOpen (ds @ [d]) None\<rparr>"
  | (counted) f w where "d \<noteq> []" "in_state i = InClosed f" "\<not> sent f" "\<not> received f"
      "in_count (in_window i) p (length d) = Ok (w, p')" "i' = i\<lparr>in_window := w\<rparr>"
  | (dropped) f where "d \<noteq> []" "in_state i = InClosed f" "sent f" "\<not> received f" "i' = i" "p' = p"
proof (cases "d = []")
  case True
  then show thesis using assms by (intro empty) (simp_all add: in_received_data_def)
next
  case d: False
  show thesis
  proof (cases "in_state i")
    case (InOpen ds reader)
    obtain ws' where "slot_wake reader = (None, ws')" by (cases reader) simp_all
    then obtain w where "in_count (in_window i) p (length d) = Ok (w, p')"
      "i' = i\<lparr>in_window := w, in_state := InOpen (ds @ [d]) None\<rparr>"
      using assms d InOpen by (auto simp: in_received_data_def data_push_back_def split: prod.splits)
    then show thesis by (rule queued [OF d InOpen])
  next
    case (InHalfClosed ds)
    then show thesis using assms d by (simp add: in_received_data_def)
  next
    case (InClosed f)
    then have rcv: "\<not> received f" using assms d by (auto simp: in_received_data_def)
    show thesis
    proof (cases "sent f")
      case True
      then have "i' = i" "p' = p" using assms d InClosed rcv by (simp_all add: in_received_data_def)
      then show thesis by (rule dropped [OF d InClosed True rcv])
    next
      case False
      then obtain w where "in_count (in_window i) p (length d) = Ok (w, p')" "i' = i\<lparr>in_window := w\<rparr>"
        using assms d InClosed rcv by (auto simp: in_received_data_def)
      then show thesis by (rule counted [OF d InClosed False rcv])
    qed
  qed
qed

lemma in_received_data_ok:
  assumes inv: "in_inv i" and acc: "accounts S win p" and s: "s \<in> S" and w: "win s = in_window i"
    and ok: "pool_ok p" and len: "length d \<le> u32_max"
    and rcv: "in_received_data i d p = Ok (i', p', ws)"
  shows "in_inv i'" and "accounts S (win(s := in_window i')) p'" and "pool_ok p'" and "p_size p' = p_size p"
    and "in_threshold i' = in_threshold i"
proof -
  have base: "win_base (win s) \<le> u32_max" using inv by (simp add: w in_inv_def)
  note cnt = in_count_accounts [OF acc s ok base len, unfolded w]
  have upd: "win(s := in_window i) = win" using w by auto
  have "in_inv i' \<and> accounts S (win(s := in_window i')) p' \<and> pool_ok p' \<and> p_size p' = p_size p
    \<and> in_threshold i' = in_threshold i"
    using rcv
  proof (cases rule: in_received_data_cases)
    case empty
    then show ?thesis using inv acc ok upd by simp
  next
    case (queued ds reader w')
    note c = cnt [OF queued(3)]
    have "unacked w' < u64_size"
      using unacked_le [OF acc s ok base] len c(5) by (simp add: w)
    then show ?thesis using inv queued c by (auto simp: in_inv_def in_queued_def)
  next
    case (counted f w')
    note c = cnt [OF counted(5)]
    have "unacked w' < u64_size"
      using unacked_le [OF acc s ok base] len c(5) by (simp add: w)
    then show ?thesis using inv counted c by (auto simp: in_inv_def in_queued_def)
  next
    case (dropped f)
    then show ?thesis using inv acc ok upd by simp
  qed
  then show "in_inv i'" "accounts S (win(s := in_window i')) p'" "pool_ok p'" "p_size p' = p_size p"
    "in_threshold i' = in_threshold i" by blast+
qed

lemma pool_counts_accounts:
  assumes "pool_counts p w"
  shows "accounts {False, True} (\<lambda>b. if b then w else \<lparr>win_base = 0, unacked = p_used p - borrowed w\<rparr>) p"
proof -
  have "p_used p \<le> u32_max" using assms by (simp add: pool_counts_def pool_ok_def)
  then show ?thesis using assms by (simp add: accounts_def pool_counts_def borrowed_def borrowed_at_def)
qed

subsection \<open>Histories\<close>

lemma trace_inv_read:
  assumes inv: "trace_inv t" and rd: "in_poll_read (tr_in t) w me = Ok (r, i, ws)"
  shows "trace_inv (log_read t r i)"
proof -
  have i: "in_inv i" using in_poll_read_inv [OF _ rd] inv by (simp add: trace_inv_def)
  from rd show ?thesis
  proof (cases rule: in_poll_read_cases)
    case (pending reader)
    then show ?thesis using inv i by (simp add: trace_inv_def log_read_def in_queued_def)
  next
    case (chunk d ds)
    have "length d \<le> unacked (in_window (tr_in t)) - in_credit (tr_in t)"
      using inv chunk(6) by (auto simp: trace_inv_def in_inv_def)
    moreover have "in_credit (tr_in t) \<le> unacked (in_window (tr_in t))" "unacked (in_window (tr_in t)) < u64_size"
      using inv in_credit_le [of "tr_in t"] by (simp_all add: trace_inv_def in_inv_def)
    ultimately have "in_credit i = in_credit (tr_in t) + length d"
      by (simp add: chunk(5) u64_simps)
    then show ?thesis using inv i chunk
      by (auto simp: trace_inv_def log_read_def in_queued_def)
  next
    case (eof f)
    then show ?thesis using inv i by (simp add: trace_inv_def log_read_def)
  qed
qed

lemma trace_inv_update:
  assumes inv: "trace_inv t" and upd: "in_poll_update (tr_in t) p = (r, i, p')"
  shows "trace_inv (log_update t r i)"
proof -
  have it: "in_inv (tr_in t)" using inv by (simp add: trace_inv_def)
  then have i: "in_inv i" using in_poll_update_inv [OF _ upd] by simp
  from it upd show ?thesis
  proof (cases rule: in_poll_update_cases)
    case pending
    then show ?thesis using inv by (simp add: log_update_def)
  next
    case (credit c f)
    then have "unat (word_of_nat c :: u32) = c" by (simp add: unat_of_nat)
    then show ?thesis using inv i credit
      by (cases "in_state (tr_in t)") (simp_all add: trace_inv_def log_update_def in_queued_def)
  next
    case (fin f g)
    then show ?thesis using inv i by (simp add: trace_inv_def log_update_def)
  qed
qed

lemma trace_inv_data:
  assumes inv: "trace_inv t" and p: "pool_counts p (in_window (tr_in t))" and len: "length d \<le> u32_max"
    and rcv: "in_received_data (tr_in t) d p = Ok (i, p', ws)"
  shows "trace_inv (t\<lparr>tr_in := i, tr_arrived := tr_arrived t @ d\<rparr>)"
proof -
  have "in_inv (tr_in t)" "pool_ok p" using inv p by (simp_all add: trace_inv_def pool_counts_def)
  then have i: "in_inv i"
    using in_received_data_ok(1) [OF _ pool_counts_accounts [OF p], of "tr_in t" True d i p' ws] len rcv by simp
  from rcv show ?thesis
  proof (cases rule: in_received_data_cases)
    case empty
    then show ?thesis using inv by simp
  next
    case (queued ds reader w)
    then show ?thesis using inv i by (simp add: trace_inv_def in_queued_def)
  next
    case (counted f w)
    then show ?thesis using inv i by (auto simp: trace_inv_def)
  next
    case (dropped f)
    then show ?thesis using inv i by (auto simp: trace_inv_def)
  qed
qed

lemma trace_inv_close:
  assumes inv: "trace_inv t" and cl: "in_close_reading (tr_in t) me = (i, ws)"
  shows "trace_inv (t\<lparr>tr_in := i, tr_stopped := True\<rparr>)"
proof -
  have "in_inv i" using in_close_reading_inv [of "tr_in t" me] inv cl by (simp add: trace_inv_def)
  then show ?thesis using inv cl
    by (cases "in_state (tr_in t)") (auto simp: trace_inv_def in_close_reading_def)
qed

lemma trace_inv_fin_write:
  assumes inv: "trace_inv t" and fw: "in_received_fin_write (tr_in t) me = Ok (i, ws)"
  shows "trace_inv (t\<lparr>tr_in := i\<rparr>)"
proof -
  have "in_inv i" using in_received_fin_write_inv [OF _ fw] inv by (simp add: trace_inv_def)
  then show ?thesis using inv fw
    by (cases "in_state (tr_in t)")
      (auto simp: trace_inv_def in_received_fin_write_def in_queued_def split: if_splits)
qed

lemma in_reach_inv: "in_reach me base t \<Longrightarrow> trace_inv t"
proof (induction rule: in_reach.induct)
  case start
  then show ?case using in_new_inv [of base] by (simp add: trace_inv_def in_trace_new_def in_new_def in_queued_def)
qed (blast intro: trace_inv_read trace_inv_update trace_inv_data trace_inv_close trace_inv_fin_write)+

text \<open>
  C5. In every history of a receiving direction the application reads a prefix of the bytes that
  arrived, in order and without duplication. Until the direction closes nothing is lost:
  what arrived is what was read and what is queued, and the window counts exactly what is not
  credited. Unless the application stopped reading itself, the end of the stream is reported, and \<^verbatim>\<open>FIN_READ\<close> is sent, only when everything
  that arrived was read; \<^verbatim>\<open>FIN_READ\<close> is sent at most once, and credit never
  exceeds what was read. Reading never panics.
\<close>

theorem inbound_delivery:
  assumes "in_reach me base t"
  shows "prefix (tr_read t) (tr_arrived t) \<and> tr_credit t \<le> length (tr_read t) \<and> tr_fins t \<le> 1
    \<and> ((\<forall>f. in_state (tr_in t) \<noteq> InClosed f) \<longrightarrow> tr_arrived t = tr_read t @ concat (in_queued (tr_in t))
         \<and> unacked (in_window (tr_in t)) = length (tr_arrived t) - tr_credit t)
    \<and> ((tr_eof t \<or> 0 < tr_fins t) \<and> \<not> tr_stopped t \<longrightarrow> tr_read t = tr_arrived t)
    \<and> (\<forall>w. in_poll_read (tr_in t) w me \<noteq> Panic)"
proof -
  have inv: "trace_inv t" by (rule in_reach_inv [OF assms])
  then have "in_inv (tr_in t)" by (simp add: trace_inv_def)
  then show ?thesis using inv in_poll_read_not_Panic [of "tr_in t"]
    by (cases "in_state (tr_in t)")
      (auto simp: trace_inv_def in_inv_def in_queued_def length_concat_bytes_in)
qed

theorem inbound_delivery_witness:
  "\<exists>t. in_reach 5 8 t \<and> tr_arrived t = [1, 2, 3] \<and> tr_read t = [1, 2] \<and> prefix (tr_read t) (tr_arrived t)"
proof -
  let ?p = "pool_new 0" and ?i = "(in_new 8)\<lparr>in_window := \<lparr>win_base = 8, unacked = 2\<rparr>, in_state := InOpen [[1, 2]] None\<rparr>"
  let ?t1 = "(in_trace_new 8)\<lparr>tr_in := ?i, tr_arrived := [1, 2]\<rparr>"
  let ?i2 = "?i\<lparr>in_window := \<lparr>win_base = 8, unacked = 3\<rparr>, in_state := InOpen [[1, 2], [3]] None\<rparr>"
  let ?t2 = "?t1\<lparr>tr_in := ?i2, tr_arrived := [1, 2, 3]\<rparr>"
  let ?i3 = "?i2\<lparr>in_state := InOpen [[3]] None, in_credit := 2\<rparr>"
  let ?t3 = "?t2\<lparr>tr_in := ?i3, tr_read := [1, 2]\<rparr>"
  note defs = in_trace_new_def in_new_def window_new_def pool_counts_def pool_new_def pool_ok_def
    borrowed_def borrowed_at_def in_received_data_def in_count_def window_add_def window_set_def
    is_overdrawn_def add_u64_def sub_u64_def data_push_back_def
  have r1: "in_reach 5 8 ?t1"
    using in_reach.data [OF in_reach.start, of ?p 8 "[1, 2]" ?i ?p "[]" 5] by (simp add: defs)
  have r2: "in_reach 5 8 ?t2"
    using in_reach.data [OF r1, of ?p "[3]" ?i2 ?p "[]"] by (simp add: defs)
  have r3: "in_reach 5 8 ?t3"
    using in_reach.read [OF r2, of 0 "Ready (Some [1, 2])" ?i3 "[]"]
    by (simp add: defs in_poll_read_def in_chunk_read_def log_read_def credit_threshold_eq)
  show ?thesis using inbound_delivery [OF r3] r3 by (intro exI [of _ ?t3]) simp
qed

subsection \<open>Protocol errors\<close>

lemma in_count_Err:
  assumes "accounts S win p" "s \<in> S" "pool_ok p" "win_base (win s) \<le> u32_max" "len \<le> u32_max"
  shows "in_count (win s) p len =
    (if p_size p < p_used p - borrowed (win s) + (unacked (win s) + len - win_base (win s))
     then Err (StreamError ''exceeded the receive pool'') else Ok (window_add (win s) p len))"
proof -
  obtain w' p' where add: "window_add (win s) p len = (w', p')" by fastforce
  from window_add_accounts(2,5) [OF assms add] add show ?thesis
    by (simp add: in_count_def is_overdrawn_def)
qed

lemma in_received_data_eq:
  assumes "d \<noteq> []"
  shows "in_received_data i d p = (if peer_finished i then Err (StreamError ''sent data after FIN_WRITE'')
    else if fin_read_sent i then Ok (i, p, [])
    else r_bind (in_count (in_window i) p (length d)) (\<lambda>(w, p). Ok (
      case in_state i of InOpen ds reader \<Rightarrow>
        (i\<lparr>in_window := w, in_state := InOpen (ds @ [d]) None\<rparr>, p, snd (slot_wake reader))
      | _ \<Rightarrow> (i\<lparr>in_window := w\<rparr>, p, []))))"
proof (cases "in_state i")
  case (InOpen ds reader)
  then show ?thesis using assms
    by (cases reader) (simp_all add: in_received_data_def peer_finished_def fin_read_sent_def data_push_back_def)
next
  case (InHalfClosed ds)
  then show ?thesis using assms by (simp add: in_received_data_def peer_finished_def)
next
  case (InClosed f)
  then show ?thesis using assms
    by (simp add: in_received_data_def peer_finished_def fin_read_sent_def)
qed

text \<open>
  C23. A receiving direction refuses data exactly when the peer already sent \<^verbatim>\<open>FIN_WRITE\<close>, or when
  the stream would take more of the receive pool than there is and \<^verbatim>\<open>FIN_READ\<close> was not sent; it
  refuses \<^verbatim>\<open>FIN_WRITE\<close> exactly when it was sent before; and it never panics. An empty payload is
  always accepted.
\<close>

theorem inbound_errors:
  assumes "accounts S win p" "s \<in> S" "pool_ok p" "win s = in_window i" "win_base (in_window i) \<le> u32_max"
    "length d \<le> u32_max"
  shows "(\<forall>e. in_received_data i d p = Err e \<longleftrightarrow> d \<noteq> [] \<and>
        (if peer_finished i then e = StreamError ''sent data after FIN_WRITE''
         else \<not> fin_read_sent i
           \<and> p_size p < p_used p - borrowed (win s) + (unacked (win s) + length d - win_base (win s))
           \<and> e = StreamError ''exceeded the receive pool''))
    \<and> in_received_data i d p \<noteq> Panic
    \<and> (\<forall>e. in_received_fin_write i me = Err e \<longleftrightarrow>
        peer_finished i \<and> e = StreamError ''sent duplicate FIN_WRITE'')
    \<and> in_received_fin_write i me \<noteq> Panic"
proof -
  have cnt: "in_count (in_window i) p (length d) =
    (if p_size p < p_used p - borrowed (win s) + (unacked (win s) + length d - win_base (win s))
     then Err (StreamError ''exceeded the receive pool'') else Ok (window_add (win s) p (length d)))"
    using in_count_Err [of S win p s "length d"] assms by simp
  have "in_received_fin_write i me = Err e \<longleftrightarrow>
      peer_finished i \<and> e = StreamError ''sent duplicate FIN_WRITE''" for e
    by (auto simp: in_received_fin_write_def peer_finished_def split: inbound_state.splits)
  moreover have "in_received_fin_write i me \<noteq> Panic"
    by (auto simp: in_received_fin_write_def split: inbound_state.splits)
  moreover have "in_received_data i d p \<noteq> Panic"
    by (cases "d = []")
      (simp_all add: in_received_data_eq cnt split: prod.splits, simp add: in_received_data_def)
  moreover have "in_received_data i d p = Err e \<longleftrightarrow> d \<noteq> [] \<and>
        (if peer_finished i then e = StreamError ''sent data after FIN_WRITE''
         else \<not> fin_read_sent i
           \<and> p_size p < p_used p - borrowed (win s) + (unacked (win s) + length d - win_base (win s))
           \<and> e = StreamError ''exceeded the receive pool'')" for e
    by (cases "d = []")
      (auto simp: in_received_data_eq cnt split: prod.splits, simp add: in_received_data_def)
  ultimately show ?thesis by blast
qed

theorem inbound_errors_witness:
  "in_received_data (in_new 2) [7, 8, 9, 10] (pool_new 1) = Err (StreamError ''exceeded the receive pool'')"
  using inbound_errors [of "{True}" "\<lambda>_. in_window (in_new 2)" "pool_new 1" True "in_new 2" "[7, 8, 9, 10]" 0]
  by (simp add: accounts_def pool_new_def pool_ok_def in_new_def window_new_def borrowed_def borrowed_at_def
      peer_finished_def fin_read_sent_def)

end
