(* ===== verification/Outbound.thy ===== *)
theory Outbound
  imports Inbound
begin

text \<open>
  The sending direction of a stream (\<^verbatim>\<open>src/stream/outbound.rs\<close>). The context \<^verbatim>\<open>Ctx\<close> of the code is
  passed as its three parts: the state \<open>flow\<close> that the streams of the connection share, the
  reference \<open>me\<close> of the stream and the time \<open>now\<close>. The exponential function of the rate estimate is
  the argument \<open>fexp\<close>. A \<^verbatim>\<open>usize\<close> has 64 bits, so \<^verbatim>\<open>to_len\<close> is the identity.

  The lemmas show what \<open>plan\<close> decides: the size of a chunk, that the pool of the peer is never
  overdrawn, that only the stream whose turn it is borrows, and how the turn queue changes.
  \<open>out_reach\<close> are the states of a direction with a record of what was written and sent: data leaves
  in order, and \<^verbatim>\<open>FIN_WRITE\<close> is sent once, after everything that was accepted from the application.
\<close>

section \<open>Definitions\<close>

subsection \<open>State\<close>

datatype outbound_state =
    OutOpen data waker_slot
  | OutHalfClosed data waker_slot
  | OutClosed fin_state

record ledger =
  lg_window :: window
  lg_frame_limit :: u64
  lg_rate :: rate_estimate

record outbound =
  out_state :: outbound_state
  out_ledger :: ledger

definition out_new :: "u16 \<Rightarrow> u32 \<Rightarrow> instant \<Rightarrow> outbound" where
  "out_new flimit base now = \<lparr>out_state = OutOpen [] None,
     out_ledger = \<lparr>lg_window = window_new base, lg_frame_limit = unat flimit, lg_rate = rate_new now\<rparr>\<rparr>"

definition out_fin_state :: "outbound \<Rightarrow> fin_state" where
  "out_fin_state out = (case out_state out of
      OutOpen _ _ \<Rightarrow> fin_default | OutHalfClosed _ _ \<Rightarrow> fin_default | OutClosed f \<Rightarrow> f)"

subsection \<open>The application side\<close>

definition poll_write_ready :: "outbound \<Rightarrow> waker \<Rightarrow> (unit, io_error) rres poll \<times> outbound" where
  "poll_write_ready out w =
     (case out_state out of
        OutOpen ready_data writer \<Rightarrow>
          if ready_data = [] then (Ready (Ok ()), out)
          else (Pending, out\<lparr>out_state := OutOpen ready_data (slot_register writer w)\<rparr>)
      | _ \<Rightarrow> (Ready (Err BrokenPipe), out))"

definition NotReady :: io_error where
  "NotReady = OtherIo 0"

definition out_write :: "outbound \<Rightarrow> data \<Rightarrow> sref \<Rightarrow> (unit, io_error) rres \<times> outbound \<times> wake list" where
  "out_write out d me =
     (case out_state out of
        OutOpen ready_data writer \<Rightarrow>
          if ready_data \<noteq> [] then (Err NotReady, out, [])
          else if d \<noteq> [] then (Ok (), out\<lparr>out_state := OutOpen d writer\<rparr>, [WakeUpdates me])
          else (Ok (), out, [])
      | _ \<Rightarrow> (Err BrokenPipe, out, []))"

definition poll_flushed :: "outbound \<Rightarrow> waker \<Rightarrow> unit poll \<times> outbound" where
  "poll_flushed out w =
     (case out_state out of
        OutOpen ready_data writer \<Rightarrow>
          if ready_data = [] then (Ready (), out)
          else (Pending, out\<lparr>out_state := OutOpen ready_data (slot_register writer w)\<rparr>)
      | OutHalfClosed ready_data writer \<Rightarrow>
          (Pending, out\<lparr>out_state := OutHalfClosed ready_data (slot_register writer w)\<rparr>)
      | OutClosed _ \<Rightarrow> (Ready (), out))"

definition close_writing :: "outbound \<Rightarrow> sref \<Rightarrow> outbound \<times> wake list" where
  "close_writing out me =
     (case out_state out of
        OutOpen ready_data writer \<Rightarrow>
          if ready_data = [] then (out\<lparr>out_state := OutClosed fin_default\<rparr>, [WakeUpdates me])
          else (out\<lparr>out_state := OutHalfClosed ready_data writer\<rparr>, [])
      | _ \<Rightarrow> (out, []))"

subsection \<open>Planning what to send\<close>

definition may_borrow :: "(f64 \<Rightarrow> f64) \<Rightarrow> ledger \<Rightarrow> conn_flow \<Rightarrow> instant \<Rightarrow> u64" where
  "may_borrow fexp lg flow now =
     (let allowed = (case srtt_secs (cf_srtt flow) of None \<Rightarrow> 0 | Some srtt \<Rightarrow> allowance fexp (lg_rate lg) now srtt)
      in f64_to_u64 (max (rnd64 (allowed - rnd64 (of_nat (borrowed (lg_window lg))))) 0))"

definition shared :: "u64 \<Rightarrow> conn_flow \<Rightarrow> sref \<Rightarrow> u64" where
  "shared may flow me = (if has_turn (turns flow) me then min may (pool_room (tx_pool flow)) else 0)"

text \<open>After borrowing, the stream gives its turn away and takes a new one if it has more to send.\<close>

definition after_borrow :: "conn_flow \<Rightarrow> sref \<Rightarrow> bool \<Rightarrow> conn_flow \<times> wake list" where
  "after_borrow flow me has_more =
     (let q = fst (turns_leave (turns flow) me);
          q = (if has_more then turns_join q me else q);
          flow = flow\<lparr>turns := q\<rparr>
      in (flow, if has_room (tx_pool flow) then wake_front q else []))"

definition plan :: "(f64 \<Rightarrow> f64) \<Rightarrow> ledger \<Rightarrow> conn_flow \<Rightarrow> sref \<Rightarrow> instant \<Rightarrow> nat
    \<Rightarrow> nat option \<times> ledger \<times> conn_flow \<times> wake list" where
  "plan fexp lg flow me now waiting =
     (if waiting = 0 then let (flow, ws) = pass_turn flow me in (None, lg, flow, ws)
      else
        let room = base_room (lg_window lg); full = min (lg_frame_limit lg) waiting in
        if room \<ge> full then
          let (w, p) = window_add (lg_window lg) (tx_pool flow) full
          in (Some full, lg\<lparr>lg_window := w\<rparr>, flow\<lparr>tx_pool := p\<rparr>, [])
        else
          let may = may_borrow fexp lg flow now;
              n = min full (add_u64 room (shared may flow me))
          in if n = 0 then
               if may = 0 then let (flow, ws) = pass_turn flow me in (None, lg, flow, ws)
               else (None, lg, flow\<lparr>turns := turns_join (turns flow) me\<rparr>, [])
             else
               let (w, p) = window_add (lg_window lg) (tx_pool flow) n;
                   flow = flow\<lparr>tx_pool := p\<rparr>;
                   (flow, ws) = (if n > room then after_borrow flow me (waiting > n) else (flow, []))
               in (Some n, lg\<lparr>lg_window := w\<rparr>, flow, ws))"

subsection \<open>The connection side\<close>

type_synonym out_update = "(data \<times> bool) poll"

definition out_poll_update :: "(f64 \<Rightarrow> f64) \<Rightarrow> outbound \<Rightarrow> conn_flow \<Rightarrow> sref \<Rightarrow> instant
    \<Rightarrow> out_update \<times> outbound \<times> conn_flow \<times> wake list" where
  "out_poll_update fexp out flow me now =
     (case out_state out of
        OutOpen ready_data writer \<Rightarrow>
          (case plan fexp (out_ledger out) flow me now (length ready_data) of
             (None, lg, flow, ws) \<Rightarrow> (Pending, out\<lparr>out_ledger := lg\<rparr>, flow, ws)
           | (Some len, lg, flow, ws) \<Rightarrow>
               let chunk = take len ready_data; rest = drop len ready_data;
                   (writer, ws') = (if rest = [] then slot_wake writer else (writer, []))
               in (Ready (chunk, False), out\<lparr>out_state := OutOpen rest writer, out_ledger := lg\<rparr>, flow, ws @ ws'))
      | OutHalfClosed ready_data writer \<Rightarrow>
          (case plan fexp (out_ledger out) flow me now (length ready_data) of
             (None, lg, flow, ws) \<Rightarrow> (Pending, out\<lparr>out_ledger := lg\<rparr>, flow, ws)
           | (Some len, lg, flow, ws) \<Rightarrow>
               let chunk = take len ready_data; rest = drop len ready_data
               in if rest \<noteq> [] then
                    (Ready (chunk, False), out\<lparr>out_state := OutHalfClosed rest writer, out_ledger := lg\<rparr>, flow, ws)
                  else
                    (Ready (chunk, True),
                     out\<lparr>out_state := OutClosed \<lparr>sent = True, received = False\<rparr>, out_ledger := lg\<rparr>,
                     flow, ws @ snd (slot_wake writer)))
      | OutClosed f \<Rightarrow>
          let (flow, ws) = pass_turn flow me in
          if sent f then (Pending, out, flow, ws)
          else (Ready ([], True), out\<lparr>out_state := OutClosed (f\<lparr>sent := True\<rparr>)\<rparr>, flow, ws))"

definition data_waits :: "outbound \<Rightarrow> bool" where
  "data_waits out = (case out_state out of
      OutOpen d _ \<Rightarrow> d \<noteq> [] | OutHalfClosed d _ \<Rightarrow> d \<noteq> [] | OutClosed _ \<Rightarrow> False)"

definition received_window_update :: "(f64 \<Rightarrow> f64) \<Rightarrow> outbound \<Rightarrow> u32 \<Rightarrow> conn_flow \<Rightarrow> sref \<Rightarrow> instant
    \<Rightarrow> (outbound \<times> conn_flow \<times> wake list, stream_error) rres" where
  "received_window_update fexp out credit flow me now =
     (if (case out_state out of OutClosed f \<Rightarrow> received f | _ \<Rightarrow> False)
      then Err (StreamError ''sent window update after FIN_READ'')
      else
        let lg = out_ledger out; win = lg_window lg in
        if unacked win < unat credit then Err (StreamError ''returned more credit than was in flight'')
        else
          let (w, p, freed) = window_set win (tx_pool flow) (unacked win - unat credit);
              r = (case srtt_secs (cf_srtt flow) of None \<Rightarrow> lg_rate lg
                   | Some srtt \<Rightarrow> rate_add fexp (lg_rate lg) credit now srtt);
              ws = (if freed then wake_front (turns flow) else [])
                 @ (if data_waits out then [WakeUpdates me] else [])
          in Ok (out\<lparr>out_ledger := lg\<lparr>lg_window := w, lg_rate := r\<rparr>\<rparr>, flow\<lparr>tx_pool := p\<rparr>, ws))"

definition close_reading_side :: "outbound \<Rightarrow> sref \<Rightarrow> (outbound \<times> wake list, stream_error) rres" where
  "close_reading_side out me =
     (case out_state out of
        OutClosed f \<Rightarrow>
          if received f then Err (StreamError ''sent duplicate FIN_READ'')
          else Ok (out\<lparr>out_state := OutClosed (f\<lparr>received := True\<rparr>)\<rparr>, [])
      | OutOpen _ writer \<Rightarrow>
          Ok (out\<lparr>out_state := OutClosed \<lparr>sent = False, received = True\<rparr>\<rparr>, snd (slot_wake writer) @ [WakeUpdates me])
      | OutHalfClosed _ writer \<Rightarrow>
          Ok (out\<lparr>out_state := OutClosed \<lparr>sent = False, received = True\<rparr>\<rparr>, snd (slot_wake writer) @ [WakeUpdates me]))"

definition received_fin_read :: "outbound \<Rightarrow> conn_flow \<Rightarrow> sref
    \<Rightarrow> (outbound \<times> conn_flow \<times> wake list, stream_error) rres" where
  "received_fin_read out flow me =
     r_bind (close_reading_side out me) (\<lambda>(out, ws).
       let lg = out_ledger out; (w, p, freed) = window_set (lg_window lg) (tx_pool flow) 0
       in Ok (out\<lparr>out_ledger := lg\<lparr>lg_window := w\<rparr>\<rparr>, flow\<lparr>tx_pool := p\<rparr>,
              ws @ (if freed then wake_front (turns flow) else [])))"

definition out_abort :: "outbound \<Rightarrow> sref \<Rightarrow> outbound \<times> wake list" where
  "out_abort out me = (case close_reading_side out me of Ok r \<Rightarrow> r | _ \<Rightarrow> (out, []))"

subsection \<open>The invariant\<close>

definition ledger_ok :: "ledger \<Rightarrow> bool" where
  [inv_defs]: "ledger_ok lg \<longleftrightarrow> 0 < lg_frame_limit lg \<and> lg_frame_limit lg \<le> 65535
     \<and> win_base (lg_window lg) \<le> u32_max"

definition out_inv :: "outbound \<Rightarrow> bool" where
  [inv_defs]: "out_inv out \<longleftrightarrow> ledger_ok (out_ledger out)
     \<and> (case out_state out of
          OutOpen d writer \<Rightarrow> d = [] \<longrightarrow> writer = None
        | OutHalfClosed d _ \<Rightarrow> d \<noteq> []
        | OutClosed f \<Rightarrow> received f \<longrightarrow> unacked (lg_window (out_ledger out)) = 0)"

definition out_data :: "outbound \<Rightarrow> data" where
  "out_data out = (case out_state out of OutOpen d _ \<Rightarrow> d | OutHalfClosed d _ \<Rightarrow> d | OutClosed _ \<Rightarrow> [])"

text \<open>The task of the application that waits for the direction.\<close>

definition out_writer :: "outbound \<Rightarrow> waker_slot" where
  "out_writer out = (case out_state out of OutOpen _ w \<Rightarrow> w | OutHalfClosed _ w \<Rightarrow> w | OutClosed _ \<Rightarrow> None)"

definition fin_read_received :: "outbound \<Rightarrow> bool" where
  "fin_read_received out = (case out_state out of OutClosed f \<Rightarrow> received f | _ \<Rightarrow> False)"

text \<open>The stream that may borrow now: the front of the queue, while the pool has room.\<close>

definition turn_open :: "conn_flow \<Rightarrow> sref option" where
  "turn_open flow = (if has_room (tx_pool flow) then seq_front (turns flow) else None)"

abbreviation out_window :: "outbound \<Rightarrow> window" where
  "out_window out \<equiv> lg_window (out_ledger out)"

subsection \<open>Histories\<close>

text \<open>
  The bytes that were accepted from the application and the bytes that were handed to the
  connection, the number of \<^verbatim>\<open>FIN_WRITE\<close>, and whether the peer stopped reading while data waited.
\<close>

record out_trace =
  to_out :: outbound
  to_written :: data
  to_sent :: data
  to_fins :: nat
  to_cut :: bool

definition out_trace_new :: "u16 \<Rightarrow> u32 \<Rightarrow> instant \<Rightarrow> out_trace" where
  "out_trace_new flimit base t0 =
     \<lparr>to_out = out_new flimit base t0, to_written = [], to_sent = [], to_fins = 0, to_cut = False\<rparr>"

definition log_sent :: "out_trace \<Rightarrow> out_update \<Rightarrow> outbound \<Rightarrow> out_trace" where
  "log_sent t r out = (case r of
      Pending \<Rightarrow> t\<lparr>to_out := out\<rparr>
    | Ready (d, fin) \<Rightarrow> t\<lparr>to_out := out, to_sent := to_sent t @ d, to_fins := to_fins t + (if fin then 1 else 0)\<rparr>)"

inductive out_reach :: "(f64 \<Rightarrow> f64) \<Rightarrow> sref \<Rightarrow> u16 \<Rightarrow> u32 \<Rightarrow> out_trace \<Rightarrow> bool"
  for fexp :: "f64 \<Rightarrow> f64" and me :: sref and flimit :: u16 and base :: u32 where
  start: "out_reach fexp me flimit base (out_trace_new flimit base t0)"
| ready: "out_reach fexp me flimit base t \<Longrightarrow> poll_write_ready (to_out t) w = (r, out) \<Longrightarrow>
    out_reach fexp me flimit base (t\<lparr>to_out := out\<rparr>)"
| writes: "out_reach fexp me flimit base t \<Longrightarrow> out_write (to_out t) d me = (Ok (), out, ws) \<Longrightarrow>
    out_reach fexp me flimit base (t\<lparr>to_out := out, to_written := to_written t @ d\<rparr>)"
| flush: "out_reach fexp me flimit base t \<Longrightarrow> poll_flushed (to_out t) w = (r', out) \<Longrightarrow>
    out_reach fexp me flimit base (t\<lparr>to_out := out\<rparr>)"
| close: "out_reach fexp me flimit base t \<Longrightarrow> close_writing (to_out t) me = (out, ws) \<Longrightarrow>
    out_reach fexp me flimit base (t\<lparr>to_out := out\<rparr>)"
| update: "out_reach fexp me flimit base t \<Longrightarrow> pool_counts (tx_pool flow) (out_window (to_out t)) \<Longrightarrow>
    out_poll_update fexp (to_out t) flow me now = (u, out, flow', ws) \<Longrightarrow>
    out_reach fexp me flimit base (log_sent t u out)"
| credit: "out_reach fexp me flimit base t \<Longrightarrow> pool_counts (tx_pool flow) (out_window (to_out t)) \<Longrightarrow>
    received_window_update fexp (to_out t) c flow me now = Ok (out, flow', ws) \<Longrightarrow>
    out_reach fexp me flimit base (t\<lparr>to_out := out\<rparr>)"
| fin_read: "out_reach fexp me flimit base t \<Longrightarrow> pool_counts (tx_pool flow) (out_window (to_out t)) \<Longrightarrow>
    received_fin_read (to_out t) flow me = Ok (out, flow', ws) \<Longrightarrow>
    out_reach fexp me flimit base (t\<lparr>to_out := out, to_cut := to_cut t \<or> out_data (to_out t) \<noteq> []\<rparr>)"

definition out_trace_inv :: "out_trace \<Rightarrow> bool" where
  [inv_defs]: "out_trace_inv t \<longleftrightarrow> out_inv (to_out t) \<and> prefix (to_sent t) (to_written t)
     \<and> to_fins t = (if sent (out_fin_state (to_out t)) then 1 else 0)
     \<and> (to_cut t \<longrightarrow> fin_read_received (to_out t))
     \<and> (\<not> to_cut t \<longrightarrow> to_written t = to_sent t @ out_data (to_out t))"

section \<open>Lemmas\<close>

subsection \<open>Planning\<close>

lemma pass_turn_eq: "pass_turn flow me = (flow\<lparr>turns := remove1 me (turns flow)\<rparr>, snd (pass_turn flow me))"
  by (simp add: pass_turn_def Let_def turns_leave_eq)

lemma shared_le: "shared may flow me \<le> pool_room (tx_pool flow)" "shared may flow me \<le> may"
  by (simp_all add: shared_def)

lemma after_borrow_eq:
  "after_borrow flow me b = (flow\<lparr>turns := (if b then remove1 me (turns flow) @ [me] else remove1 me (turns flow))\<rparr>,
     snd (after_borrow flow me b))" if "distinct (turns flow)"
  using that by (simp add: after_borrow_def Let_def turns_leave_eq turns_join_eq)

text \<open>\<open>plan\<close> either sends nothing and changes only the queue, or accounts for what it sends.\<close>

definition plan_room :: "(f64 \<Rightarrow> f64) \<Rightarrow> ledger \<Rightarrow> conn_flow \<Rightarrow> sref \<Rightarrow> instant \<Rightarrow> nat" where
  "plan_room fexp lg flow me now = base_room (lg_window lg) + shared (may_borrow fexp lg flow now) flow me"

lemma plan_room_exact:
  assumes "ledger_ok lg" "pool_ok (tx_pool flow)"
  shows "add_u64 (base_room (lg_window lg)) (shared (may_borrow fexp lg flow now) flow me) = plan_room fexp lg flow me now"
proof -
  have "base_room (lg_window lg) \<le> u32_max" "shared (may_borrow fexp lg flow now) flow me \<le> u32_max"
    using assms shared_le(1) [of "may_borrow fexp lg flow now" flow me]
    unfolding ledger_ok_def pool_ok_def base_room_def pool_room_def by linarith+
  then show ?thesis by (simp add: plan_room_def u64_simps)
qed

lemma plan_nothing:
  assumes "waiting \<noteq> 0" "base_room (lg_window lg) < min (lg_frame_limit lg) waiting"
    "ledger_ok lg" "pool_ok (tx_pool flow)" "plan_room fexp lg flow me now = 0"
  shows "plan fexp lg flow me now waiting = (None, lg,
    flow\<lparr>turns := (if may_borrow fexp lg flow now = 0 then remove1 me (turns flow) else turns_join (turns flow) me)\<rparr>,
    if may_borrow fexp lg flow now = 0 then snd (pass_turn flow me) else [])"
proof -
  have "add_u64 (base_room (lg_window lg)) (shared (may_borrow fexp lg flow now) flow me) = 0"
    using plan_room_exact [OF assms(3,4)] assms(5) by simp
  then show ?thesis using assms(1,2) pass_turn_eq [of flow me]
    by (auto simp: plan_def Let_def split: prod.splits)
qed

lemma plan_something:
  assumes "waiting \<noteq> 0" "base_room (lg_window lg) < min (lg_frame_limit lg) waiting"
    "ledger_ok lg" "pool_ok (tx_pool flow)"
    and n: "n = min (min (lg_frame_limit lg) waiting) (plan_room fexp lg flow me now)" "n \<noteq> 0"
    and wp: "window_add (lg_window lg) (tx_pool flow) n = (w, p)"
    and q: "q = (if n < waiting then turns_join (remove1 me (turns flow)) me else remove1 me (turns flow))"
  shows "plan fexp lg flow me now waiting =
    (if base_room (lg_window lg) < n
     then (Some n, lg\<lparr>lg_window := w\<rparr>, flow\<lparr>tx_pool := p, turns := q\<rparr>, if has_room p then wake_front q else [])
     else (Some n, lg\<lparr>lg_window := w\<rparr>, flow\<lparr>tx_pool := p\<rparr>, []))"
proof -
  have f: "(min (lg_frame_limit lg) waiting \<le> base_room (lg_window lg)) = False"
    using assms(2) leD by blast
  show ?thesis
    using assms(1) n(2) wp unfolding plan_def Let_def plan_room_exact [OF assms(3,4)] n(1) [symmetric] f
    by (simp add: after_borrow_def turns_leave_eq Let_def q)
qed

lemma plan_cases:
  assumes lg: "ledger_ok lg" and ok: "pool_ok (tx_pool flow)"
    and plan: "plan fexp lg flow me now waiting = (r, lg', flow', ws)"
  obtains
    (none) q where "r = None" "lg' = lg" "flow' = flow\<lparr>turns := q\<rparr>"
      "waiting = 0 \<or> plan_room fexp lg flow me now = 0"
      "q = (if waiting = 0 \<or> may_borrow fexp lg flow now = 0 then remove1 me (turns flow) else turns_join (turns flow) me)"
      "ws = (if waiting = 0 \<or> may_borrow fexp lg flow now = 0 then snd (pass_turn flow me) else [])"
  | (base) n w p where "r = Some n" "lg' = lg\<lparr>lg_window := w\<rparr>" "flow' = flow\<lparr>tx_pool := p\<rparr>"
      "window_add (lg_window lg) (tx_pool flow) n = (w, p)" "0 < n" "n \<le> lg_frame_limit lg" "n \<le> waiting"
      "n \<le> base_room (lg_window lg)"
  | (pool) n w p q where "r = Some n" "lg' = lg\<lparr>lg_window := w\<rparr>" "flow' = flow\<lparr>tx_pool := p, turns := q\<rparr>"
      "window_add (lg_window lg) (tx_pool flow) n = (w, p)" "0 < n" "n \<le> lg_frame_limit lg" "n \<le> waiting"
      "base_room (lg_window lg) < n" "n = min (min (lg_frame_limit lg) waiting) (plan_room fexp lg flow me now)"
      "has_turn (turns flow) me"
      "q = (if n < waiting then turns_join (remove1 me (turns flow)) me else remove1 me (turns flow))"
      "ws = (if has_room p then wake_front q else [])"
proof (cases "waiting = 0")
  case True
  then show thesis using plan pass_turn_eq [of flow me]
    by (intro none [of "remove1 me (turns flow)"]) (auto simp: plan_def split: prod.splits)
next
  case waiting: False
  let ?full = "min (lg_frame_limit lg) waiting"
  define n where "n = min ?full (plan_room fexp lg flow me now)"
  have full: "0 < ?full" using waiting lg by (simp add: ledger_ok_def)
  consider "?full \<le> base_room (lg_window lg)" | "base_room (lg_window lg) < ?full" "n = 0"
    | "base_room (lg_window lg) < ?full" "n \<noteq> 0" by linarith
  then show thesis
  proof cases
    case 1
    obtain w p where wp: "window_add (lg_window lg) (tx_pool flow) ?full = (w, p)" by fastforce
    with 1 have "r = Some ?full" "lg' = lg\<lparr>lg_window := w\<rparr>" "flow' = flow\<lparr>tx_pool := p\<rparr>"
      using plan waiting by (simp_all add: plan_def Let_def)
    then show thesis using wp full 1 by (intro base) simp_all
  next
    case 2
    then have z: "plan_room fexp lg flow me now = 0" using full unfolding n_def by linarith
    from plan_nothing [OF waiting 2(1) lg ok this] plan show thesis
      by (intro none) (simp_all add: z waiting)
  next
    case 3
    obtain w p where wp: "window_add (lg_window lg) (tx_pool flow) n = (w, p)" by fastforce
    define q where "q = (if n < waiting then turns_join (remove1 me (turns flow)) me else remove1 me (turns flow))"
    note eq = plan_something [OF waiting 3(1) lg ok n_def 3(2) wp q_def]
    have le: "0 < n" "n \<le> lg_frame_limit lg" "n \<le> waiting" using 3(2) by (simp_all add: n_def)
    show thesis
    proof (cases "base_room (lg_window lg) < n")
      case True
      then have "has_turn (turns flow) me"
        by (auto simp: n_def plan_room_def shared_def split: if_splits)
      with True show thesis using plan eq
        by (intro pool [OF _ _ _ wp le True n_def _ q_def]) simp_all
    next
      case False
      then show thesis using plan eq by (intro base [OF _ _ _ wp le]) simp_all
    qed
  qed
qed

lemma plan_cf:
  assumes lg: "ledger_ok lg" and ok: "pool_ok (tx_pool flow)"
    and plan: "plan fexp lg flow me now waiting = (r, lg', flow', ws)"
  shows "rx_pool flow' = rx_pool flow" "cf_srtt flow' = cf_srtt flow" "lg_frame_limit lg' = lg_frame_limit lg"
    "lg_rate lg' = lg_rate lg" "distinct (turns flow) \<longrightarrow> distinct (turns flow')"
proof -
  have "rx_pool flow' = rx_pool flow \<and> cf_srtt flow' = cf_srtt flow \<and> lg_frame_limit lg' = lg_frame_limit lg
    \<and> lg_rate lg' = lg_rate lg \<and> (distinct (turns flow) \<longrightarrow> distinct (turns flow'))"
    using lg ok plan by (cases rule: plan_cases) (simp_all add: distinct_remove1 distinct_turns)
  then show "rx_pool flow' = rx_pool flow" "cf_srtt flow' = cf_srtt flow" "lg_frame_limit lg' = lg_frame_limit lg"
    "lg_rate lg' = lg_rate lg" "distinct (turns flow) \<longrightarrow> distinct (turns flow')" by blast+
qed

text \<open>The accounting of what \<open>plan\<close> sends: the pool of the peer is not overdrawn.\<close>

lemma plan_used:
  assumes "n \<le> base_room w \<or> n \<le> base_room w + k"
  shows "unacked w + n - win_base w \<le> borrowed w + k"
  using assms by (auto simp: base_room_def borrowed_def borrowed_at_def)

lemma plan_accounts:
  assumes acc: "accounts S win (tx_pool flow)" and s: "s \<in> S" and w: "win s = lg_window lg"
    and lg: "ledger_ok lg" and ok: "pool_ok (tx_pool flow)"
    and plan: "plan fexp lg flow me now waiting = (r, lg', flow', ws)"
  shows "accounts S (win(s := lg_window lg')) (tx_pool flow')" and "pool_ok (tx_pool flow')"
    and "p_size (tx_pool flow') = p_size (tx_pool flow)" and "ledger_ok lg'"
    and "unacked (lg_window lg') = unacked (lg_window lg) + (case r of None \<Rightarrow> 0 | Some n \<Rightarrow> n)"
    and "win_base (lg_window lg') = win_base (lg_window lg)"
proof -
  have upd: "win(s := lg_window lg) = win" using w by auto
  have base: "win_base (win s) \<le> u32_max" using lg by (simp add: w ledger_ok_def)
  have sent: "accounts S (win(s := w')) p \<and> pool_ok p \<and> p_size p = p_size (tx_pool flow)
      \<and> unacked w' = unacked (lg_window lg) + n \<and> win_base w' = win_base (lg_window lg)"
    if add: "window_add (lg_window lg) (tx_pool flow) n = (w', p)" and n: "n \<le> lg_frame_limit lg"
      "n \<le> base_room (lg_window lg) \<or> n \<le> base_room (lg_window lg) + pool_room (tx_pool flow)" for n w' p
  proof -
    have "n \<le> u32_max" using n(1) lg by (simp add: ledger_ok_def)
    note wa = window_add_accounts [OF acc s ok base this, unfolded w, OF add]
    have "p_used p \<le> p_used (tx_pool flow) - borrowed (win s) + (borrowed (win s) + pool_room (tx_pool flow))"
      using plan_used [OF n(2)] wa(5) by (simp add: w)
    then have "p_used p \<le> p_size p"
      using borrowed_le_used [OF acc s] ok wa(2) by (simp add: pool_room_def pool_ok_def)
    then show ?thesis using wa ok by (simp add: pool_ok_def)
  qed
  have "accounts S (win(s := lg_window lg')) (tx_pool flow') \<and> pool_ok (tx_pool flow')
    \<and> p_size (tx_pool flow') = p_size (tx_pool flow) \<and> ledger_ok lg'
    \<and> unacked (lg_window lg') = unacked (lg_window lg) + (case r of None \<Rightarrow> 0 | Some n \<Rightarrow> n)
    \<and> win_base (lg_window lg') = win_base (lg_window lg)"
    using lg ok plan
  proof (cases rule: plan_cases)
    case (none q)
    then show ?thesis using acc ok lg upd by simp
  next
    case (base n w' p)
    then show ?thesis using sent [OF base(4) base(6)] lg by (simp add: ledger_ok_def)
  next
    case (pool n w' p q)
    have "n \<le> base_room (lg_window lg) + pool_room (tx_pool flow)"
      using pool(9) shared_le(1) [of "may_borrow fexp lg flow now" flow me] unfolding plan_room_def by linarith
    then show ?thesis using sent [OF pool(4) pool(6)] pool lg by (simp add: ledger_ok_def)
  qed
  then show "accounts S (win(s := lg_window lg')) (tx_pool flow')" "pool_ok (tx_pool flow')"
    "p_size (tx_pool flow') = p_size (tx_pool flow)" "ledger_ok lg'"
    "unacked (lg_window lg') = unacked (lg_window lg) + (case r of None \<Rightarrow> 0 | Some n \<Rightarrow> n)"
    "win_base (lg_window lg') = win_base (lg_window lg)" by blast+
qed

text \<open>A stream borrows no more than its allowance, in whole bytes.\<close>

definition allowed :: "(f64 \<Rightarrow> f64) \<Rightarrow> ledger \<Rightarrow> conn_flow \<Rightarrow> instant \<Rightarrow> f64" where
  "allowed fexp lg flow now =
     (case srtt_secs (cf_srtt flow) of None \<Rightarrow> 0 | Some srtt \<Rightarrow> allowance fexp (lg_rate lg) now srtt)"

lemma allowed_rnd: "rnd64 (allowed fexp lg flow now) = allowed fexp lg flow now"
  by (simp add: allowed_def allowance_def f64.rnd_rnd f64.rnd_zero split: option.split)

lemma may_borrow_allowed:
  assumes "0 < may_borrow fexp lg flow now" and b: "borrowed (lg_window lg) < 2 ^ 53"
    and a: "allowed fexp lg flow now < 2 ^ 53"
  shows "of_nat (borrowed (lg_window lg) + may_borrow fexp lg flow now) \<le> allowed fexp lg flow now"
proof -
  let ?a = "allowed fexp lg flow now" and ?b = "borrowed (lg_window lg)"
  have may: "may_borrow fexp lg flow now = f64_to_u64 (max (rnd64 (?a - of_nat ?b)) 0)"
    by (simp add: may_borrow_def allowed_def rnd64_of_nat [OF b])
  have le: "of_nat ?b \<le> ?a"
  proof (rule ccontr)
    assume "\<not> of_nat ?b \<le> ?a"
    then have "rnd64 (?a - of_nat ?b) \<le> 0" by (intro f64.rnd_le f64.rnd_zero) simp
    then show False using assms(1) by (simp add: may f64_to_u64_def max_absorb2)
  qed
  then have "max (rnd64 (?a - of_nat ?b)) 0 = ?a - of_nat ?b"
    using rnd64_minus_nat [OF allowed_rnd a] by (simp add: max_absorb1)
  then have "may_borrow fexp lg flow now \<le> nat \<lfloor>?a - of_nat ?b\<rfloor>" by (simp add: may f64_to_u64_def)
  then have "(of_nat (may_borrow fexp lg flow now) :: rat) \<le> of_nat (nat \<lfloor>?a - of_nat ?b\<rfloor>)"
    by (simp only: of_nat_le_iff)
  also have "\<dots> \<le> ?a - of_nat ?b" using le by (simp add: of_nat_floor)
  finally show ?thesis by simp
qed

text \<open>
  C3. What the sender decides. A chunk has at least one byte, and at most the frame limit and
  what waits. It stays within the base window, or the stream has its turn and the bytes beyond the
  base window fit in the room of the peer's pool and in the allowance of the stream. The pool is
  never overdrawn, it still counts exactly what the streams borrow, and the pools of the other
  direction are not touched.
\<close>

theorem plan_respects_pool:
  assumes "accounts S win (tx_pool flow)" "s \<in> S" "win s = lg_window lg" "ledger_ok lg" "pool_ok (tx_pool flow)"
    and "plan fexp lg flow me now waiting = (Some n, lg', flow', ws)"
  shows "1 \<le> n \<and> n \<le> lg_frame_limit lg \<and> n \<le> waiting
    \<and> unacked (lg_window lg') = unacked (lg_window lg) + n
    \<and> p_used (tx_pool flow') \<le> p_size (tx_pool flow') \<and> p_size (tx_pool flow') = p_size (tx_pool flow)
    \<and> accounts S (win(s := lg_window lg')) (tx_pool flow') \<and> rx_pool flow' = rx_pool flow
    \<and> (n \<le> base_room (lg_window lg) \<and> turns flow' = turns flow
       \<or> has_turn (turns flow) me \<and> of_nat (borrowed (lg_window lg')) \<le> allowed fexp lg flow now)"
proof -
  note pa = plan_accounts [OF assms] and cf = plan_cf [OF assms(4-6)]
  have "1 \<le> n \<and> n \<le> lg_frame_limit lg \<and> n \<le> waiting
    \<and> (n \<le> base_room (lg_window lg) \<and> turns flow' = turns flow
       \<or> has_turn (turns flow) me \<and> of_nat (borrowed (lg_window lg')) \<le> allowed fexp lg flow now)"
    using assms(4-6)
  proof (cases rule: plan_cases)
    case (pool m w' p q)
    let ?may = "may_borrow fexp lg flow now"
    have "0 < ?may" and le: "n \<le> base_room (lg_window lg) + ?may"
      using pool(1,8,9) shared_le(2) [of ?may flow me] unfolding plan_room_def by simp_all
    have bound: "borrowed (lg_window lg') \<le> u32_max"
      using borrowed_le_used [OF pa(1) assms(2)] pa(2) by (simp add: pool_ok_def)
    have "borrowed (lg_window lg) < 2 ^ 53"
      using borrowed_le_used [OF assms(1,2)] assms(3,5) by (simp add: pool_ok_def)
    note may = may_borrow_allowed [OF \<open>0 < ?may\<close> this]
    have "of_nat (borrowed (lg_window lg')) \<le> allowed fexp lg flow now"
    proof (cases "allowed fexp lg flow now < 2 ^ 53")
      case True
      have "borrowed (lg_window lg') \<le> borrowed (lg_window lg) + ?may"
        using plan_used [of n "lg_window lg" ?may] le pa(5,6) pool(1) by (simp add: borrowed_def borrowed_at_def)
      then have "(of_nat (borrowed (lg_window lg')) :: rat) \<le> of_nat (borrowed (lg_window lg) + ?may)"
        by (simp only: of_nat_le_iff)
      then show ?thesis using may [OF True] by linarith
    next
      case False
      have "(of_nat (borrowed (lg_window lg')) :: rat) \<le> of_nat u32_max" using bound by (simp only: of_nat_le_iff)
      then show ?thesis using False by simp
    qed
    then show ?thesis using pool by simp
  qed simp_all
  then show ?thesis using pa cf by (simp add: pool_ok_def)
qed

theorem plan_respects_pool_witness:
  "\<exists>lg' flow' ws. plan (\<lambda>_. 1) (out_ledger (out_new 2 4 0)) (conn_flow_new 0 9) 5 0 3 = (Some 2, lg', flow', ws)
     \<and> unacked (lg_window lg') = 2 \<and> p_used (tx_pool flow') \<le> p_size (tx_pool flow')"
proof -
  let ?lg = "out_ledger (out_new 2 4 0)" and ?flow = "conn_flow_new 0 9"
  let ?lg' = "?lg\<lparr>lg_window := \<lparr>win_base = 4, unacked = 2\<rparr>\<rparr>"
  have acc: "accounts {True} (\<lambda>_. lg_window ?lg) (tx_pool ?flow)" "ledger_ok ?lg" "pool_ok (tx_pool ?flow)"
    by (simp_all add: accounts_def out_new_def window_new_def conn_flow_new_def pool_new_def borrowed_def
        borrowed_at_def ledger_ok_def pool_ok_def)
  have plan: "plan (\<lambda>_. 1) ?lg ?flow 5 0 3 = (Some 2, ?lg', ?flow, [])"
    by (simp add: plan_def out_new_def window_new_def conn_flow_new_def pool_new_def base_room_def window_add_def
        window_set_def borrowed_def borrowed_at_def add_u64_def sub_u64_def)
  from plan_respects_pool [OF acc(1) _ _ acc(2,3) plan] show ?thesis by (simp add: plan)
qed

subsection \<open>Updates\<close>

lemma fst_slot_wake [simp]: "fst (slot_wake w) = None"
  by (cases w) auto

lemma set_slot_wake [simp]: "set (snd (slot_wake w)) = WakeTask ` set_option w"
  by (cases w) auto

lemma slot_wake_WakeTask: "set (snd (slot_wake w)) \<subseteq> range WakeTask"
  by (cases w) auto

lemma slot_wake_if_WakeTask: "set (if b then snd (slot_wake w) else []) \<subseteq> range WakeTask"
  using slot_wake_WakeTask [of w] by (cases b) auto

lemma out_poll_update_cases:
  assumes upd: "out_poll_update fexp out flow me now = (r, out', flow', ws)"
  obtains
    (closed) f where "out_state out = OutClosed f" "flow' = fst (pass_turn flow me)" "ws = snd (pass_turn flow me)"
      "r = (if sent f then Pending else Ready ([], True))" "out' = out\<lparr>out_state := OutClosed (f\<lparr>sent := True\<rparr>)\<rparr>"
  | (wait) lg where "\<forall>f. out_state out \<noteq> OutClosed f"
      "plan fexp (out_ledger out) flow me now (length (out_data out)) = (None, lg, flow', ws)"
      "r = Pending" "out' = out\<lparr>out_ledger := lg\<rparr>"
  | (send) n lg ws1 ws2 fin st where
      "plan fexp (out_ledger out) flow me now (length (out_data out)) = (Some n, lg, flow', ws1)"
      "r = Ready (take n (out_data out), fin)" "out' = \<lparr>out_state = st, out_ledger = lg\<rparr>"
      "ws = ws1 @ ws2" "set ws2 \<subseteq> range WakeTask"
      "(\<exists>w w'. out_state out = OutOpen (out_data out) w \<and> st = OutOpen (drop n (out_data out)) w' \<and> \<not> fin
           \<and> w' = (if drop n (out_data out) = [] then None else w))
       \<or> (\<exists>w. out_state out = OutHalfClosed (out_data out) w \<and>
           (if drop n (out_data out) = [] then fin \<and> st = OutClosed \<lparr>sent = True, received = False\<rparr>
            else \<not> fin \<and> st = OutHalfClosed (drop n (out_data out)) w))"
      "ws2 = (if drop n (out_data out) = [] then snd (slot_wake (out_writer out)) else [])"
proof (cases "out_state out")
  case (OutClosed f)
  have "f\<lparr>sent := True\<rparr> = f" if "sent f" using that by (cases f) simp
  then show thesis using upd OutClosed
    by (intro closed [of f]) (auto simp: out_poll_update_def Let_def split: prod.splits if_splits)
next
  case (OutOpen d w)
  obtain pr lg fl pws where plan: "plan fexp (out_ledger out) flow me now (length d) = (pr, lg, fl, pws)"
    by (metis prod_cases4)
  show thesis
  proof (cases pr)
    case None
    then show thesis using upd [symmetric] OutOpen plan by (intro wait) (simp_all add: out_poll_update_def out_data_def)
  next
    case (Some n)
    define w' where "w' = (if length d \<le> n then None else w)"
    have "r = Ready (take n d, False)" "out' = \<lparr>out_state = OutOpen (drop n d) w', out_ledger = lg\<rparr>" "flow' = fl"
        "ws = pws @ (if drop n d = [] then snd (slot_wake w) else [])"
      using upd OutOpen plan Some fst_slot_wake [of w]
      by (auto simp: out_poll_update_def Let_def w'_def simp del: fst_slot_wake split: prod.splits if_splits)
    then show thesis using OutOpen plan Some slot_wake_if_WakeTask [of "drop n d = []" w]
      by (intro send [of n lg pws False "OutOpen (drop n d) w'" "if drop n d = [] then snd (slot_wake w) else []"])
        (simp_all add: out_data_def out_writer_def w'_def)
  qed
next
  case (OutHalfClosed d w)
  obtain pr lg fl pws where plan: "plan fexp (out_ledger out) flow me now (length d) = (pr, lg, fl, pws)"
    by (metis prod_cases4)
  show thesis
  proof (cases pr)
    case None
    then show thesis using upd [symmetric] OutHalfClosed plan by (intro wait) (simp_all add: out_poll_update_def out_data_def)
  next
    case (Some n)
    let ?st = "if drop n d = [] then OutClosed \<lparr>sent = True, received = False\<rparr> else OutHalfClosed (drop n d) w"
    have "r = Ready (take n d, drop n d = [])" "out' = \<lparr>out_state = ?st, out_ledger = lg\<rparr>" "flow' = fl"
        "ws = pws @ (if drop n d = [] then snd (slot_wake w) else [])"
      using upd OutHalfClosed plan Some by (auto simp: out_poll_update_def Let_def split: prod.splits if_splits)
    then show thesis using OutHalfClosed plan Some slot_wake_if_WakeTask [of "drop n d = []" w]
      by (intro send [of n lg pws "drop n d = []" ?st "if drop n d = [] then snd (slot_wake w) else []"])
        (simp_all add: out_data_def out_writer_def)
  qed
qed

subsection \<open>The invariant is preserved\<close>

lemma out_new_inv: "0 < flimit \<Longrightarrow> out_inv (out_new flimit base now)"
  using unat_le_u32_max [of base] unsigned_less [of flimit, where ?'a = nat]
  by (simp add: out_inv_def out_new_def ledger_ok_def window_new_def unat_gt_0 word_greater_zero_iff)

lemma application_side_ledger:
  "out_ledger (snd (poll_write_ready out w)) = out_ledger out"
  "out_ledger (fst (snd (out_write out d me))) = out_ledger out"
  "out_ledger (snd (poll_flushed out w)) = out_ledger out"
  "out_ledger (fst (close_writing out me)) = out_ledger out"
  by (simp_all add: poll_write_ready_def out_write_def poll_flushed_def close_writing_def split: outbound_state.split)

lemma application_side_inv:
  assumes "out_inv out"
  shows "out_inv (snd (poll_write_ready out w))" "out_inv (fst (snd (out_write out d me)))"
    "out_inv (snd (poll_flushed out w))" "out_inv (fst (close_writing out me))"
  using assms
  by (auto simp: out_inv_def poll_write_ready_def out_write_def poll_flushed_def close_writing_def fin_default_def
      split: outbound_state.splits)

lemma out_poll_update_ok:
  assumes inv: "out_inv out" and acc: "accounts S win (tx_pool flow)" and s: "s \<in> S"
    and w: "win s = out_window out" and ok: "pool_ok (tx_pool flow)"
    and upd: "out_poll_update fexp out flow me now = (r, out', flow', ws)"
  shows "out_inv out'" and "accounts S (win(s := out_window out')) (tx_pool flow')" and "pool_ok (tx_pool flow')"
    and "p_size (tx_pool flow') = p_size (tx_pool flow)" and "rx_pool flow' = rx_pool flow"
    and "cf_srtt flow' = cf_srtt flow" and "win_base (out_window out') = win_base (out_window out)"
    and "unacked (out_window out') = unacked (out_window out) + (case r of Pending \<Rightarrow> 0 | Ready (d, _) \<Rightarrow> length d)"
    and "lg_frame_limit (out_ledger out') = lg_frame_limit (out_ledger out)"
proof -
  have lg: "ledger_ok (out_ledger out)" using inv by (simp add: out_inv_def)
  have id: "win(s := out_window out) = win" using w by auto
  have "out_inv out' \<and> accounts S (win(s := out_window out')) (tx_pool flow') \<and> pool_ok (tx_pool flow')
    \<and> p_size (tx_pool flow') = p_size (tx_pool flow) \<and> rx_pool flow' = rx_pool flow \<and> cf_srtt flow' = cf_srtt flow
    \<and> win_base (out_window out') = win_base (out_window out)
    \<and> unacked (out_window out') = unacked (out_window out) + (case r of Pending \<Rightarrow> 0 | Ready (d, _) \<Rightarrow> length d)
    \<and> lg_frame_limit (out_ledger out') = lg_frame_limit (out_ledger out)"
    using upd
  proof (cases rule: out_poll_update_cases)
    case (closed f)
    then show ?thesis using inv acc ok id by (simp add: out_inv_def)
  next
    case (wait lg')
    note pa = plan_accounts [OF acc s w lg ok wait(2)] and cf = plan_cf [OF lg ok wait(2)]
    have "out_inv out'" using inv pa(4) wait by (auto simp: out_inv_def split: outbound_state.splits)
    then show ?thesis using pa cf wait by simp
  next
    case (send n lg' ws1 ws2 fin st)
    note pa = plan_accounts [OF acc s w lg ok send(1)] and cf = plan_cf [OF lg ok send(1)]
    have "n \<le> length (out_data out)" by (rule plan_cases [OF lg ok send(1)]) simp_all
    moreover have "out_inv out'" using pa(4) send by (auto simp: out_inv_def split: if_splits)
    ultimately show ?thesis using pa cf send by simp
  qed
  then show "out_inv out'" "accounts S (win(s := out_window out')) (tx_pool flow')" "pool_ok (tx_pool flow')"
    "p_size (tx_pool flow') = p_size (tx_pool flow)" "rx_pool flow' = rx_pool flow" "cf_srtt flow' = cf_srtt flow"
    "win_base (out_window out') = win_base (out_window out)"
    "unacked (out_window out') = unacked (out_window out) + (case r of Pending \<Rightarrow> 0 | Ready (d, _) \<Rightarrow> length d)"
    "lg_frame_limit (out_ledger out') = lg_frame_limit (out_ledger out)"
    by blast+
qed

lemma received_window_update_eq:
  "received_window_update fexp out credit flow me now =
     (if fin_read_received out then Err (StreamError ''sent window update after FIN_READ'')
      else if unacked (out_window out) < unat credit then Err (StreamError ''returned more credit than was in flight'')
      else
        let (w, p, freed) = window_set (out_window out) (tx_pool flow) (unacked (out_window out) - unat credit);
            r = (case srtt_secs (cf_srtt flow) of None \<Rightarrow> lg_rate (out_ledger out)
                 | Some srtt \<Rightarrow> rate_add fexp (lg_rate (out_ledger out)) credit now srtt)
        in Ok (out\<lparr>out_ledger := (out_ledger out)\<lparr>lg_window := w, lg_rate := r\<rparr>\<rparr>, flow\<lparr>tx_pool := p\<rparr>,
             (if freed then wake_front (turns flow) else []) @ (if data_waits out then [WakeUpdates me] else [])))"
  unfolding received_window_update_def fin_read_received_def Let_def by (rule refl)

lemma received_window_update_ok:
  assumes inv: "out_inv out" and acc: "accounts S win (tx_pool flow)" and s: "s \<in> S"
    and w: "win s = out_window out" and ok: "pool_ok (tx_pool flow)"
    and upd: "received_window_update fexp out credit flow me now = Ok (out', flow', ws)"
  shows "out_inv out'" and "accounts S (win(s := out_window out')) (tx_pool flow')" and "pool_ok (tx_pool flow')"
    and "p_size (tx_pool flow') = p_size (tx_pool flow)" and "rx_pool flow' = rx_pool flow"
    and "cf_srtt flow' = cf_srtt flow" and "turns flow' = turns flow" and "out_state out' = out_state out"
    and "win_base (out_window out') = win_base (out_window out)"
    and "unacked (out_window out') + unat credit = unacked (out_window out)" and "\<not> fin_read_received out"
    and "p_used (tx_pool flow') < p_used (tx_pool flow) \<Longrightarrow> set (wake_front (turns flow)) \<subseteq> set ws"
    and "data_waits out \<Longrightarrow> WakeUpdates me \<in> set ws"
    and "lg_frame_limit (out_ledger out') = lg_frame_limit (out_ledger out)"
proof -
  obtain w' p freed where set: "window_set (win s) (tx_pool flow) (unacked (win s) - unat credit) = (w', p, freed)"
    by (metis prod_cases3)
  note ws = window_set_le [OF acc s ok set diff_le_self]
  let ?r = "case srtt_secs (cf_srtt flow) of None \<Rightarrow> lg_rate (out_ledger out)
                 | Some srtt \<Rightarrow> rate_add fexp (lg_rate (out_ledger out)) credit now srtt"
  from upd set show nf: "\<not> fin_read_received out"
    by (auto simp: received_window_update_eq w split: if_splits)
  from upd set nf have le: "unat credit \<le> unacked (win s)"
    and out': "out' = out\<lparr>out_ledger := (out_ledger out)\<lparr>lg_window := w', lg_rate := ?r\<rparr>\<rparr>"
    and flow': "flow' = flow\<lparr>tx_pool := p\<rparr>"
    and ws': "ws = (if freed then wake_front (turns flow) else []) @ (if data_waits out then [WakeUpdates me] else [])"
    by (auto simp: received_window_update_eq Let_def w split: if_splits)
  show "out_inv out'" using inv nf ws(4)
    by (auto simp: out' out_inv_def ledger_ok_def fin_read_received_def w split: outbound_state.splits)
  show "accounts S (win(s := out_window out')) (tx_pool flow')" "pool_ok (tx_pool flow')"
    "p_size (tx_pool flow') = p_size (tx_pool flow)" "win_base (out_window out') = win_base (out_window out)"
    "unacked (out_window out') + unat credit = unacked (out_window out)"
    using ws le by (simp_all add: out' flow' w)
  show "rx_pool flow' = rx_pool flow" "cf_srtt flow' = cf_srtt flow" "turns flow' = turns flow"
    "out_state out' = out_state out" "lg_frame_limit (out_ledger out') = lg_frame_limit (out_ledger out)"
    by (simp_all add: out' flow')
  show "set (wake_front (turns flow)) \<subseteq> set ws" if "p_used (tx_pool flow') < p_used (tx_pool flow)"
    using that ws(7) by (simp add: flow' ws')
  show "WakeUpdates me \<in> set ws" if "data_waits out" using that by (simp add: ws')
qed

lemma close_reading_side_eq:
  "close_reading_side out me =
     (if fin_read_received out then Err (StreamError ''sent duplicate FIN_READ'')
      else Ok (out\<lparr>out_state := OutClosed \<lparr>sent = sent (out_fin_state out), received = True\<rparr>\<rparr>,
        case out_state out of
          OutClosed _ \<Rightarrow> []
        | OutOpen _ writer \<Rightarrow> snd (slot_wake writer) @ [WakeUpdates me]
        | OutHalfClosed _ writer \<Rightarrow> snd (slot_wake writer) @ [WakeUpdates me]))"
proof (cases "out_state out")
  case (OutClosed f)
  then show ?thesis
    by (cases f) (simp add: close_reading_side_def fin_read_received_def out_fin_state_def)
qed (simp_all add: close_reading_side_def fin_read_received_def out_fin_state_def fin_default_def)

lemma out_abort_closed: "\<exists>f. out_state (fst (out_abort out me)) = OutClosed f \<and> received f"
proof -
  have "fin_read_received (fst (out_abort out me))"
    by (simp add: out_abort_def close_reading_side_eq) (simp add: fin_read_received_def)
  then show ?thesis by (auto simp: fin_read_received_def split: outbound_state.splits)
qed

lemma received_fin_read_ok:
  assumes inv: "out_inv out" and acc: "accounts S win (tx_pool flow)" and s: "s \<in> S"
    and w: "win s = out_window out" and ok: "pool_ok (tx_pool flow)"
    and upd: "received_fin_read out flow me = Ok (out', flow', ws)"
  shows "out_inv out'" and "accounts S (win(s := out_window out')) (tx_pool flow')" and "pool_ok (tx_pool flow')"
    and "p_size (tx_pool flow') = p_size (tx_pool flow)" and "rx_pool flow' = rx_pool flow"
    and "cf_srtt flow' = cf_srtt flow" and "turns flow' = turns flow"
    and "out_state out' = OutClosed \<lparr>sent = sent (out_fin_state out), received = True\<rparr>"
    and "win_base (out_window out') = win_base (out_window out)"
    and "unacked (out_window out') = 0" and "\<not> fin_read_received out"
    and "p_used (tx_pool flow') < p_used (tx_pool flow) \<Longrightarrow> set (wake_front (turns flow)) \<subseteq> set ws"
    and "lg_frame_limit (out_ledger out') = lg_frame_limit (out_ledger out)"
proof -
  obtain w' p freed where set: "window_set (win s) (tx_pool flow) 0 = (w', p, freed)"
    by (metis prod_cases3)
  note ws = window_set_le [OF acc s ok set le0]
  from upd show nf: "\<not> fin_read_received out"
    by (auto simp: received_fin_read_def close_reading_side_eq split: if_splits)
  from upd set nf have
    out': "out' = out\<lparr>out_state := OutClosed \<lparr>sent = sent (out_fin_state out), received = True\<rparr>,
      out_ledger := (out_ledger out)\<lparr>lg_window := w'\<rparr>\<rparr>"
    and flow': "flow' = flow\<lparr>tx_pool := p\<rparr>" and ws': "freed \<longrightarrow> set (wake_front (turns flow)) \<subseteq> set ws"
    by (auto simp: received_fin_read_def close_reading_side_eq Let_def w)
  show "out_inv out'" using inv ws(4,5) by (simp add: out' out_inv_def ledger_ok_def w)
  show "accounts S (win(s := out_window out')) (tx_pool flow')" "pool_ok (tx_pool flow')"
    "p_size (tx_pool flow') = p_size (tx_pool flow)" "win_base (out_window out') = win_base (out_window out)"
    "unacked (out_window out') = 0"
    using ws by (simp_all add: out' flow' w)
  show "rx_pool flow' = rx_pool flow" "cf_srtt flow' = cf_srtt flow" "turns flow' = turns flow"
    "lg_frame_limit (out_ledger out') = lg_frame_limit (out_ledger out)"
    "out_state out' = OutClosed \<lparr>sent = sent (out_fin_state out), received = True\<rparr>"
    by (simp_all add: out' flow')
  show "set (wake_front (turns flow)) \<subseteq> set ws" if "p_used (tx_pool flow') < p_used (tx_pool flow)"
    using that ws(7) ws' by (simp add: flow')
qed

text \<open>
  C24. A sending direction refuses credit exactly after \<^verbatim>\<open>FIN_READ\<close> or when it is more than what is in
  flight, so the counter of bytes in flight never wraps below zero; it refuses \<^verbatim>\<open>FIN_READ\<close> exactly
  when it was received before; it never panics. Aborting leaves the direction closed for the
  application: writing fails and flushing does not wait.
\<close>

theorem outbound_errors:
  "(\<forall>e. received_window_update fexp out credit flow me now = Err e \<longleftrightarrow>
       (if fin_read_received out then e = StreamError ''sent window update after FIN_READ''
        else unacked (out_window out) < unat credit \<and> e = StreamError ''returned more credit than was in flight''))
   \<and> received_window_update fexp out credit flow me now \<noteq> Panic
   \<and> (\<forall>e. received_fin_read out flow me = Err e \<longleftrightarrow>
       fin_read_received out \<and> e = StreamError ''sent duplicate FIN_READ'')
   \<and> received_fin_read out flow me \<noteq> Panic
   \<and> fin_read_received (fst (out_abort out me))
   \<and> (\<forall>w d. fst (poll_write_ready (fst (out_abort out me)) w) = Ready (Err BrokenPipe)
       \<and> fst (out_write (fst (out_abort out me)) d me) = Err BrokenPipe
       \<and> fst (poll_flushed (fst (out_abort out me)) w) = Ready ())"
proof -
  obtain f where "out_state (fst (out_abort out me)) = OutClosed f" "received f"
    using out_abort_closed by blast
  then show ?thesis
    by (auto simp: fin_read_received_def [of "fst (out_abort out me)"] received_window_update_eq received_fin_read_def close_reading_side_eq Let_def
        poll_write_ready_def out_write_def poll_flushed_def split: prod.splits)
qed

subsection \<open>Turns are not lost\<close>

lemma seq_front_in: "seq_front q = Some x \<Longrightarrow> x \<in> set q"
  by (cases q) (auto simp: seq_front_def)

lemma seq_front_remove1: "distinct q \<Longrightarrow> seq_front (remove1 me q) \<noteq> Some me"
  using seq_front_in [of "remove1 me q" me] by auto

lemma pass_turn_open:
  assumes "turn_open (fst (pass_turn flow me)) = Some f" "turn_open flow \<noteq> Some f"
  shows "WakeUpdates f \<in> set (snd (pass_turn flow me))"
proof -
  have room: "has_room (tx_pool flow)" and f: "seq_front (remove1 me (turns flow)) = Some f"
    using assms(1) by (auto simp: turn_open_def split: if_splits)
  then have "me \<in> set (turns flow)"
    using assms(2) by (cases "me \<in> set (turns flow)") (simp_all add: turn_open_def remove1_idem)
  then show ?thesis using room f by (simp add: pass_turn_wakes wake_front_def)
qed

lemma plan_none_turn:
  assumes "ledger_ok lg" "pool_ok (tx_pool flow)" "distinct (turns flow)"
    and "plan fexp lg flow me now waiting = (None, lg', flow', ws)"
  shows "turn_open flow' \<noteq> Some me"
  using assms(1,2,4)
proof (cases rule: plan_cases)
  case (none q)
  then show ?thesis
  proof (cases "waiting = 0 \<or> may_borrow fexp lg flow now = 0")
    case True
    then show ?thesis using none seq_front_remove1 [OF assms(3), of me] by (simp add: turn_open_def)
  next
    case False
    then have "shared (may_borrow fexp lg flow now) flow me = 0" using none(4) by (simp add: plan_room_def)
    then have "has_turn (turns flow) me \<Longrightarrow> \<not> has_room (tx_pool flow)"
      using False by (simp add: shared_def has_room_def min_def split: if_splits)
    then show ?thesis using none False
      by (cases "turns flow") (auto simp: turn_open_def seq_front_def has_turn_iff turns_join_eq split: if_splits)
  qed
qed simp_all

lemma window_add_base:
  assumes "accounts S win p" "s \<in> S" "pool_ok p" "win_base (win s) \<le> u32_max" "n \<le> u32_max"
    and "n \<le> base_room (win s)" "window_add (win s) p n = (w', p')"
  shows "p_used p' = p_used p" "p_size p' = p_size p"
  using window_add_accounts(2,5) [OF assms(1-5,7)] assms(6) borrowed_le_used [OF assms(1,2)]
  by (auto simp: base_room_def borrowed_def borrowed_at_def)

lemma plan_turn_open:
  assumes acc: "accounts S win (tx_pool flow)" and s: "s \<in> S" and w: "win s = lg_window lg"
    and lg: "ledger_ok lg" and ok: "pool_ok (tx_pool flow)"
    and plan: "plan fexp lg flow me now waiting = (r, lg', flow', ws)"
    and f: "turn_open flow' = Some f" "turn_open flow \<noteq> Some f"
  shows "WakeUpdates f \<in> set ws"
  using lg ok plan
proof (cases rule: plan_cases)
  case (none q)
  show ?thesis
  proof (cases "waiting = 0 \<or> may_borrow fexp lg flow now = 0")
    case True
    then have "flow' = fst (pass_turn flow me)" "ws = snd (pass_turn flow me)"
      using none pass_turn_eq [of flow me] by (metis fst_conv, simp)
    then show ?thesis using f pass_turn_open by simp
  next
    case False
    then have "shared (may_borrow fexp lg flow now) flow me = 0" using none(4) by (simp add: plan_room_def)
    then have "has_turn (turns flow) me \<Longrightarrow> \<not> has_room (tx_pool flow)"
      using False by (simp add: shared_def has_room_def min_def split: if_splits)
    then show ?thesis using none False f
      by (cases "turns flow") (auto simp: turn_open_def seq_front_def has_turn_iff turns_join_eq split: if_splits)
  qed
next
  case (base n w' p)
  have "n \<le> u32_max" using base(6) lg by (simp add: ledger_ok_def)
  then have "p_used p = p_used (tx_pool flow)" "p_size p = p_size (tx_pool flow)"
    using window_add_base [OF acc s ok, of n w' p] base lg by (simp_all add: w ledger_ok_def)
  then show ?thesis using f base(3) by (simp add: turn_open_def has_room_def pool_room_def split: if_splits)
next
  case (pool n w' p q)
  then show ?thesis using f(1) by (auto simp: turn_open_def wake_front_def split: if_splits)
qed

text \<open>A stream that is polled and has nothing to send does not hold the turn.\<close>

lemma out_poll_update_turn:
  assumes inv: "out_inv out" and acc: "accounts S win (tx_pool flow)" and s: "s \<in> S"
    and w: "win s = out_window out" and ok: "pool_ok (tx_pool flow)" and dist: "distinct (turns flow)"
    and upd: "out_poll_update fexp out flow me now = (r, out', flow', ws)"
  shows "distinct (turns flow')" and "r = Pending \<Longrightarrow> turn_open flow' \<noteq> Some me"
    and "turn_open flow' = Some f \<Longrightarrow> turn_open flow \<noteq> Some f \<Longrightarrow> WakeUpdates f \<in> set ws"
proof -
  have lg: "ledger_ok (out_ledger out)" using inv by (simp add: out_inv_def)
  have "distinct (turns flow') \<and> (r = Pending \<longrightarrow> turn_open flow' \<noteq> Some me)
    \<and> (turn_open flow' = Some f \<longrightarrow> turn_open flow \<noteq> Some f \<longrightarrow> WakeUpdates f \<in> set ws)"
    using upd
  proof (cases rule: out_poll_update_cases)
    case (closed f')
    have "turn_open flow' \<noteq> Some me"
      using closed(2) seq_front_remove1 [OF dist] by (simp add: turn_open_def)
    then show ?thesis using closed(2,3) pass_turn_open [of flow me f] dist by (simp add: distinct_remove1)
  next
    case (wait lg')
    then show ?thesis
      using plan_turn_open [OF acc s w lg ok wait(2)] plan_none_turn [OF lg ok dist wait(2)]
        plan_cf(5) [OF lg ok wait(2)] dist by blast
  next
    case (send n lg' ws1 ws2 fin st)
    then show ?thesis
      using plan_turn_open [OF acc s w lg ok send(1)] plan_cf(5) [OF lg ok send(1)] dist by auto
  qed
  then show "distinct (turns flow')" "r = Pending \<Longrightarrow> turn_open flow' \<noteq> Some me"
    "turn_open flow' = Some f \<Longrightarrow> turn_open flow \<noteq> Some f \<Longrightarrow> WakeUpdates f \<in> set ws" by blast+
qed

subsection \<open>Histories\<close>

lemma out_state_simps:
  "out_data \<lparr>out_state = OutOpen d w, out_ledger = lg\<rparr> = d"
  "out_data \<lparr>out_state = OutHalfClosed d w, out_ledger = lg\<rparr> = d"
  "out_data \<lparr>out_state = OutClosed f, out_ledger = lg\<rparr> = []"
  "\<not> sent (out_fin_state \<lparr>out_state = OutOpen d w, out_ledger = lg\<rparr>)"
  "\<not> sent (out_fin_state \<lparr>out_state = OutHalfClosed d w, out_ledger = lg\<rparr>)"
  "out_fin_state \<lparr>out_state = OutClosed f, out_ledger = lg\<rparr> = f"
  by (simp_all add: out_data_def out_fin_state_def fin_default_def)

lemma out_trace_inv_application:
  assumes "out_trace_inv t"
  shows "poll_write_ready (to_out t) w = (r, out) \<Longrightarrow> out_trace_inv (t\<lparr>to_out := out\<rparr>)"
    and "out_write (to_out t) d me = (Ok (), out, ws) \<Longrightarrow>
      out_trace_inv (t\<lparr>to_out := out, to_written := to_written t @ d\<rparr>)"
    and "poll_flushed (to_out t) w = (r', out) \<Longrightarrow> out_trace_inv (t\<lparr>to_out := out\<rparr>)"
    and "close_writing (to_out t) me = (out, ws) \<Longrightarrow> out_trace_inv (t\<lparr>to_out := out\<rparr>)"
  using assms application_side_inv [of "to_out t"]
  by (cases "out_state (to_out t)";
      force simp: out_trace_inv_def poll_write_ready_def out_write_def poll_flushed_def close_writing_def
        out_data_def out_fin_state_def fin_read_received_def fin_default_def split: if_splits)+

lemma out_trace_inv_update:
  assumes inv: "out_trace_inv t" and p: "pool_counts (tx_pool flow) (out_window (to_out t))"
    and upd: "out_poll_update fexp (to_out t) flow me now = (u, out, flow', ws)"
  shows "out_trace_inv (log_sent t u out)"
proof -
  have it: "out_inv (to_out t)" "pool_ok (tx_pool flow)"
    using inv p by (simp_all add: out_trace_inv_def pool_counts_def)
  then have i: "out_inv out"
    using out_poll_update_ok(1) [OF it(1) pool_counts_accounts [OF p], of True] upd by simp
  from upd show ?thesis
  proof (cases rule: out_poll_update_cases)
    case (closed f)
    then show ?thesis using inv i
      by (auto simp: out_trace_inv_def log_sent_def out_data_def out_fin_state_def fin_read_received_def)
  next
    case (wait lg)
    then show ?thesis using inv i
      by (simp add: out_trace_inv_def log_sent_def out_data_def out_fin_state_def fin_read_received_def)
  next
    case (send n lg ws1 ws2 fin st)
    then have "\<not> to_cut t" using inv by (auto simp: out_trace_inv_def fin_read_received_def)
    moreover have "\<not> sent (out_fin_state (to_out t))"
      using send(6) by (auto simp: out_fin_state_def fin_default_def)
    moreover have "out_data out = drop n (out_data (to_out t))" "sent (out_fin_state out) = fin"
      using send(3,6) by (auto simp: out_state_simps split: if_splits)
    ultimately show ?thesis using inv i send(2)
      by (simp add: out_trace_inv_def log_sent_def take_is_prefix)
  qed
qed

lemma out_trace_inv_credit:
  assumes inv: "out_trace_inv t" and p: "pool_counts (tx_pool flow) (out_window (to_out t))"
    and upd: "received_window_update fexp (to_out t) c flow me now = Ok (out, flow', ws)"
  shows "out_trace_inv (t\<lparr>to_out := out\<rparr>)"
proof -
  have it: "out_inv (to_out t)" "pool_ok (tx_pool flow)"
    using inv p by (simp_all add: out_trace_inv_def pool_counts_def)
  note ok = received_window_update_ok [OF it(1) pool_counts_accounts [OF p], of True, simplified, OF it(2) upd]
  show ?thesis using inv ok(1,8)
    by (simp add: out_trace_inv_def out_data_def out_fin_state_def fin_read_received_def)
qed

lemma out_trace_inv_fin_read:
  assumes inv: "out_trace_inv t" and p: "pool_counts (tx_pool flow) (out_window (to_out t))"
    and upd: "received_fin_read (to_out t) flow me = Ok (out, flow', ws)"
  shows "out_trace_inv (t\<lparr>to_out := out, to_cut := to_cut t \<or> out_data (to_out t) \<noteq> []\<rparr>)"
proof -
  have it: "out_inv (to_out t)" "pool_ok (tx_pool flow)"
    using inv p by (simp_all add: out_trace_inv_def pool_counts_def)
  note ok = received_fin_read_ok [OF it(1) pool_counts_accounts [OF p], of True, simplified, OF it(2) upd]
  show ?thesis using inv ok(1,8)
    by (simp add: out_trace_inv_def out_data_def out_fin_state_def fin_read_received_def)
qed

lemma out_reach_inv: "0 < flimit \<Longrightarrow> out_reach fexp me flimit base t \<Longrightarrow> out_trace_inv t"
proof (rotate_tac, induction rule: out_reach.induct)
  case (start t0)
  then show ?case using out_new_inv [of flimit base t0]
    by (simp add: out_trace_inv_def out_trace_new_def out_new_def out_fin_state_def fin_default_def out_data_def)
qed (blast intro: out_trace_inv_application out_trace_inv_update out_trace_inv_credit out_trace_inv_fin_read)+

text \<open>
  C9. In every history of a sending direction, while the connection lasts, the bytes that are handed to the connection are a
  prefix of the bytes that the application wrote, in order and without duplication.
  \<^verbatim>\<open>FIN_WRITE\<close> is sent at most once. Unless a \<^verbatim>\<open>FIN_READ\<close> of the peer arrived while data waited, which is then discarded, it is sent only
  after everything that was written, and flushing reports success only when everything was handed over.
\<close>

theorem outbound_delivery:
  assumes "out_reach fexp me flimit base t" and "0 < flimit"
  shows "prefix (to_sent t) (to_written t) \<and> to_fins t \<le> 1
    \<and> (0 < to_fins t \<and> \<not> to_cut t \<longrightarrow> to_sent t = to_written t)
    \<and> (\<forall>w. fst (poll_flushed (to_out t) w) = Ready () \<and> \<not> to_cut t \<longrightarrow> to_sent t = to_written t)
    \<and> (to_cut t \<longrightarrow> fin_read_received (to_out t))"
proof -
  have inv: "out_trace_inv t" by (rule out_reach_inv [OF assms(2,1)])
  have "out_data (to_out t) = []" if "sent (out_fin_state (to_out t))"
    using that by (auto simp: out_fin_state_def out_data_def fin_default_def split: outbound_state.splits)
  moreover have "out_data (to_out t) = []" if "fst (poll_flushed (to_out t) w) = Ready ()" for w
    using that by (auto simp: poll_flushed_def out_data_def split: outbound_state.splits if_splits)
  ultimately show ?thesis using inv by (auto simp: out_trace_inv_def split: if_splits)
qed

theorem outbound_delivery_witness:
  "\<exists>t. out_reach (\<lambda>_. 1) 5 2 4 t \<and> to_written t = [1, 2, 3] \<and> to_sent t = [1, 2] \<and> prefix (to_sent t) (to_written t)"
proof -
  let ?t0 = "out_trace_new 2 4 0" and ?o0 = "out_new 2 4 0" and ?flow = "conn_flow_new 0 9"
  let ?o1 = "?o0\<lparr>out_state := OutOpen [1, 2, 3] None\<rparr>"
  let ?t1 = "?t0\<lparr>to_out := ?o1, to_written := [1, 2, 3]\<rparr>"
  let ?o2 = "\<lparr>out_state = OutOpen [3] None, out_ledger = (out_ledger ?o0)\<lparr>lg_window := \<lparr>win_base = 4, unacked = 2\<rparr>\<rparr>\<rparr>"
  let ?t2 = "?t1\<lparr>to_out := ?o2, to_sent := [1, 2]\<rparr>"
  note defs = out_trace_new_def out_new_def window_new_def conn_flow_new_def pool_new_def base_room_def
    window_add_def window_set_def borrowed_def borrowed_at_def add_u64_def sub_u64_def
  have r1: "out_reach (\<lambda>_. 1) 5 2 4 ?t1"
    using out_reach.writes [OF out_reach.start [of "\<lambda>_. 1" 5 2 4 0], of "[1, 2, 3]" ?o1 "[WakeUpdates 5]"]
    by (simp add: out_write_def defs)
  have r2: "out_reach (\<lambda>_. 1) 5 2 4 ?t2"
    using out_reach.update [OF r1, of ?flow 0 "Ready ([1, 2], False)" ?o2 ?flow "[]"]
    by (simp add: defs out_poll_update_def plan_def pool_counts_def pool_ok_def log_sent_def)
  show ?thesis using outbound_delivery [OF r2] r2 by (intro exI [of _ ?t2]) simp
qed

end
