(* ===== verification/Stream_State.thy ===== *)
theory Stream_State
  imports Outbound Config Header
begin

text \<open>
  A stream: its two directions together (\<^verbatim>\<open>src/stream.rs\<close>), the connection's handle that takes the
  stream part of inbound frames (\<^verbatim>\<open>src/stream/handle.rs\<close>), the task that yields what the stream has
  to send (\<^verbatim>\<open>src/stream/updates.rs\<close>), and the halves that the application holds
  (\<^verbatim>\<open>src/stream/duplex.rs\<close>).

  The state behind the lock of a stream is passed and returned by every operation. The lock is
  poisoned only by a panic of another user of the stream, and none of the operations panics in a
  state that satisfies the invariant, so a poisoned lock is not modelled. An application half is
  its \<^verbatim>\<open>Option<StreamRef>\<close>, as a flag that tells whether it still refers to the stream.

  The lemmas show the accounts that every operation keeps, the updates that a stream yields, what an abort leaves to
  read, and the wake-ups: which tasks an operation must wake (\<open>wakes_tasks\<close>, \<open>wakes_updates\<close>), and that it does.
\<close>

section \<open>Definitions\<close>

subsection \<open>The state\<close>

record stream_state =
  st_in :: inbound
  st_out :: outbound

definition stream_new :: "rammux_config \<Rightarrow> instant \<Rightarrow> stream_state" where
  "stream_new config now = \<lparr>st_in = in_new (local_recv_window config),
     st_out = out_new (frame_limit config) (remote_recv_window config) now\<rparr>"

definition stream_fin_state :: "stream_state \<Rightarrow> fin_state" where
  "stream_fin_state st = fin_and (in_fin_state (st_in st)) (out_fin_state (st_out st))"

subsection \<open>The handle of the connection\<close>

definition handle_credit :: "(f64 \<Rightarrow> f64) \<Rightarrow> u32 option \<Rightarrow> stream_state \<Rightarrow> conn_flow \<Rightarrow> sref \<Rightarrow> instant
    \<Rightarrow> (stream_state \<times> conn_flow \<times> wake list, stream_error) rres" where
  "handle_credit fexp credit st flow me now = (case credit of
      None \<Rightarrow> Ok (st, flow, [])
    | Some c \<Rightarrow> r_bind (received_window_update fexp (st_out st) c flow me now) (\<lambda>(out, flow, ws).
        Ok (st\<lparr>st_out := out\<rparr>, flow, ws)))"

definition handle_data :: "data \<Rightarrow> stream_state \<Rightarrow> conn_flow
    \<Rightarrow> (stream_state \<times> conn_flow \<times> wake list, stream_error) rres" where
  "handle_data d st flow =
     r_bind (in_received_data (st_in st) d (rx_pool flow)) (\<lambda>(i, p, ws).
       Ok (st\<lparr>st_in := i\<rparr>, flow\<lparr>rx_pool := p\<rparr>, ws))"

definition handle_fin_write :: "bool \<Rightarrow> stream_state \<Rightarrow> conn_flow \<Rightarrow> sref
    \<Rightarrow> (stream_state \<times> conn_flow \<times> wake list, stream_error) rres" where
  "handle_fin_write fin st flow me = (if fin then
      r_bind (in_received_fin_write (st_in st) me) (\<lambda>(i, ws). Ok (st\<lparr>st_in := i\<rparr>, flow, ws))
    else Ok (st, flow, []))"

definition handle_fin_read :: "bool \<Rightarrow> stream_state \<Rightarrow> conn_flow \<Rightarrow> sref
    \<Rightarrow> (stream_state \<times> conn_flow \<times> wake list, stream_error) rres" where
  "handle_fin_read fin st flow me = (if fin then
      r_bind (received_fin_read (st_out st) flow me) (\<lambda>(out, flow, ws). Ok (st\<lparr>st_out := out\<rparr>, flow, ws))
    else Ok (st, flow, []))"

definition handle_received :: "(f64 \<Rightarrow> f64) \<Rightarrow> u32 option \<Rightarrow> data \<Rightarrow> control_flags \<Rightarrow> stream_state \<Rightarrow> conn_flow
    \<Rightarrow> sref \<Rightarrow> instant \<Rightarrow> (fin_state \<times> stream_state \<times> conn_flow \<times> wake list, stream_error) rres" where
  "handle_received fexp credit d flags st flow me now =
     r_bind (handle_credit fexp credit st flow me now) (\<lambda>(st, flow, ws1).
     r_bind (handle_data d st flow) (\<lambda>(st, flow, ws2).
     r_bind (handle_fin_write (fin_write flags) st flow me) (\<lambda>(st, flow, ws3).
     r_bind (handle_fin_read (fin_read flags) st flow me) (\<lambda>(st, flow, ws4).
     Ok (stream_fin_state st, st, flow, ws1 @ ws2 @ ws3 @ ws4)))))"

definition handle_abort :: "stream_state \<Rightarrow> sref \<Rightarrow> stream_state \<times> wake list" where
  "handle_abort st me =
     (let (i, ws1) = (case in_received_fin_write (st_in st) me of Ok r \<Rightarrow> r | _ \<Rightarrow> (st_in st, []));
          (out, ws2) = out_abort (st_out st) me
      in (st\<lparr>st_in := i, st_out := out\<rparr>, ws1 @ ws2))"

subsection \<open>What the stream has to send\<close>

record stream_update =
  su_id :: stream_id
  su_credit :: u32
  su_data :: data
  su_flags :: control_flags

record stream_updates =
  up_id :: stream_id
  up_syn :: bool

datatype ('b, 'c) control_flow = Break 'b | Continue 'c

type_synonym progress = "(stream_update \<times> fin_state, stream_update \<times> fin_state) control_flow"

definition poll_progress :: "(f64 \<Rightarrow> f64) \<Rightarrow> stream_updates \<Rightarrow> stream_state \<Rightarrow> conn_flow \<Rightarrow> sref \<Rightarrow> instant
    \<Rightarrow> progress poll \<times> stream_updates \<times> stream_state \<times> conn_flow \<times> wake list" where
  "poll_progress fexp this st flow me now =
     (let (inb, i, p) = in_poll_update (st_in st) (rx_pool flow);
          flow = flow\<lparr>rx_pool := p\<rparr>;
          (outb, out, flow, ws) = out_poll_update fexp (st_out st) flow me now;
          st = st\<lparr>st_in := i, st_out := out\<rparr>
      in if inb = Pending \<and> outb = Pending then (Pending, this, st, flow, ws)
         else
           let fin = stream_fin_state st;
               (credit, fread) = (case inb of Ready u \<Rightarrow> u | Pending \<Rightarrow> (0, False));
               (d, fwrite) = (case outb of Ready u \<Rightarrow> u | Pending \<Rightarrow> ([], False));
               update = \<lparr>su_id = up_id this, su_credit = credit, su_data = d,
                 su_flags = \<lparr>fin_read = fread, fin_write = fwrite, syn = up_syn this\<rparr>\<rparr>;
               this = this\<lparr>up_syn := False\<rparr>
           in (Ready (if sent fin then Break (update, fin) else Continue (update, fin)), this, st, flow, ws))"

definition transform_break :: "conn_flow \<Rightarrow> sref \<Rightarrow> conn_flow \<times> wake list" where
  "transform_break flow me = pass_turn flow me"

subsection \<open>The application halves\<close>

record half =
  half_id :: stream_id
  half_shared :: bool

definition sink_poll_ready :: "half \<Rightarrow> stream_state \<Rightarrow> waker
    \<Rightarrow> (unit, io_error) rres poll \<times> half \<times> stream_state" where
  "sink_poll_ready h st w =
     (if \<not> half_shared h then (Ready (Err BrokenPipe), h, st)
      else
        let (r, out) = poll_write_ready (st_out st) w; st = st\<lparr>st_out := out\<rparr>
        in case r of
             Pending \<Rightarrow> (Pending, h, st)
           | Ready res \<Rightarrow> (Ready res, (case res of Ok _ \<Rightarrow> h | _ \<Rightarrow> h\<lparr>half_shared := False\<rparr>), st))"

definition sink_start_send :: "half \<Rightarrow> stream_state \<Rightarrow> data \<Rightarrow> sref
    \<Rightarrow> (unit, io_error) rres \<times> half \<times> stream_state \<times> wake list" where
  "sink_start_send h st d me =
     (if \<not> half_shared h then (Err BrokenPipe, h, st, [])
      else
        let (res, out, ws) = out_write (st_out st) d me
        in (res, (if res = Err BrokenPipe then h\<lparr>half_shared := False\<rparr> else h), st\<lparr>st_out := out\<rparr>, ws))"

definition sink_poll_flush :: "half \<Rightarrow> stream_state \<Rightarrow> waker \<Rightarrow> unit poll \<times> stream_state" where
  "sink_poll_flush h st w =
     (if \<not> half_shared h then (Ready (), st)
      else let (r, out) = poll_flushed (st_out st) w in (r, st\<lparr>st_out := out\<rparr>))"

definition sink_poll_close :: "half \<Rightarrow> stream_state \<Rightarrow> waker \<Rightarrow> sref
    \<Rightarrow> unit poll \<times> half \<times> stream_state \<times> wake list" where
  "sink_poll_close h st w me =
     (if \<not> half_shared h then (Ready (), h, st, [])
      else
        let (out, ws) = close_writing (st_out st) me; (r, out) = poll_flushed out w; st = st\<lparr>st_out := out\<rparr>
        in case r of Pending \<Rightarrow> (Pending, h, st, ws) | Ready _ \<Rightarrow> (Ready (), h\<lparr>half_shared := False\<rparr>, st, ws))"

definition sink_drop :: "half \<Rightarrow> stream_state \<Rightarrow> sref \<Rightarrow> stream_state \<times> wake list" where
  "sink_drop h st me =
     (if half_shared h then let (out, ws) = close_writing (st_out st) me in (st\<lparr>st_out := out\<rparr>, ws) else (st, []))"

definition stream_poll_next :: "half \<Rightarrow> stream_state \<Rightarrow> waker \<Rightarrow> sref
    \<Rightarrow> (data option poll \<times> half \<times> stream_state \<times> wake list, unit) rres" where
  "stream_poll_next h st w me =
     (if \<not> half_shared h then Ok (Ready None, h, st, [])
      else r_bind (in_poll_read (st_in st) w me) (\<lambda>(r, i, ws).
        Ok (r, (if r = Ready None then h\<lparr>half_shared := False\<rparr> else h), st\<lparr>st_in := i\<rparr>, ws)))"

definition stream_drop :: "half \<Rightarrow> stream_state \<Rightarrow> sref \<Rightarrow> stream_state \<times> wake list" where
  "stream_drop h st me =
     (if half_shared h then let (i, ws) = in_close_reading (st_in st) me in (st\<lparr>st_in := i\<rparr>, ws) else (st, []))"

record duplex =
  dx_sink :: half
  dx_stream :: half

definition duplex_new :: "stream_id \<Rightarrow> duplex" where
  "duplex_new i = \<lparr>dx_sink = \<lparr>half_id = i, half_shared = True\<rparr>, dx_stream = \<lparr>half_id = i, half_shared = True\<rparr>\<rparr>"

definition duplex_drop :: "duplex \<Rightarrow> stream_state \<Rightarrow> sref \<Rightarrow> stream_state \<times> wake list" where
  "duplex_drop dx st me =
     (let (st, ws1) = sink_drop (dx_sink dx) st me; (st, ws2) = stream_drop (dx_stream dx) st me
      in (st, ws1 @ ws2))"

subsection \<open>The invariant\<close>

definition stream_inv :: "stream_state \<Rightarrow> bool" where
  [inv_defs]: "stream_inv st \<longleftrightarrow> in_inv (st_in st) \<and> out_inv (st_out st)"

text \<open>
  The state that the streams of a connection share: both pools are within their size, the turn
  queue has no duplicates, and the pools count what the windows of the streams borrow.
\<close>

definition flow_ok :: "sref set \<Rightarrow> (sref \<Rightarrow> stream_state) \<Rightarrow> conn_flow \<Rightarrow> bool" where
  [inv_defs]: "flow_ok S st flow \<longleftrightarrow> pool_ok (rx_pool flow) \<and> pool_ok (tx_pool flow) \<and> distinct (turns flow)
     \<and> accounts S (\<lambda>s. in_window (st_in (st s))) (rx_pool flow)
     \<and> accounts S (\<lambda>s. out_window (st_out (st s))) (tx_pool flow)"

text \<open>What every operation on a stream keeps of the stream and of the shared state.\<close>

definition step_ok :: "sref set \<Rightarrow> (sref \<Rightarrow> stream_state) \<Rightarrow> conn_flow \<Rightarrow> sref \<Rightarrow> stream_state \<Rightarrow> conn_flow \<Rightarrow> bool" where
  "step_ok S st flow s st' flow' \<longleftrightarrow> stream_inv st' \<and> flow_ok S (st(s := st')) flow'
     \<and> p_size (rx_pool flow') = p_size (rx_pool flow) \<and> p_size (tx_pool flow') = p_size (tx_pool flow)
     \<and> cf_srtt flow' = cf_srtt flow
     \<and> win_base (in_window (st_in st')) = win_base (in_window (st_in (st s)))
     \<and> win_base (out_window (st_out st')) = win_base (out_window (st_out (st s)))
     \<and> lg_frame_limit (out_ledger (st_out st')) = lg_frame_limit (out_ledger (st_out (st s)))"

text \<open>The update that carries what the two directions send.\<close>

definition update_of :: "stream_updates \<Rightarrow> (u32 \<times> bool) poll \<Rightarrow> out_update \<Rightarrow> stream_update" where
  "update_of this inb outb =
     \<lparr>su_id = up_id this,
      su_credit = (case inb of Ready u \<Rightarrow> fst u | Pending \<Rightarrow> 0),
      su_data = (case outb of Ready u \<Rightarrow> fst u | Pending \<Rightarrow> []),
      su_flags = \<lparr>fin_read = (case inb of Ready u \<Rightarrow> snd u | Pending \<Rightarrow> False),
        fin_write = (case outb of Ready u \<Rightarrow> snd u | Pending \<Rightarrow> False), syn = up_syn this\<rparr>\<rparr>"

fun progress_update :: "progress \<Rightarrow> stream_update" where
  "progress_update (Break (u, f)) = u"
| "progress_update (Continue (u, f)) = u"

text \<open>What the application reads in a number of attempts when nothing more arrives.\<close>

fun read_times :: "nat \<Rightarrow> inbound \<Rightarrow> waker \<Rightarrow> sref \<Rightarrow> data option poll list" where
  "read_times 0 i w me = []"
| "read_times (Suc n) i w me = (case in_poll_read i w me of Ok (r, i', _) \<Rightarrow> r # read_times n i' w me | _ \<Rightarrow> [])"

subsection \<open>Wake-ups\<close>

text \<open>The tasks of the application that wait for a stream: a reader and a writer.\<close>

definition parked :: "stream_state \<Rightarrow> waker set" where
  "parked st = set_option (in_reader (st_in st)) \<union> set_option (out_writer (st_out st))"

text \<open>
  What makes the task of the stream run: a \<^verbatim>\<open>FIN\<close> to send, enough credit to return, data to send.
\<close>

definition in_work :: "inbound \<Rightarrow> bool" where
  "in_work i = (case in_state i of InClosed f \<Rightarrow> \<not> sent f | _ \<Rightarrow> in_threshold i \<le> in_credit i)"

definition out_work :: "outbound \<Rightarrow> bool" where
  "out_work out = (case out_state out of OutClosed f \<Rightarrow> \<not> sent f | _ \<Rightarrow> data_waits out)"

definition wakes_updates :: "sref \<Rightarrow> stream_state \<Rightarrow> stream_state \<Rightarrow> wake list \<Rightarrow> bool" where
  "wakes_updates me st st' ws \<longleftrightarrow> (in_work (st_in st') \<longrightarrow> in_work (st_in st) \<or> WakeUpdates me \<in> set ws)
     \<and> (out_work (st_out st') \<longrightarrow> out_work (st_out st) \<or> WakeUpdates me \<in> set ws)"

definition wakes_tasks :: "stream_state \<Rightarrow> stream_state \<Rightarrow> wake list \<Rightarrow> bool" where
  "wakes_tasks st st' ws \<longleftrightarrow> parked st \<subseteq> parked st' \<union> {w. WakeTask w \<in> set ws}"

text \<open>What the connection and the application do with a stream.\<close>

inductive conn_op :: "sref \<Rightarrow> stream_state \<Rightarrow> stream_state \<Rightarrow> wake list \<Rightarrow> bool" for me :: sref where
  gets: "handle_received fexp credit d flags st flow me now = Ok (fin, st', flow', ws) \<Longrightarrow> conn_op me st st' ws"
| sends: "poll_progress fexp this st flow me now = (r, this', st', flow', ws) \<Longrightarrow> conn_op me st st' ws"
| aborts: "handle_abort st me = (st', ws) \<Longrightarrow> conn_op me st st' ws"

inductive app_op :: "sref \<Rightarrow> stream_state \<Rightarrow> stream_state \<Rightarrow> wake list \<Rightarrow> bool" for me :: sref where
  ready: "sink_poll_ready h st w = (r, h', st') \<Longrightarrow> app_op me st st' []"
| writes: "sink_start_send h st d me = (r, h', st', ws) \<Longrightarrow> app_op me st st' ws"
| flush: "sink_poll_flush h st w = (r', st') \<Longrightarrow> app_op me st st' []"
| close: "sink_poll_close h st w me = (r', h', st', ws) \<Longrightarrow> app_op me st st' ws"
| drop_sink: "sink_drop h st me = (st', ws) \<Longrightarrow> app_op me st st' ws"
| reads: "stream_poll_next h st w me = Ok (r'', h', st', ws) \<Longrightarrow> app_op me st st' ws"
| drop_stream: "stream_drop h st me = (st', ws) \<Longrightarrow> app_op me st st' ws"

section \<open>Lemmas\<close>

lemma fun_upd_comp: "(\<lambda>x. f ((g(a := b)) x)) = (\<lambda>x. f (g x))(a := f b)"
  by auto

lemma stream_new_inv: "config_typed config \<Longrightarrow> stream_inv (stream_new config now)"
  using in_new_inv out_new_inv by (simp add: stream_inv_def stream_new_def config_typed_def word_neq_0_conv)

lemma step_ok_trans:
  "step_ok S st flow s st1 flow1 \<Longrightarrow> step_ok S (st(s := st1)) flow1 s st2 flow2 \<Longrightarrow> step_ok S st flow s st2 flow2"
  by (simp add: step_ok_def)

lemma step_ok_refl: "stream_inv (st s) \<Longrightarrow> flow_ok S st flow \<Longrightarrow> step_ok S st flow s (st s) flow"
  by (simp add: step_ok_def)

lemma flow_ok_in:
  assumes "flow_ok S st flow" "accounts S ((\<lambda>s. in_window (st_in (st s)))(s := in_window i)) p" "pool_ok p"
    "out_window out = out_window (st_out (st s))"
  shows "flow_ok S (st(s := \<lparr>st_in = i, st_out = out\<rparr>)) (flow\<lparr>rx_pool := p\<rparr>)"
proof -
  have "(\<lambda>x. out_window (st_out ((st(s := \<lparr>st_in = i, st_out = out\<rparr>)) x))) = (\<lambda>x. out_window (st_out (st x)))"
    using assms(4) by auto
  moreover have "(\<lambda>x. in_window (st_in ((st(s := \<lparr>st_in = i, st_out = out\<rparr>)) x)))
      = (\<lambda>s. in_window (st_in (st s)))(s := in_window i)"
    by auto
  ultimately show ?thesis using assms(1-3) unfolding flow_ok_def by simp
qed

lemma flow_ok_out:
  assumes "flow_ok S st flow" "accounts S ((\<lambda>s. out_window (st_out (st s)))(s := out_window out)) (tx_pool flow')"
    "pool_ok (tx_pool flow')" "rx_pool flow' = rx_pool flow" "distinct (turns flow')"
    "in_window i = in_window (st_in (st s))"
  shows "flow_ok S (st(s := \<lparr>st_in = i, st_out = out\<rparr>)) flow'"
proof -
  have "(\<lambda>x. in_window (st_in ((st(s := \<lparr>st_in = i, st_out = out\<rparr>)) x))) = (\<lambda>x. in_window (st_in (st x)))"
    using assms(6) by auto
  moreover have "(\<lambda>x. out_window (st_out ((st(s := \<lparr>st_in = i, st_out = out\<rparr>)) x)))
      = (\<lambda>s. out_window (st_out (st s)))(s := out_window out)"
    by auto
  ultimately show ?thesis using assms(1-5) unfolding flow_ok_def by simp
qed

lemma stream_eta: "st\<lparr>st_in := i\<rparr> = \<lparr>st_in = i, st_out = st_out st\<rparr>" "st\<lparr>st_out := out\<rparr> = \<lparr>st_in = st_in st, st_out = out\<rparr>"
  for st :: stream_state
  by simp_all

subsection \<open>The handle\<close>

lemma handle_credit_ok:
  assumes inv: "stream_inv (st s)" and ok: "flow_ok S st flow" and s: "s \<in> S"
    and h: "handle_credit fexp credit (st s) flow me now = Ok (st', flow', ws)"
  shows "step_ok S st flow s st' flow'"
proof (cases credit)
  case None
  then show ?thesis using h inv ok by (auto simp: handle_credit_def intro: step_ok_refl)
next
  case (Some c)
  then obtain out where upd: "received_window_update fexp (st_out (st s)) c flow me now = Ok (out, flow', ws)"
    and st': "st' = (st s)\<lparr>st_out := out\<rparr>"
    using h by (auto simp: handle_credit_def)
  have i: "out_inv (st_out (st s))" "pool_ok (tx_pool flow)" "accounts S (\<lambda>s. out_window (st_out (st s))) (tx_pool flow)"
    using inv ok by (simp_all add: stream_inv_def flow_ok_def)
  note r = received_window_update_ok [OF i(1,3) s _ i(2) upd, simplified]
  show ?thesis using inv ok r flow_ok_out [OF ok r(2,3,5), of "st_in (st s)"]
    by (simp add: step_ok_def st' stream_inv_def flow_ok_def [of _ _ flow] stream_eta)
qed

lemma handle_data_ok:
  assumes inv: "stream_inv (st s)" and ok: "flow_ok S st flow" and s: "s \<in> S" and len: "length d \<le> u32_max"
    and h: "handle_data d (st s) flow = Ok (st', flow', ws)"
  shows "step_ok S st flow s st' flow'"
proof -
  obtain i p where rcv: "in_received_data (st_in (st s)) d (rx_pool flow) = Ok (i, p, ws)"
    and st': "st' = (st s)\<lparr>st_in := i\<rparr>" and flow': "flow' = flow\<lparr>rx_pool := p\<rparr>"
    using h by (auto simp: handle_data_def)
  have i: "in_inv (st_in (st s))" "pool_ok (rx_pool flow)" "accounts S (\<lambda>s. in_window (st_in (st s))) (rx_pool flow)"
    using inv ok by (simp_all add: stream_inv_def flow_ok_def)
  note r = in_received_data_ok [OF i(1,3) s refl i(2) len rcv]
  have "win_base (in_window i) = win_base (in_window (st_in (st s)))"
    using rcv
  proof (cases rule: in_received_data_cases)
    case (queued ds reader w)
    then show ?thesis using in_count_accounts(4) [OF i(3) s i(2) _ len queued(3)] i(1) by (simp add: in_inv_def)
  next
    case (counted f w)
    then show ?thesis using in_count_accounts(4) [OF i(3) s i(2) _ len counted(5)] i(1) by (simp add: in_inv_def)
  qed simp_all
  then show ?thesis using inv r flow_ok_in [OF ok r(2,3), of "st_out (st s)"]
    by (simp add: step_ok_def st' flow' stream_inv_def stream_eta)
qed

lemma handle_fin_write_ok:
  assumes inv: "stream_inv (st s)" and ok: "flow_ok S st flow"
    and h: "handle_fin_write fin (st s) flow me = Ok (st', flow', ws)"
  shows "step_ok S st flow s st' flow'"
proof (cases fin)
  case False
  then show ?thesis using h inv ok by (auto simp: handle_fin_write_def intro: step_ok_refl)
next
  case True
  then obtain i where rcv: "in_received_fin_write (st_in (st s)) me = Ok (i, ws)"
    and st': "st' = (st s)\<lparr>st_in := i\<rparr>" and flow': "flow' = flow"
    using h by (auto simp: handle_fin_write_def)
  have i: "in_inv i" "in_window i = in_window (st_in (st s))"
    using in_received_fin_write_inv [OF _ rcv] inv by (simp_all add: stream_inv_def)
  have "accounts S ((\<lambda>s. in_window (st_in (st s)))(s := in_window i)) (rx_pool flow)" "pool_ok (rx_pool flow)"
    using ok i(2) by (simp_all add: flow_ok_def fun_upd_idem)
  from flow_ok_in [OF ok this, of "st_out (st s)"] show ?thesis
    using inv i by (simp add: step_ok_def st' flow' stream_inv_def stream_eta)
qed

lemma handle_fin_read_ok:
  assumes inv: "stream_inv (st s)" and ok: "flow_ok S st flow" and s: "s \<in> S"
    and h: "handle_fin_read fin (st s) flow me = Ok (st', flow', ws)"
  shows "step_ok S st flow s st' flow'"
proof (cases fin)
  case False
  then show ?thesis using h inv ok by (auto simp: handle_fin_read_def intro: step_ok_refl)
next
  case True
  then obtain out where upd: "received_fin_read (st_out (st s)) flow me = Ok (out, flow', ws)"
    and st': "st' = (st s)\<lparr>st_out := out\<rparr>"
    using h by (auto simp: handle_fin_read_def)
  have i: "out_inv (st_out (st s))" "pool_ok (tx_pool flow)" "accounts S (\<lambda>s. out_window (st_out (st s))) (tx_pool flow)"
    using inv ok by (simp_all add: stream_inv_def flow_ok_def)
  note r = received_fin_read_ok [OF i(1,3) s _ i(2) upd, simplified]
  show ?thesis using inv ok r flow_ok_out [OF ok r(2,3,5), of "st_in (st s)"]
    by (simp add: step_ok_def st' stream_inv_def flow_ok_def [of _ _ flow] stream_eta)
qed

lemma handle_received_step:
  assumes inv: "stream_inv (st s)" and ok: "flow_ok S st flow" and s: "s \<in> S" and len: "length d \<le> u32_max"
    and h: "handle_received fexp credit d flags (st s) flow me now = Ok (fin, st', flow', ws)"
  shows "step_ok S st flow s st' flow'" and "fin = stream_fin_state st'"
proof -
  from h obtain st1 flow1 ws1 st2 flow2 ws2 st3 flow3 ws3 ws4 where
    h1: "handle_credit fexp credit (st s) flow me now = Ok (st1, flow1, ws1)" and
    h2: "handle_data d st1 flow1 = Ok (st2, flow2, ws2)" and
    h3: "handle_fin_write (fin_write flags) st2 flow2 me = Ok (st3, flow3, ws3)" and
    h4: "handle_fin_read (fin_read flags) st3 flow3 me = Ok (st', flow', ws4)" and
    fin: "fin = stream_fin_state st'"
    by (auto simp: handle_received_def)
  have s1: "step_ok S st flow s st1 flow1" by (rule handle_credit_ok [OF inv ok s h1])
  then have "stream_inv ((st(s := st1)) s)" "flow_ok S (st(s := st1)) flow1" by (simp_all add: step_ok_def)
  from handle_data_ok [OF this s len] h2 have "step_ok S (st(s := st1)) flow1 s st2 flow2" by simp
  with s1 have s2: "step_ok S st flow s st2 flow2" by (rule step_ok_trans)
  then have "stream_inv ((st(s := st2)) s)" "flow_ok S (st(s := st2)) flow2" by (simp_all add: step_ok_def)
  from handle_fin_write_ok [OF this] h3 have "step_ok S (st(s := st2)) flow2 s st3 flow3" by simp
  with s2 have s3: "step_ok S st flow s st3 flow3" by (rule step_ok_trans)
  then have "stream_inv ((st(s := st3)) s)" "flow_ok S (st(s := st3)) flow3" by (simp_all add: step_ok_def)
  from handle_fin_read_ok [OF this s] h4 have "step_ok S (st(s := st3)) flow3 s st' flow'" by simp
  with s3 show "step_ok S st flow s st' flow'" by (rule step_ok_trans)
  show "fin = stream_fin_state st'" by (rule fin)
qed

lemma handle_received_not_Panic: "handle_received fexp credit d flags st flow me now \<noteq> Panic"
proof -
  have no: "in_received_data i d p \<noteq> Panic" "in_received_fin_write i me \<noteq> Panic"
    "received_window_update fexp out c fl me now \<noteq> Panic" "received_fin_read out fl me \<noteq> Panic" for i p out c fl
    by (auto simp: in_received_data_def in_received_fin_write_def in_count_def received_window_update_eq
        received_fin_read_def close_reading_side_eq Let_def r_bind_eq_Panic
        split: inbound_state.splits prod.splits if_splits)
  show ?thesis
    by (auto simp: handle_received_def handle_credit_def handle_data_def handle_fin_write_def handle_fin_read_def
        r_bind_eq_Panic no split: option.splits if_splits prod.splits)
qed

subsection \<open>Updates\<close>

lemma turn_open_rx: "turn_open (flow\<lparr>rx_pool := p\<rparr>) = turn_open flow"
  by (simp add: turn_open_def cong: if_cong)

lemma poll_progress_parts:
  assumes "poll_progress fexp this st flow me now = (r, this', st', flow', ws)"
  obtains inb i p outb out where
    "in_poll_update (st_in st) (rx_pool flow) = (inb, i, p)"
    "out_poll_update fexp (st_out st) (flow\<lparr>rx_pool := p\<rparr>) me now = (outb, out, flow', ws)"
    "st' = \<lparr>st_in = i, st_out = out\<rparr>"
    "inb = Pending \<and> outb = Pending \<and> r = Pending \<and> this' = this
     \<or> \<not> (inb = Pending \<and> outb = Pending) \<and> this' = this\<lparr>up_syn := False\<rparr>
       \<and> r = Ready ((if sent (stream_fin_state st') then Break else Continue) (update_of this inb outb, stream_fin_state st'))"
proof -
  obtain inb i p where inb: "in_poll_update (st_in st) (rx_pool flow) = (inb, i, p)" by (metis prod_cases3)
  obtain outb out fl ows where outb: "out_poll_update fexp (st_out st) (flow\<lparr>rx_pool := p\<rparr>) me now = (outb, out, fl, ows)"
    by (metis prod_cases4)
  have eta: "st\<lparr>st_in := i, st_out := out\<rparr> = \<lparr>st_in = i, st_out = out\<rparr>" by simp
  note eq = assms [unfolded poll_progress_def inb Let_def split_beta fst_conv snd_conv outb eta, symmetric]
  have fl: "fl = flow'" "ows = ws" "st' = \<lparr>st_in = i, st_out = out\<rparr>"
    using eq by (simp_all split: if_splits)
  show thesis
    using eq outb by (intro that [OF inb, of outb out]) (auto simp: fl update_of_def split: if_splits poll.splits)
qed

lemma poll_progress_step:
  assumes inv: "stream_inv (st s)" and ok: "flow_ok S st flow" and s: "s \<in> S"
    and upd: "poll_progress fexp this (st s) flow me now = (r, this', st', flow', ws)"
  shows "step_ok S st flow s st' flow'"
    and "r = Pending \<Longrightarrow> turn_open flow' \<noteq> Some me"
    and "turn_open flow' = Some f \<Longrightarrow> turn_open flow \<noteq> Some f \<Longrightarrow> WakeUpdates f \<in> set ws"
proof -
  from upd obtain inb i p outb out where
    inb: "in_poll_update (st_in (st s)) (rx_pool flow) = (inb, i, p)" and
    outb: "out_poll_update fexp (st_out (st s)) (flow\<lparr>rx_pool := p\<rparr>) me now = (outb, out, flow', ws)" and
    st': "st' = \<lparr>st_in = i, st_out = out\<rparr>" and r: "r = Pending \<longrightarrow> outb = Pending"
    by (rule poll_progress_parts) auto
  have iv: "in_inv (st_in (st s))" "out_inv (st_out (st s))" using inv by (simp_all add: stream_inv_def)
  have ac: "pool_ok (rx_pool flow)" "accounts S (\<lambda>s. in_window (st_in (st s))) (rx_pool flow)"
    using ok by (simp_all add: flow_ok_def)
  note ii = in_poll_update_ok [OF iv(1) ac(2) s refl ac(1) inb]
  let ?st1 = "st(s := \<lparr>st_in = i, st_out = st_out (st s)\<rparr>)" and ?flow1 = "flow\<lparr>rx_pool := p\<rparr>"
  have ok1: "flow_ok S ?st1 ?flow1" using flow_ok_in [OF ok ii(2,3)] by simp
  have oc: "accounts S (\<lambda>x. out_window (st_out (?st1 x))) (tx_pool ?flow1)" "pool_ok (tx_pool ?flow1)" "distinct (turns ?flow1)"
    using ok1 by (simp_all add: flow_ok_def)
  note oo = out_poll_update_ok [OF iv(2) oc(1) s _ oc(2) outb, simplified]
    and tt = out_poll_update_turn [OF iv(2) oc(1) s _ oc(2,3) outb, simplified]
  have "flow_ok S (?st1(s := st')) flow'"
    using flow_ok_out [OF ok1, of s out flow' i] oo tt(1) by (simp add: st')
  then show "step_ok S st flow s st' flow'"
    using ii oo by (simp add: step_ok_def st' stream_inv_def)
  show "turn_open flow' \<noteq> Some me" if "r = Pending" using tt(2) that r by simp
  show "WakeUpdates f \<in> set ws" if "turn_open flow' = Some f" "turn_open flow \<noteq> Some f"
    using tt(3) that by (simp add: turn_open_rx)
qed

lemma in_update_sends:
  assumes "in_inv i" "in_poll_update i p = (Ready (c, fin), i', p')"
  shows "c \<noteq> 0 \<or> fin" "fin \<Longrightarrow> \<not> sent (in_fin_state i) \<and> sent (in_fin_state i')"
  using assms
  by (cases rule: in_poll_update_cases;
      auto simp: in_fin_state_def word_unat_eq_iff unat_of_nat dest: arg_cong [of _ _ unat])+

lemma out_update_sends:
  assumes "ledger_ok (out_ledger out)" "pool_ok (tx_pool flow)"
    and "out_poll_update fexp out flow me now = (Ready (d, fin), out', flow', ws)"
  shows "d \<noteq> [] \<or> fin" "length d \<le> lg_frame_limit (out_ledger out)"
    "fin \<Longrightarrow> \<not> sent (out_fin_state out) \<and> sent (out_fin_state out')"
proof -
  have "(d \<noteq> [] \<or> fin) \<and> length d \<le> lg_frame_limit (out_ledger out)
    \<and> (fin \<longrightarrow> \<not> sent (out_fin_state out) \<and> sent (out_fin_state out'))"
    using assms(3)
  proof (cases rule: out_poll_update_cases)
    case (closed f)
    then show ?thesis by (simp add: out_fin_state_def split: if_splits)
  next
    case (send n lg ws1 ws2 fin' st)
    have n: "0 < n" "n \<le> lg_frame_limit (out_ledger out)" "n \<le> length (out_data out)"
      by (rule plan_cases [OF assms(1,2) send(1)]; simp)+
    moreover have "fin \<longrightarrow> \<not> sent (out_fin_state out) \<and> sent (out_fin_state out')"
      using send(2,3,6) by (auto simp: out_fin_state_def fin_default_def split: if_splits)
    ultimately show ?thesis using send(2) by auto
  qed simp
  then show "d \<noteq> [] \<or> fin" "length d \<le> lg_frame_limit (out_ledger out)"
    "fin \<Longrightarrow> \<not> sent (out_fin_state out) \<and> sent (out_fin_state out')" by blast+
qed

lemma update_wellformed:
  assumes "stream_inv st" "pool_ok (tx_pool flow)"
    and "poll_progress fexp this st flow me now = (Ready pr, this', st', flow', ws)"
    and "u = progress_update pr"
  shows "(su_credit u \<noteq> 0 \<or> su_data u \<noteq> [] \<or> fin_read (su_flags u) \<or> fin_write (su_flags u))
    \<and> length (su_data u) \<le> lg_frame_limit (out_ledger (st_out st)) \<and> length (su_data u) \<le> 65535
    \<and> su_id u = up_id this \<and> syn (su_flags u) = up_syn this \<and> \<not> up_syn this'
    \<and> (fin_read (su_flags u) \<longrightarrow> \<not> sent (in_fin_state (st_in st)) \<and> sent (in_fin_state (st_in st')))
    \<and> (fin_write (su_flags u) \<longrightarrow> \<not> sent (out_fin_state (st_out st)) \<and> sent (out_fin_state (st_out st')))
    \<and> pr = (if sent (stream_fin_state st') then Break else Continue) (u, stream_fin_state st')"
proof -
  from assms(3) obtain inb i p outb out where
    inb: "in_poll_update (st_in st) (rx_pool flow) = (inb, i, p)" and
    outb: "out_poll_update fexp (st_out st) (flow\<lparr>rx_pool := p\<rparr>) me now = (outb, out, flow', ws)" and
    st': "st' = \<lparr>st_in = i, st_out = out\<rparr>" and ne: "\<not> (inb = Pending \<and> outb = Pending)" and
    this': "this' = this\<lparr>up_syn := False\<rparr>" and
    pr: "pr = (if sent (stream_fin_state st') then Break else Continue) (update_of this inb outb, stream_fin_state st')"
    by (rule poll_progress_parts) auto
  have lg: "ledger_ok (out_ledger (st_out st))" "in_inv (st_in st)"
    using assms(1) by (simp_all add: stream_inv_def out_inv_def)
  have u: "u = update_of this inb outb" using assms(4) pr by simp
  have lim: "lg_frame_limit (out_ledger (st_out st)) \<le> 65535" using lg(1) by (simp add: ledger_ok_def)
  have tx: "pool_ok (tx_pool (flow\<lparr>rx_pool := p\<rparr>))" using assms(2) by simp
  have I: "c \<noteq> 0 \<or> fin" "fin \<longrightarrow> \<not> sent (in_fin_state (st_in st)) \<and> sent (in_fin_state i)"
    if "inb = Ready (c, fin)" for c fin
    using in_update_sends [OF lg(2)] inb that by blast+
  have O: "d \<noteq> [] \<or> fin" "length d \<le> lg_frame_limit (out_ledger (st_out st))"
      "fin \<longrightarrow> \<not> sent (out_fin_state (st_out st)) \<and> sent (out_fin_state out)"
    if "outb = Ready (d, fin)" for d fin
    using out_update_sends [OF lg(1) tx outb [unfolded that]] by blast+
  have "su_credit u \<noteq> 0 \<or> su_data u \<noteq> [] \<or> fin_read (su_flags u) \<or> fin_write (su_flags u)"
    using ne I(1) O(1) by (cases inb; cases outb) (fastforce simp: u update_of_def)+
  moreover have "length (su_data u) \<le> lg_frame_limit (out_ledger (st_out st))"
    using O(2) by (cases outb) (auto simp: u update_of_def)
  moreover have "\<not> sent (in_fin_state (st_in st)) \<and> sent (in_fin_state (st_in st'))" if "fin_read (su_flags u)"
    using that I(2) by (cases inb) (force simp: u update_of_def st')+
  moreover have "\<not> sent (out_fin_state (st_out st)) \<and> sent (out_fin_state (st_out st'))" if "fin_write (su_flags u)"
    using that O(3) by (cases outb) (force simp: u update_of_def st')+
  moreover have "su_id u = up_id this" "syn (su_flags u) = up_syn this" "\<not> up_syn this'"
    by (simp_all add: u update_of_def this')
  ultimately show ?thesis using lim pr [folded u] by linarith
qed

text \<open>
  C19. An update that a stream yields is never empty: it carries credit, data or a \<^verbatim>\<open>FIN\<close>, so a frame
  can always be made of it; its data fits in a frame. \<^verbatim>\<open>FIN_READ\<close> and \<^verbatim>\<open>FIN_WRITE\<close> are in it only
  when they were not sent before, \<^verbatim>\<open>SYN\<close> only in the first update of a stream that we opened. The
  task ends exactly with the update after which both were sent.
\<close>

theorem stream_update_wellformed:
  assumes "stream_inv st" "pool_ok (tx_pool flow)"
    and "poll_progress fexp this st flow me now = (Ready pr, this', st', flow', ws)"
    and "u = progress_update pr"
  shows "(su_credit u \<noteq> 0 \<or> su_data u \<noteq> [] \<or> fin_read (su_flags u) \<or> fin_write (su_flags u))
    \<and> length (su_data u) \<le> lg_frame_limit (out_ledger (st_out st)) \<and> length (su_data u) \<le> 65535
    \<and> su_id u = up_id this \<and> syn (su_flags u) = up_syn this \<and> \<not> up_syn this'
    \<and> (fin_read (su_flags u) \<longrightarrow> \<not> sent (in_fin_state (st_in st)) \<and> sent (in_fin_state (st_in st')))
    \<and> (fin_write (su_flags u) \<longrightarrow> \<not> sent (out_fin_state (st_out st)) \<and> sent (out_fin_state (st_out st')))
    \<and> pr = (if sent (stream_fin_state st') then Break else Continue) (u, stream_fin_state st')"
  using assms by (rule update_wellformed)

theorem stream_update_wellformed_witness:
  "\<exists>r this' st' flow' ws. poll_progress (\<lambda>_. 1) \<lparr>up_id = StreamId 0, up_syn = True\<rparr>
       ((stream_new config_new 0)\<lparr>st_out := (out_new 4 8 0)\<lparr>out_state := OutOpen [7, 9] None\<rparr>\<rparr>) (conn_flow_new 5 5) 3 0
       = (Ready r, this', st', flow', ws)
     \<and> su_data (progress_update r) = [7, 9] \<and> syn (su_flags (progress_update r)) \<and> \<not> up_syn this'"
proof -
  let ?st = "(stream_new config_new 0)\<lparr>st_out := (out_new 4 8 0)\<lparr>out_state := OutOpen [7, 9] None\<rparr>\<rparr>"
  let ?this = "\<lparr>up_id = StreamId 0, up_syn = True\<rparr>"
  obtain r this' st' flow' ws where eq: "poll_progress (\<lambda>_. 1) ?this ?st (conn_flow_new 5 5) 3 0 = (r, this', st', flow', ws)"
    by (metis prod_cases5)
  note defs = stream_new_def in_new_def out_new_def window_new_def conn_flow_new_def pool_new_def base_room_def
    window_add_def window_set_def borrowed_def borrowed_at_def add_u64_def sub_u64_def config_new_def credit_threshold_eq
  have r: "r = Ready (Continue (\<lparr>su_id = StreamId 0, su_credit = 0, su_data = [7, 9],
      su_flags = \<lparr>fin_read = False, fin_write = False, syn = True\<rparr>\<rparr>, \<lparr>sent = False, received = False\<rparr>))"
    using eq by (simp add: poll_progress_def defs in_poll_update_def out_poll_update_def plan_def
        stream_fin_state_def in_fin_state_def out_fin_state_def fin_and_def fin_default_def)
  have "in_inv (in_new (local_recv_window config_new))" "out_inv (out_new 4 8 0)"
    by (rule in_new_inv, rule out_new_inv, simp)
  then have inv: "stream_inv ?st" "pool_ok (tx_pool (conn_flow_new 5 5))"
    by (simp_all add: stream_inv_def stream_new_def out_inv_def conn_flow_new_def pool_new_ok)
  from stream_update_wellformed [OF inv eq [unfolded r] refl] eq [unfolded r]
  show ?thesis by auto
qed

text \<open>
  C18. Taking the stream part of a received frame never panics. When it is accepted, the invariant of
  the stream holds again, and the state shared by the streams still counts exactly what they
  borrow, with neither pool overdrawn; the \<^verbatim>\<open>FIN\<close> state that is reported is the one of the stream.
\<close>

theorem handle_received_safe:
  assumes "stream_inv (st s)" "flow_ok S st flow" "s \<in> S" "length d \<le> u32_max"
  shows "handle_received fexp credit d flags (st s) flow me now \<noteq> Panic
    \<and> (\<forall>fin st' flow' ws. handle_received fexp credit d flags (st s) flow me now = Ok (fin, st', flow', ws) \<longrightarrow>
         fin = stream_fin_state st' \<and> stream_inv st' \<and> flow_ok S (st(s := st')) flow'
         \<and> p_used (rx_pool flow') \<le> p_size (rx_pool flow) \<and> p_used (tx_pool flow') \<le> p_size (tx_pool flow))"
proof -
  have "handle_received fexp credit d flags (st s) flow me now \<noteq> Panic" by (rule handle_received_not_Panic)
  moreover have "fin = stream_fin_state st' \<and> stream_inv st' \<and> flow_ok S (st(s := st')) flow'
      \<and> p_used (rx_pool flow') \<le> p_size (rx_pool flow) \<and> p_used (tx_pool flow') \<le> p_size (tx_pool flow)"
    if "handle_received fexp credit d flags (st s) flow me now = Ok (fin, st', flow', ws)" for fin st' flow' ws
    using handle_received_step [OF assms that] by (auto simp: step_ok_def flow_ok_def pool_ok_def)
  ultimately show ?thesis by blast
qed

theorem handle_received_safe_witness:
  "stream_inv (stream_new config_new 0) \<and>
   handle_received (\<lambda>_. 1) None [1, 2] \<lparr>fin_read = True, fin_write = True, syn = False\<rparr> (stream_new config_new 0)
     (conn_flow_new 5 5) 3 0 \<noteq> Panic"
proof -
  have inv: "stream_inv (stream_new config_new 0)"
    by (rule stream_new_inv) (simp add: config_typed_def config_new_def)
  have "flow_ok {3} (\<lambda>_. stream_new config_new 0) (conn_flow_new 5 5)"
    by (simp add: flow_ok_def conn_flow_new_def pool_ok_def accounts_def pool_new_def stream_new_def in_new_def out_new_def
        window_new_def borrowed_def borrowed_at_def)
  from handle_received_safe [OF inv this, of 3 "[1, 2]"] inv show ?thesis by simp
qed

subsection \<open>The application halves\<close>

lemma halves_keep:
  assumes "stream_inv st"
  shows "stream_inv (snd (snd (sink_poll_ready h st w)))" "stream_inv (fst (snd (snd (sink_start_send h st d me))))"
    "stream_inv (snd (sink_poll_flush h st w))" "stream_inv (fst (snd (snd (sink_poll_close h st w me))))"
    "stream_inv (fst (sink_drop h st me))" "stream_inv (fst (stream_drop h st me))"
  using assms application_side_inv [of "st_out st"] application_side_inv(3) [OF application_side_inv(4), of "st_out st"]
    in_close_reading_inv [of "st_in st"]
  by (auto simp: stream_inv_def sink_poll_ready_def sink_start_send_def sink_poll_flush_def sink_poll_close_def
      sink_drop_def stream_drop_def split_beta Let_def split: poll.split)

lemma stream_poll_next_ok:
  assumes "stream_inv st"
  shows "stream_poll_next h st w me \<noteq> Panic"
    and "stream_poll_next h st w me = Ok (r, h', st', ws) \<Longrightarrow> stream_inv st' \<and> st_out st' = st_out st
      \<and> in_window (st_in st') = in_window (st_in st)"
proof -
  have inv: "in_inv (st_in st)" using assms by (simp add: stream_inv_def)
  show "stream_poll_next h st w me \<noteq> Panic"
    using in_poll_read_not_Panic [OF inv] by (auto simp: stream_poll_next_def r_bind_eq_Panic)
  show "stream_inv st' \<and> st_out st' = st_out st \<and> in_window (st_in st') = in_window (st_in st)"
    if "stream_poll_next h st w me = Ok (r, h', st', ws)"
    using that assms in_poll_read_inv [OF inv] by (auto simp: stream_poll_next_def stream_inv_def split: if_splits)
qed

subsection \<open>No wake-up is lost\<close>

text \<open>The part of the invariant that says who may wait, and what an operation on one direction does.\<close>

definition in_slot_ok :: "inbound \<Rightarrow> bool" where
  "in_slot_ok i \<longleftrightarrow> (in_queued i \<noteq> [] \<longrightarrow> in_reader i = None)"

definition out_slot_ok :: "outbound \<Rightarrow> bool" where
  "out_slot_ok out \<longleftrightarrow> (out_data out = [] \<longrightarrow> out_writer out = None)"

definition in_notifies :: "sref \<Rightarrow> inbound \<Rightarrow> inbound \<Rightarrow> wake list \<Rightarrow> bool" where
  "in_notifies me i i' ws \<longleftrightarrow> (in_work i' \<longrightarrow> in_work i \<or> WakeUpdates me \<in> set ws)
     \<and> WakeTask ` set_option (in_reader i) \<subseteq> WakeTask ` set_option (in_reader i') \<union> set ws \<and> in_slot_ok i'"

definition out_notifies :: "sref \<Rightarrow> outbound \<Rightarrow> outbound \<Rightarrow> wake list \<Rightarrow> bool" where
  "out_notifies me out out' ws \<longleftrightarrow> (out_work out' \<longrightarrow> out_work out \<or> WakeUpdates me \<in> set ws)
     \<and> WakeTask ` set_option (out_writer out) \<subseteq> WakeTask ` set_option (out_writer out') \<union> set ws \<and> out_slot_ok out'"

definition slots_ok :: "stream_state \<Rightarrow> bool" where
  "slots_ok st \<longleftrightarrow> in_slot_ok (st_in st) \<and> out_slot_ok (st_out st)"

definition notifies :: "sref \<Rightarrow> stream_state \<Rightarrow> stream_state \<Rightarrow> wake list \<Rightarrow> bool" where
  "notifies me st st' ws \<longleftrightarrow> in_notifies me (st_in st) (st_in st') ws \<and> out_notifies me (st_out st) (st_out st') ws"

lemma slots_ok: "stream_inv st \<Longrightarrow> slots_ok st"
  by (auto simp: slots_ok_def in_slot_ok_def out_slot_ok_def stream_inv_def in_inv_def out_inv_def in_queued_def in_reader_def
      out_data_def out_writer_def split: inbound_state.splits outbound_state.splits)

lemma notifies_wakes:
  assumes "notifies me st st' ws"
  shows "wakes_updates me st st' ws" "wakes_tasks st st' ws" "slots_ok st'"
  using assms by (auto simp: notifies_def in_notifies_def out_notifies_def wakes_updates_def wakes_tasks_def parked_def slots_ok_def)

lemma notifies_trans: "notifies me st st1 ws1 \<Longrightarrow> notifies me st1 st2 ws2 \<Longrightarrow> notifies me st st2 (ws1 @ ws2)"
  by (auto simp: notifies_def in_notifies_def out_notifies_def)

lemma in_notifies_refl: "in_slot_ok i \<Longrightarrow> in_notifies me i i ws"
  by (simp add: in_notifies_def)

lemma out_notifies_same: "out_slot_ok out \<Longrightarrow> out_state out' = out_state out \<Longrightarrow> out_notifies me out out' ws"
  by (cases "out_state out") (simp_all add: out_notifies_def out_slot_ok_def out_work_def out_data_def out_writer_def data_waits_def)

lemma handle_credit_notifies:
  assumes "slots_ok st" "handle_credit fexp credit st flow me now = Ok (st', flow', ws)"
  shows "notifies me st st' ws" "credit \<noteq> None \<Longrightarrow> data_waits (st_out st) \<Longrightarrow> WakeUpdates me \<in> set ws"
proof -
  have same: "st_in st' = st_in st" "out_state (st_out st') = out_state (st_out st)"
    and wakes: "credit \<noteq> None \<Longrightarrow> data_waits (st_out st) \<Longrightarrow> WakeUpdates me \<in> set ws"
    using assms(2) by (auto simp: handle_credit_def received_window_update_def Let_def split: option.splits if_splits prod.splits)
  then show "notifies me st st' ws" using assms(1) in_notifies_refl out_notifies_same by (simp add: notifies_def slots_ok_def)
  show "credit \<noteq> None \<Longrightarrow> data_waits (st_out st) \<Longrightarrow> WakeUpdates me \<in> set ws" by (fact wakes)
qed

lemma in_received_data_notifies:
  assumes slot: "in_slot_ok i" and op: "in_received_data i d p = Ok (i', p', ws)"
  shows "in_notifies me i i' ws"
proof (cases "\<exists>ds reader. d \<noteq> [] \<and> in_state i = InOpen ds reader")
  case True
  then obtain ds reader where i: "d \<noteq> []" "in_state i = InOpen ds reader" by blast
  obtain ws' where wake: "slot_wake reader = (None, ws')" by (cases reader) simp_all
  then have ws': "set ws' = WakeTask ` set_option reader" using set_slot_wake [of reader] by simp
  obtain w where "i' = i\<lparr>in_window := w, in_state := InOpen (ds @ [d]) None\<rparr>" "ws = ws'"
    using op i wake by (auto simp: in_received_data_def data_push_back_def)
  then show ?thesis using i ws' by (simp add: in_notifies_def in_work_def in_reader_def in_slot_ok_def)
next
  case False
  then have "in_state i' = in_state i" "in_credit i' = in_credit i" "in_threshold i' = in_threshold i"
    using op by (auto simp: in_received_data_def split: if_splits inbound_state.splits)
  then show ?thesis using slot by (cases "in_state i") (simp_all add: in_notifies_def in_work_def in_reader_def in_slot_ok_def in_queued_def)
qed

lemma in_received_fin_write_notifies:
  assumes "in_slot_ok i" "in_received_fin_write i me = Ok (i', ws)"
  shows "in_notifies me i i' ws" "in_reader i' = None"
proof -
  have "in_notifies me i i' ws \<and> in_reader i' = None"
  proof (cases "in_state i")
    case (InOpen ds reader)
    then show ?thesis using assms
      by (cases "ds = []") (auto simp: in_received_fin_write_def in_notifies_def in_work_def in_reader_def in_slot_ok_def in_queued_def)
  next
    case (InClosed f)
    then show ?thesis using assms
      by (auto simp: in_received_fin_write_def in_notifies_def in_work_def in_reader_def in_slot_ok_def in_queued_def split: if_splits)
  qed (use assms in \<open>simp add: in_received_fin_write_def\<close>)
  then show "in_notifies me i i' ws" "in_reader i' = None" by blast+
qed

lemma close_reading_side_notifies:
  assumes "close_reading_side out me = Ok (out1, ws1)" "out_state out' = out_state out1" "set ws1 \<subseteq> set ws"
  shows "out_notifies me out out' ws" "out_writer out' = None"
proof -
  have "out_notifies me out out' ws \<and> out_writer out' = None"
    using assms by (cases "out_state out")
      (auto simp: close_reading_side_def out_notifies_def out_work_def out_writer_def out_slot_ok_def out_data_def data_waits_def split: if_splits)
  then show "out_notifies me out out' ws" "out_writer out' = None" by blast+
qed

lemma handle_data_notifies:
  assumes "slots_ok st" "handle_data d st flow = Ok (st', flow', ws)"
  shows "notifies me st st' ws"
proof -
  obtain i p where "in_received_data (st_in st) d (rx_pool flow) = Ok (i, p, ws)" "st' = st\<lparr>st_in := i\<rparr>"
    using assms(2) by (auto simp: handle_data_def)
  then show ?thesis using assms(1) in_received_data_notifies out_notifies_same by (simp add: notifies_def slots_ok_def)
qed

lemma handle_fin_write_notifies:
  assumes "slots_ok st" "handle_fin_write fin st flow me = Ok (st', flow', ws)"
  shows "notifies me st st' ws"
proof -
  have "st' = st \<or> (\<exists>i. in_received_fin_write (st_in st) me = Ok (i, ws) \<and> st' = st\<lparr>st_in := i\<rparr>)"
    using assms(2) by (auto simp: handle_fin_write_def split: if_splits)
  then show ?thesis using assms(1) in_received_fin_write_notifies(1) out_notifies_same in_notifies_refl
    by (auto simp: notifies_def slots_ok_def)
qed

lemma handle_fin_read_notifies:
  assumes "slots_ok st" "handle_fin_read fin st flow me = Ok (st', flow', ws)"
  shows "notifies me st st' ws"
proof (cases fin)
  case False
  then show ?thesis using assms out_notifies_same in_notifies_refl by (simp add: handle_fin_read_def notifies_def slots_ok_def)
next
  case True
  obtain out1 ws1 where c: "close_reading_side (st_out st) me = Ok (out1, ws1)"
    using assms(2) True by (auto simp: handle_fin_read_def received_fin_read_def)
  obtain w p freed where "window_set (out_window out1) (tx_pool flow) 0 = (w, p, freed)" by (metis prod_cases3)
  then have "st' = st\<lparr>st_out := out1\<lparr>out_ledger := (out_ledger out1)\<lparr>lg_window := w\<rparr>\<rparr>\<rparr>" "set ws1 \<subseteq> set ws"
    using assms(2) True c by (auto simp: handle_fin_read_def received_fin_read_def)
  then show ?thesis using assms(1) close_reading_side_notifies(1) [OF c] in_notifies_refl by (simp add: notifies_def slots_ok_def)
qed

lemma handle_received_notifies:
  assumes slots: "slots_ok st" and op: "handle_received fexp credit d flags st flow me now = Ok (fin, st', flow', ws)"
  shows "notifies me st st' ws" "credit \<noteq> None \<Longrightarrow> data_waits (st_out st) \<Longrightarrow> WakeUpdates me \<in> set ws"
proof -
  from op obtain st1 flow1 ws1 st2 flow2 ws2 st3 flow3 ws3 ws4 where
    h: "handle_credit fexp credit st flow me now = Ok (st1, flow1, ws1)" "handle_data d st1 flow1 = Ok (st2, flow2, ws2)"
    "handle_fin_write (fin_write flags) st2 flow2 me = Ok (st3, flow3, ws3)"
    "handle_fin_read (fin_read flags) st3 flow3 me = Ok (st', flow', ws4)" and ws: "ws = ws1 @ ws2 @ ws3 @ ws4"
    by (auto simp: handle_received_def)
  note n1 = handle_credit_notifies [OF slots h(1)]
  have n2: "notifies me st1 st2 ws2" by (rule handle_data_notifies [OF notifies_wakes(3) [OF n1(1)] h(2)])
  have n3: "notifies me st2 st3 ws3" by (rule handle_fin_write_notifies [OF notifies_wakes(3) [OF n2] h(3)])
  have n4: "notifies me st3 st' ws4" by (rule handle_fin_read_notifies [OF notifies_wakes(3) [OF n3] h(4)])
  show "notifies me st st' ws" unfolding ws using n1(1) n2 n3 n4 notifies_trans by blast
  show "credit \<noteq> None \<Longrightarrow> data_waits (st_out st) \<Longrightarrow> WakeUpdates me \<in> set ws" using n1(2) ws by simp
qed

lemma poll_progress_notifies:
  assumes inv: "stream_inv st" and op: "poll_progress fexp this st flow me now = (r, this', st', flow', ws)"
  shows "notifies me st st' ws"
proof -
  from op obtain inb i p outb out where
    inb: "in_poll_update (st_in st) (rx_pool flow) = (inb, i, p)" and
    outb: "out_poll_update fexp (st_out st) (flow\<lparr>rx_pool := p\<rparr>) me now = (outb, out, flow', ws)" and
    st': "st' = \<lparr>st_in = i, st_out = out\<rparr>" by (rule poll_progress_parts)
  have slots: "slots_ok st" "in_inv (st_in st)" using slots_ok [OF inv] inv by (simp_all add: stream_inv_def)
  have "in_notifies me (st_in st) i ws"
    using slots(2) inb
  proof (cases rule: in_poll_update_cases)
    case (credit c f)
    have "in_threshold (st_in st) \<le> in_credit (st_in st)" if "in_threshold i \<le> in_credit i" using that credit by simp
    then show ?thesis using slots(1) credit
      by (auto simp: in_notifies_def in_work_def in_reader_def in_slot_ok_def in_queued_def slots_ok_def split: inbound_state.splits)
  qed (use slots(1) in \<open>simp_all add: in_notifies_refl slots_ok_def in_notifies_def in_work_def in_reader_def in_slot_ok_def in_queued_def\<close>)
  moreover have "out_notifies me (st_out st) out ws"
    using outb
  proof (cases rule: out_poll_update_cases)
    case (closed f)
    then show ?thesis by (simp add: out_notifies_def out_work_def out_writer_def out_slot_ok_def)
  next
    case (wait lg)
    then show ?thesis using slots(1) out_notifies_same by (simp add: slots_ok_def)
  next
    case (send n lg ws1 ws2 fin ost)
    define d where "d = out_data (st_out st)"
    have rest: "drop n d \<noteq> [] \<longrightarrow> d \<noteq> []" by auto
    from send(6) show ?thesis
    proof (elim disjE exE conjE)
      fix w w'
      assume "out_state (st_out st) = OutOpen (out_data (st_out st)) w" "ost = OutOpen (drop n (out_data (st_out st))) w'"
        "w' = (if drop n (out_data (st_out st)) = [] then None else w)"
      then have o: "out_state (st_out st) = OutOpen d w" "out_state out = OutOpen (drop n d) (if drop n d = [] then None else w)"
        using send(3) by (simp_all add: d_def)
      then have "out_writer (st_out st) = w" by (simp add: out_writer_def)
      then show ?thesis using o rest send(4,7) unfolding d_def [symmetric]
        by (cases "drop n d = []") (simp_all add: out_notifies_def out_work_def out_writer_def data_waits_def out_data_def out_slot_ok_def)
    next
      fix w
      assume h: "out_state (st_out st) = OutHalfClosed (out_data (st_out st)) w"
        "if drop n (out_data (st_out st)) = [] then fin \<and> ost = OutClosed \<lparr>sent = True, received = False\<rparr>
            else \<not> fin \<and> ost = OutHalfClosed (drop n (out_data (st_out st))) w"
      then have o: "out_state (st_out st) = OutHalfClosed d w" by (simp add: d_def)
      then have "out_writer (st_out st) = w" by (simp add: out_writer_def)
      then show ?thesis using o rest h(2) send(3,4,7) unfolding d_def [symmetric]
        by (cases "drop n d = []") (simp_all add: out_notifies_def out_work_def out_writer_def data_waits_def out_data_def out_slot_ok_def)
    qed
  qed
  ultimately show ?thesis by (simp add: notifies_def st')
qed

lemma handle_abort_notifies:
  assumes slots: "slots_ok st" and op: "handle_abort st me = (st', ws)"
  shows "notifies me st st' ws" "parked st' = {}"
proof -
  obtain i ws1 where i: "(case in_received_fin_write (st_in st) me of Ok r \<Rightarrow> r | _ \<Rightarrow> (st_in st, [])) = (i, ws1)" by fastforce
  obtain out ws2 where out: "out_abort (st_out st) me = (out, ws2)" by fastforce
  have st': "st' = st\<lparr>st_in := i, st_out := out\<rparr>" "ws = ws1 @ ws2" using op i out by (auto simp: handle_abort_def)
  have n: "in_notifies me (st_in st) i ws1" "in_reader i = None"
    using i slots in_received_fin_write_notifies [of "st_in st" me] in_notifies_refl
    by (auto simp: slots_ok_def in_received_fin_write_def in_reader_def split: inbound_state.splits if_splits)
  have "out_notifies me (st_out st) out ws2 \<and> out_writer out = None"
  proof (cases "close_reading_side (st_out st) me")
    case (Ok r)
    then show ?thesis using out close_reading_side_notifies [of "st_out st" me out ws2 out ws2] by (simp add: out_abort_def)
  next
    case (Err e)
    then have "out = st_out st" "out_writer out = None"
      using out by (auto simp: out_abort_def close_reading_side_def out_writer_def split: outbound_state.splits if_splits)
    then show ?thesis using slots out_notifies_same by (simp add: slots_ok_def)
  qed (simp add: close_reading_side_def split: outbound_state.splits if_splits)
  then show "notifies me st st' ws" "parked st' = {}" using n
    by (auto simp: st' notifies_def in_notifies_def out_notifies_def parked_def)
qed

lemma out_poll_work:
  "out_work (snd (poll_write_ready out w)) = out_work out" "out_work (snd (poll_flushed out w)) = out_work out"
  by (cases "out_state out"; simp add: poll_write_ready_def poll_flushed_def out_work_def data_waits_def)+

lemma close_writing_work:
  "out_work (fst (close_writing out me)) \<Longrightarrow> out_work out \<or> WakeUpdates me \<in> set (snd (close_writing out me))"
  by (cases "out_state out") (auto simp: close_writing_def out_work_def data_waits_def split: if_splits)

lemma app_op_wakes:
  assumes "app_op me st st' ws" "stream_inv st"
  shows "wakes_updates me st st' ws"
  using assms(1)
proof cases
  case (reads h w r h')
  show ?thesis
  proof (cases "half_shared h")
    case True
    then obtain i where rd: "in_poll_read (st_in st) w me = Ok (r, i, ws)" and st': "st' = st\<lparr>st_in := i\<rparr>"
      using reads by (auto simp: stream_poll_next_def)
    show ?thesis using rd unfolding st'
      by (cases "in_state (st_in st)")
        (auto simp: in_poll_read_def in_chunk_read_def wakes_updates_def in_work_def Let_def split: list.splits if_splits)
  qed (use reads in \<open>simp add: stream_poll_next_def wakes_updates_def\<close>)
next
  case (ready h w r h')
  then have "st' = (if half_shared h then st\<lparr>st_out := snd (poll_write_ready (st_out st) w)\<rparr> else st)"
    by (auto simp: sink_poll_ready_def Let_def split: prod.splits poll.splits if_splits)
  then show ?thesis by (simp add: wakes_updates_def out_poll_work)
next
  case (writes h d r h')
  then show ?thesis by (cases "out_state (st_out st)")
      (auto simp: sink_start_send_def out_write_def wakes_updates_def out_work_def data_waits_def split: if_splits)
next
  case (flush h w r)
  then have "st' = (if half_shared h then st\<lparr>st_out := snd (poll_flushed (st_out st) w)\<rparr> else st)"
    by (auto simp: sink_poll_flush_def split: prod.splits)
  then show ?thesis by (simp add: wakes_updates_def out_poll_work)
next
  case (close h w r h')
  then have "st' = (if half_shared h then st\<lparr>st_out := snd (poll_flushed (fst (close_writing (st_out st) me)) w)\<rparr> else st)"
    "ws = (if half_shared h then snd (close_writing (st_out st) me) else [])"
    by (auto simp: sink_poll_close_def Let_def split: prod.splits poll.splits if_splits)
  then show ?thesis using close_writing_work [of "st_out st" me] by (auto simp: wakes_updates_def out_poll_work)
next
  case (drop_sink h)
  then have "st' = (if half_shared h then st\<lparr>st_out := fst (close_writing (st_out st) me)\<rparr> else st)"
    "ws = (if half_shared h then snd (close_writing (st_out st) me) else [])"
    by (auto simp: sink_drop_def split: prod.splits if_splits)
  then show ?thesis using close_writing_work [of "st_out st" me] by (auto simp: wakes_updates_def)
next
  case (drop_stream h)
  then show ?thesis by (cases "in_state (st_in st)")
      (auto simp: stream_drop_def in_close_reading_def wakes_updates_def split: if_splits)
qed

lemma idle_progress:
  assumes "\<not> in_work (st_in st)" "\<not> out_work (st_out st)"
  shows "fst (poll_progress fexp this st flow me now) = Pending"
proof -
  have "fst (in_poll_update (st_in st) p) = Pending" for p
    using assms(1) by (auto simp: in_poll_update_def in_work_def split: inbound_state.splits)
  moreover have "fst (out_poll_update fexp (st_out st) flow me now) = Pending" for flow
    using assms(2) by (auto simp: out_poll_update_def out_work_def data_waits_def plan_def Let_def split: outbound_state.splits prod.splits)
  ultimately show ?thesis by (auto simp: poll_progress_def Let_def split_beta)
qed



subsection \<open>The end of a connection\<close>

lemma read_times_closed: "in_state i = InClosed f \<Longrightarrow> read_times n i w me = replicate n (Ready None)"
  by (induction n) (simp_all add: in_poll_read_def)

lemma read_times_half:
  "in_state i = InHalfClosed ds \<Longrightarrow> ds \<noteq> [] \<Longrightarrow>
   read_times (length ds + k) i w me = map (\<lambda>d. Ready (Some d)) ds @ replicate k (Ready None)"
proof (induction ds arbitrary: i)
  case (Cons d ds)
  obtain x where "in_poll_read i w me = Ok x"
    by (cases "ds = []") (simp_all add: in_poll_read_def Cons.prems(1))
  then obtain r i' ws where rd: "in_poll_read i w me = Ok (r, i', ws)" by (cases x) auto
  note h = in_poll_read_half [OF Cons.prems(1) rd]
  show ?case
  proof (cases "ds = []")
    case True
    then show ?thesis using h(1,5) rd read_times_closed by simp
  next
    case False
    then show ?thesis using h(1,5) rd Cons.IH [of i'] by simp
  qed
qed simp

lemma abort_in_state:
  "in_state (st_in (fst (handle_abort st me))) =
     (case in_state (st_in st) of
        InOpen ds _ \<Rightarrow> if ds = [] then InClosed \<lparr>sent = False, received = True\<rparr> else InHalfClosed ds
      | InHalfClosed ds \<Rightarrow> InHalfClosed ds
      | InClosed f \<Rightarrow> InClosed (f\<lparr>received := True\<rparr>))"
proof -
  have "f\<lparr>received := True\<rparr> = f" if "received f" for f :: fin_state using that by (cases f) simp
  then show ?thesis
    by (auto simp: handle_abort_def in_received_fin_write_def split: inbound_state.splits prod.splits)
qed

lemma aborted_drains:
  assumes "stream_inv st"
  shows "read_times (length (in_queued (st_in st)) + k) (st_in (fst (handle_abort st me))) w me
      = map (\<lambda>d. Ready (Some d)) (in_queued (st_in st)) @ replicate k (Ready None)
    \<and> fst (poll_write_ready (st_out (fst (handle_abort st me))) w) = Ready (Err BrokenPipe)
    \<and> fst (out_write (st_out (fst (handle_abort st me))) d me) = Err BrokenPipe
    \<and> fst (poll_flushed (st_out (fst (handle_abort st me))) w) = Ready ()"
proof -
  have out: "st_out (fst (handle_abort st me)) = fst (out_abort (st_out st) me)"
    by (simp add: handle_abort_def split_beta)
  obtain f where "out_state (fst (out_abort (st_out st) me)) = OutClosed f"
    using out_abort_closed by blast
  then have O: "fst (poll_write_ready (st_out (fst (handle_abort st me))) w) = Ready (Err BrokenPipe)"
    "fst (out_write (st_out (fst (handle_abort st me))) d me) = Err BrokenPipe"
    "fst (poll_flushed (st_out (fst (handle_abort st me))) w) = Ready ()"
    by (simp_all add: out poll_write_ready_def out_write_def poll_flushed_def)
  have "read_times (length (in_queued (st_in st)) + k) (st_in (fst (handle_abort st me))) w me
      = map (\<lambda>d. Ready (Some d)) (in_queued (st_in st)) @ replicate k (Ready None)"
  proof (cases "in_queued (st_in st) = []")
    case True
    then have "\<exists>f. in_state (st_in (fst (handle_abort st me))) = InClosed f"
      using assms by (auto simp: abort_in_state in_queued_def stream_inv_def in_inv_def split: inbound_state.splits)
    then show ?thesis using True read_times_closed by auto
  next
    case False
    then have "in_state (st_in (fst (handle_abort st me))) = InHalfClosed (in_queued (st_in st))"
      by (auto simp: abort_in_state in_queued_def split: inbound_state.splits)
    then show ?thesis using False by (rule read_times_half)
  qed
  then show ?thesis using O by simp
qed

text \<open>
  C22. When the connection is gone, every stream is aborted: the application then reads exactly the
  chunks that had arrived, in order, and after them the end of the stream, however often it reads;
  it never waits. Writing fails with \<^verbatim>\<open>BrokenPipe\<close> and flushing does not wait.
\<close>

theorem abort_drains:
  assumes "stream_inv st"
  shows "read_times (length (in_queued (st_in st)) + k) (st_in (fst (handle_abort st me))) w me
      = map (\<lambda>d. Ready (Some d)) (in_queued (st_in st)) @ replicate k (Ready None)
    \<and> fst (poll_write_ready (st_out (fst (handle_abort st me))) w) = Ready (Err BrokenPipe)
    \<and> fst (out_write (st_out (fst (handle_abort st me))) d me) = Err BrokenPipe
    \<and> fst (poll_flushed (st_out (fst (handle_abort st me))) w) = Ready ()"
  using assms by (rule aborted_drains)

theorem abort_drains_witness:
  "read_times 2 (st_in (fst (handle_abort ((stream_new config_new 0)\<lparr>st_in := (in_new 8)\<lparr>in_window := \<lparr>win_base = 8, unacked = 2\<rparr>, in_state := InOpen [[5, 6]] None\<rparr>\<rparr>) 3))) 0 3
   = [Ready (Some [5, 6]), Ready None]"
proof -
  let ?i = "(in_new 8)\<lparr>in_window := \<lparr>win_base = 8, unacked = 2\<rparr>, in_state := InOpen [[5, 6]] None\<rparr>"
  have "in_inv ?i" using in_new_inv [of 8] by (simp add: in_inv_def in_new_def in_queued_def)
  moreover have "out_inv (st_out (stream_new config_new 0))"
    using stream_new_inv [of config_new 0] by (simp add: stream_inv_def config_typed_def config_new_def)
  ultimately have "stream_inv ((stream_new config_new 0)\<lparr>st_in := ?i\<rparr>)" by (simp add: stream_inv_def)
  from abort_drains [OF this, of 1 3 0] show ?thesis by (simp add: in_queued_def numeral_2_eq_2)
qed

end
