(* ===== verification/Streams.thy ===== *)
theory Streams
  imports Stream_State "HOL-Library.AList"
begin

text \<open>
  The streams of a connection (\<^verbatim>\<open>src/connection/streams.rs\<close>). The state of the streams that are shared
  with the application is a store, from the identity of a stream to its state; \<open>sm_fresh\<close> is the
  next identity. The slab and the hash map are association lists from keys to identities. The key
  that the slab proposes is an argument, and so is the order in which the selector polls the tasks of
  the streams: the code relies on the key being vacant, and on nothing of the order.

  The invariant \<open>streams_inv\<close> says that the tables and the tasks agree with the store, the limits of
  the configuration hold, and the shared pools count exactly what the streams borrow.
\<close>

section \<open>Definitions\<close>

record streams =
  sm_role :: rammux_role
  sm_config :: rammux_config
  sm_outbound :: "(nat \<times> sref) list"
  sm_inbound :: "(stream_id \<times> sref) list"
  sm_updates :: "(sref \<times> stream_updates) list"
  sm_flow :: conn_flow
  sm_store :: "sref \<Rightarrow> stream_state"
  sm_fresh :: sref

type_synonym app_stream = "duplex \<times> sref"

definition streams_new :: "rammux_role \<Rightarrow> rammux_config \<Rightarrow> (sref \<Rightarrow> stream_state) \<Rightarrow> streams" where
  "streams_new role config store = \<lparr>sm_role = role, sm_config = config, sm_outbound = [], sm_inbound = [],
     sm_updates = [], sm_flow = conn_flow_new (local_recv_pool config) (remote_recv_pool config),
     sm_store = store, sm_fresh = 0\<rparr>"

definition inbound_count :: "streams \<Rightarrow> nat" where
  "inbound_count sm = length (sm_inbound sm)"

definition outbound_count :: "streams \<Rightarrow> nat" where
  "outbound_count sm = length (sm_outbound sm)"

text \<open>Creating a stream (\<^verbatim>\<open>stream::new\<close>) and pushing its task.\<close>

definition start_stream :: "stream_id \<Rightarrow> bool \<Rightarrow> streams \<Rightarrow> instant \<Rightarrow> app_stream \<times> streams" where
  "start_stream i is_outbound sm now =
     (let s = sm_fresh sm
      in ((duplex_new i, s),
          sm\<lparr>sm_store := (sm_store sm)(s := stream_new (sm_config sm) now), sm_fresh := Suc s,
             sm_updates := (s, \<lparr>up_id = i, up_syn = is_outbound\<rparr>) # sm_updates sm\<rparr>))"

definition open_outbound :: "nat \<Rightarrow> streams \<Rightarrow> instant \<Rightarrow> app_stream option \<times> streams" where
  "open_outbound vacant_key sm now =
     (if outbound_count sm \<ge> unat (max_outbound_streams (sm_config sm)) then (None, sm)
      else case from_slab_idx vacant_key (sm_role sm) of
        None \<Rightarrow> (None, sm)
      | Some i \<Rightarrow>
          let (dx, sm) = start_stream i True sm now
          in (Some dx, sm\<lparr>sm_outbound := (vacant_key, snd dx) # sm_outbound sm\<rparr>))"

definition sm_remove :: "stream_id \<Rightarrow> streams \<Rightarrow> (streams, error_kind) rres" where
  "sm_remove i sm =
     (if initiated_by i = sm_role sm then
        if map_of (sm_outbound sm) (slab_idx i) = None then Panic
        else Ok (sm\<lparr>sm_outbound := AList.delete (slab_idx i) (sm_outbound sm)\<rparr>)
      else Ok (sm\<lparr>sm_inbound := AList.delete i (sm_inbound sm)\<rparr>))"

text \<open>
  When the stream refuses a part of the frame, the parts before it were processed already: the state
  in which the application finds the stream. The refused part itself changes nothing that it can see.
\<close>

definition handle_left :: "(f64 \<Rightarrow> f64) \<Rightarrow> u32 option \<Rightarrow> data \<Rightarrow> control_flags \<Rightarrow> stream_state \<Rightarrow> conn_flow
    \<Rightarrow> sref \<Rightarrow> instant \<Rightarrow> stream_state \<times> wake list" where
  "handle_left fexp credit d flags st flow me now =
     (case handle_credit fexp credit st flow me now of
        Ok (st1, flow1, ws1) \<Rightarrow>
          (case handle_data d st1 flow1 of
             Ok (st2, flow2, ws2) \<Rightarrow>
               (case handle_fin_write (fin_write flags) st2 flow2 me of
                  Ok (st3, flow3, ws3) \<Rightarrow> (st3, ws1 @ ws2 @ ws3)
                | _ \<Rightarrow> (st2, ws1 @ ws2))
           | _ \<Rightarrow> (st1, ws1))
      | _ \<Rightarrow> (st, []))"

text \<open>
  The common end of \<^verbatim>\<open>receive\<close>: the stream takes its part of the frame. A new stream that cannot be
  returned because of an error is dropped.
\<close>

type_synonym receive_result = "(app_stream option, error_kind) rres \<times> streams \<times> wake list"

definition hand_over :: "(f64 \<Rightarrow> f64) \<Rightarrow> stream_header \<Rightarrow> data \<Rightarrow> sref \<Rightarrow> app_stream option \<Rightarrow> streams \<Rightarrow> instant
    \<Rightarrow> receive_result" where
  "hand_over fexp h d s new sm now =
     (case handle_received fexp (sh_credit h) d (sh_flags h) (sm_store sm s) (sm_flow sm) s now of
        Ok (fin, st, flow, ws) \<Rightarrow>
          let sm = sm\<lparr>sm_store := (sm_store sm)(s := st), sm_flow := flow\<rparr>
          in if is_dead fin then
               (case sm_remove (sh_id h) sm of Ok sm' \<Rightarrow> (Ok new, sm', ws) | Err e \<Rightarrow> (Err e, sm, ws) | Panic \<Rightarrow> (Panic, sm, ws))
             else (Ok new, sm, ws)
      | Err e \<Rightarrow>
          let (st, ws) = handle_left fexp (sh_credit h) d (sh_flags h) (sm_store sm s) (sm_flow sm) s now;
              (st, ws') = (case new of None \<Rightarrow> (st, []) | Some dx \<Rightarrow> duplex_drop (fst dx) st s)
          in (Err (Stream (sh_id h) e), sm\<lparr>sm_store := (sm_store sm)(s := st)\<rparr>, ws @ ws')
      | Panic \<Rightarrow> (Panic, sm, []))"

definition violation :: "stream_id \<Rightarrow> string \<Rightarrow> ('a, error_kind) rres" where
  "violation i m = Err (Stream i (StreamError m))"

definition receive :: "(f64 \<Rightarrow> f64) \<Rightarrow> stream_header \<Rightarrow> data \<Rightarrow> streams \<Rightarrow> instant \<Rightarrow> receive_result" where
  "receive fexp h d sm now =
     (let i = sh_id h; starts = syn (sh_flags h) in
      if initiated_by i = sm_role sm then
        if starts then (violation i ''started a new stream with an ID from the wrong pool'', sm, [])
        else (case map_of (sm_outbound sm) (slab_idx i) of
            None \<Rightarrow> (violation i ''sent a frame for an unknown stream'', sm, [])
          | Some s \<Rightarrow> hand_over fexp h d s None sm now)
      else case map_of (sm_inbound sm) i of
          Some s \<Rightarrow>
            if starts then (violation i ''started a new stream with an occupied ID'', sm, [])
            else hand_over fexp h d s None sm now
        | None \<Rightarrow>
            if starts then
              if inbound_count sm \<ge> unat (max_inbound_streams (sm_config sm))
              then (violation i ''started a new stream without respecting the configured limit'', sm, [])
              else
                let (dx, sm) = start_stream i False sm now
                in hand_over fexp h d (snd dx) (Some dx) (sm\<lparr>sm_inbound := (i, snd dx) # sm_inbound sm\<rparr>) now
            else (violation i ''sent a frame for an unknown stream'', sm, []))"

text \<open>
  The selector polls tasks in the given order until one yields; a task that breaks is removed and
  its \<^verbatim>\<open>transform_break\<close> runs.
\<close>

fun select_next :: "(f64 \<Rightarrow> f64) \<Rightarrow> sref list \<Rightarrow> streams \<Rightarrow> instant
    \<Rightarrow> (stream_update \<times> fin_state) poll \<times> streams \<times> wake list" where
  "select_next fexp [] sm now = (Pending, sm, [])"
| "select_next fexp (s # order) sm now =
     (case map_of (sm_updates sm) s of
        None \<Rightarrow> select_next fexp order sm now
      | Some this \<Rightarrow>
          let (r, this, st, flow, ws) = poll_progress fexp this (sm_store sm s) (sm_flow sm) s now;
              sm = sm\<lparr>sm_store := (sm_store sm)(s := st), sm_flow := flow, sm_updates := AList.update s this (sm_updates sm)\<rparr>
          in case r of
               Pending \<Rightarrow> (let (r, sm, ws') = select_next fexp order sm now in (r, sm, ws @ ws'))
             | Ready (Continue x) \<Rightarrow> (Ready x, sm, ws)
             | Ready (Break x) \<Rightarrow>
                 let (flow, ws') = transform_break (sm_flow sm) s
                 in (Ready x, sm\<lparr>sm_flow := flow, sm_updates := AList.delete s (sm_updates sm)\<rparr>, ws @ ws'))"

definition poll_update :: "(f64 \<Rightarrow> f64) \<Rightarrow> sref list \<Rightarrow> streams \<Rightarrow> instant
    \<Rightarrow> (stream_update, error_kind) rres poll \<times> streams \<times> wake list" where
  "poll_update fexp order sm now =
     (case select_next fexp order sm now of
        (Pending, sm, ws) \<Rightarrow> (Pending, sm, ws)
      | (Ready (u, fin), sm, ws) \<Rightarrow>
          if is_dead fin then
            (case sm_remove (su_id u) sm of Ok sm' \<Rightarrow> (Ready (Ok u), sm', ws) | Err e \<Rightarrow> (Ready (Err e), sm, ws) | Panic \<Rightarrow> (Ready Panic, sm, ws))
          else (Ready (Ok u), sm, ws))"

text \<open>Dropping the streams aborts them; the application keeps what the store says.\<close>

definition handles :: "streams \<Rightarrow> sref list" where
  "handles sm = map snd (sm_outbound sm) @ map snd (sm_inbound sm)"

fun abort_all :: "sref list \<Rightarrow> (sref \<Rightarrow> stream_state) \<Rightarrow> (sref \<Rightarrow> stream_state) \<times> wake list" where
  "abort_all [] store = (store, [])"
| "abort_all (s # ss) store =
     (let (st, ws) = handle_abort (store s) s; (store, ws') = abort_all ss (store(s := st)) in (store, ws @ ws'))"

definition streams_drop :: "streams \<Rightarrow> (sref \<Rightarrow> stream_state) \<times> wake list" where
  "streams_drop sm = abort_all (handles sm) (sm_store sm)"

text \<open>What the application does with the halves of a stream, while it holds them.\<close>

inductive app_step :: "sref \<Rightarrow> stream_state \<Rightarrow> stream_state \<Rightarrow> bool" for me where
  ready: "app_step me st (snd (snd (sink_poll_ready h st w)))"
| send: "app_step me st (fst (snd (snd (sink_start_send h st d me))))"
| flush: "app_step me st (snd (sink_poll_flush h st w))"
| close: "app_step me st (fst (snd (snd (sink_poll_close h st w me))))"
| drop_sink: "app_step me st (fst (sink_drop h st me))"
| read_next: "stream_poll_next h st w me = Ok (r, h', st', ws) \<Longrightarrow> app_step me st st'"
| drop_stream: "app_step me st (fst (stream_drop h st me))"

section \<open>Specification\<close>

definition handle_of :: "streams \<Rightarrow> stream_id \<Rightarrow> sref option" where
  "handle_of sm i = (if initiated_by i = sm_role sm then map_of (sm_outbound sm) (slab_idx i) else map_of (sm_inbound sm) i)"

definition tables_ok :: "streams \<Rightarrow> bool" where
  [inv_defs]: "tables_ok sm \<longleftrightarrow> distinct (map fst (sm_outbound sm)) \<and> distinct (map fst (sm_inbound sm)) \<and> distinct (handles sm)
     \<and> (\<forall>k \<in> fst ` set (sm_outbound sm). k < 2 ^ 15) \<and> (\<forall>i \<in> fst ` set (sm_inbound sm). initiated_by i \<noteq> sm_role sm)
     \<and> set (handles sm) \<subseteq> {..<sm_fresh sm}"

definition limits_ok :: "streams \<Rightarrow> bool" where
  [inv_defs]: "limits_ok sm \<longleftrightarrow> outbound_count sm \<le> unat (max_outbound_streams (sm_config sm))
     \<and> inbound_count sm \<le> unat (max_inbound_streams (sm_config sm))"

text \<open>A stream has the windows and the frame limit of the configuration.\<close>

definition stream_conf :: "rammux_config \<Rightarrow> stream_state \<Rightarrow> bool" where
  "stream_conf config st \<longleftrightarrow> win_base (in_window (st_in st)) = unat (local_recv_window config)
     \<and> win_base (out_window (st_out st)) = unat (remote_recv_window config)
     \<and> lg_frame_limit (out_ledger (st_out st)) = unat (frame_limit config)"

definition store_ok :: "streams \<Rightarrow> bool" where
  [inv_defs]: "store_ok sm \<longleftrightarrow> config_typed (sm_config sm)
     \<and> (\<forall>s < sm_fresh sm. stream_inv (sm_store sm s) \<and> stream_conf (sm_config sm) (sm_store sm s))"

definition pools_ok :: "streams \<Rightarrow> bool" where
  [inv_defs]: "pools_ok sm \<longleftrightarrow> flow_ok {..<sm_fresh sm} (sm_store sm) (sm_flow sm)
     \<and> p_size (rx_pool (sm_flow sm)) = unat (local_recv_pool (sm_config sm))
     \<and> p_size (tx_pool (sm_flow sm)) = unat (remote_recv_pool (sm_config sm)) \<and> srtt_ok (cf_srtt (sm_flow sm))"

text \<open>A stream that is in the tables is not closed on both sides, and has a task until it sent both \<^verbatim>\<open>FIN\<close>s.\<close>

definition tasks_ok :: "streams \<Rightarrow> bool" where
  [inv_defs]: "tasks_ok sm \<longleftrightarrow> distinct (map fst (sm_updates sm))
     \<and> (\<forall>(s, up) \<in> set (sm_updates sm). handle_of sm (up_id up) = Some s)
     \<and> fst ` set (sm_updates sm) = {s \<in> set (handles sm). \<not> sent (stream_fin_state (sm_store sm s))}
     \<and> (\<forall>s \<in> set (handles sm). \<not> is_dead (stream_fin_state (sm_store sm s)))"

definition streams_inv :: "streams \<Rightarrow> bool" where
  "streams_inv sm \<longleftrightarrow> tables_ok sm \<and> limits_ok sm \<and> store_ok sm \<and> pools_ok sm \<and> tasks_ok sm"

text \<open>
  Which stream parts are refused before a stream sees them: a frame of the peer that starts a stream
  with an ID of ours, with an ID that is in use or beyond the limit, and a frame for a stream that is
  not open.
\<close>

definition refusal :: "streams \<Rightarrow> stream_header \<Rightarrow> string option" where
  "refusal sm h =
     (if \<not> syn (sh_flags h) then
        if handle_of sm (sh_id h) = None then Some ''sent a frame for an unknown stream'' else None
      else if initiated_by (sh_id h) = sm_role sm then Some ''started a new stream with an ID from the wrong pool''
      else if handle_of sm (sh_id h) \<noteq> None then Some ''started a new stream with an occupied ID''
      else if inbound_count sm \<ge> unat (max_inbound_streams (sm_config sm))
      then Some ''started a new stream without respecting the configured limit'' else None)"

section \<open>Lemmas\<close>

subsection \<open>The \<open>FIN\<close> state\<close>

lemma sent_stream: "sent (stream_fin_state st) \<longleftrightarrow> sent (in_fin_state (st_in st)) \<and> sent (out_fin_state (st_out st))"
  by (simp add: stream_fin_state_def fin_and_def)

lemma handle_parts_sent:
  "handle_credit fexp credit st flow me now = Ok (st', flow', ws) \<Longrightarrow> sent (stream_fin_state st') = sent (stream_fin_state st)"
  "handle_data d st flow = Ok (st', flow', ws) \<Longrightarrow> sent (stream_fin_state st') = sent (stream_fin_state st)"
  "handle_fin_write fin st flow me = Ok (st', flow', ws) \<Longrightarrow> sent (stream_fin_state st') = sent (stream_fin_state st)"
  "handle_fin_read fin st flow me = Ok (st', flow', ws) \<Longrightarrow> sent (stream_fin_state st') = sent (stream_fin_state st)"
proof -
  assume "handle_credit fexp credit st flow me now = Ok (st', flow', ws)"
  then show "sent (stream_fin_state st') = sent (stream_fin_state st)"
    by (auto simp: handle_credit_def received_window_update_def sent_stream out_fin_state_def Let_def
        split: if_splits prod.splits option.splits)
next
  assume "handle_data d st flow = Ok (st', flow', ws)"
  then obtain i p where "in_received_data (st_in st) d (rx_pool flow) = Ok (i, p, ws)" "st' = st\<lparr>st_in := i\<rparr>"
    by (auto simp: handle_data_def)
  then show "sent (stream_fin_state st') = sent (stream_fin_state st)"
    by (cases rule: in_received_data_cases) (auto simp: sent_stream in_fin_state_def)
next
  assume "handle_fin_write fin st flow me = Ok (st', flow', ws)"
  then show "sent (stream_fin_state st') = sent (stream_fin_state st)"
    by (auto simp: handle_fin_write_def in_received_fin_write_def sent_stream in_fin_state_def fin_default_def
        split: if_splits inbound_state.splits)
next
  assume "handle_fin_read fin st flow me = Ok (st', flow', ws)"
  then show "sent (stream_fin_state st') = sent (stream_fin_state st)"
    by (auto simp: handle_fin_read_def received_fin_read_def close_reading_side_eq sent_stream out_fin_state_def
        Let_def split: if_splits prod.splits)
qed

lemma handle_received_sent:
  assumes "handle_received fexp credit d flags st flow me now = Ok (fin, st', flow', ws)"
  shows "sent (stream_fin_state st') = sent (stream_fin_state st)"
proof -
  from assms obtain st1 flow1 ws1 st2 flow2 ws2 st3 flow3 ws3 ws4 where
    "handle_credit fexp credit st flow me now = Ok (st1, flow1, ws1)" "handle_data d st1 flow1 = Ok (st2, flow2, ws2)"
    "handle_fin_write (fin_write flags) st2 flow2 me = Ok (st3, flow3, ws3)"
    "handle_fin_read (fin_read flags) st3 flow3 me = Ok (st', flow', ws4)"
    by (auto simp: handle_received_def)
  then show ?thesis using handle_parts_sent by metis
qed

lemma poll_progress_fin:
  assumes "poll_progress fexp this st flow me now = (r, this', st', flow', ws)" "stream_inv st"
  shows "r = Pending \<Longrightarrow> sent (stream_fin_state st') = sent (stream_fin_state st) \<and> this' = this
      \<and> is_dead (stream_fin_state st') = is_dead (stream_fin_state st)"
    and "r = Ready (Continue (u, fin)) \<Longrightarrow> fin = stream_fin_state st' \<and> \<not> sent fin \<and> this' = this\<lparr>up_syn := False\<rparr> \<and> su_id u = up_id this"
    and "r = Ready (Break (u, fin)) \<Longrightarrow> fin = stream_fin_state st' \<and> sent fin \<and> this' = this\<lparr>up_syn := False\<rparr> \<and> su_id u = up_id this"
proof -
  from assms(1) obtain inb i p outb out where
    inb: "in_poll_update (st_in st) (rx_pool flow) = (inb, i, p)" and
    outb: "out_poll_update fexp (st_out st) (flow\<lparr>rx_pool := p\<rparr>) me now = (outb, out, flow', ws)" and
    st': "st' = \<lparr>st_in = i, st_out = out\<rparr>" and
    r: "inb = Pending \<and> outb = Pending \<and> r = Pending \<and> this' = this
     \<or> \<not> (inb = Pending \<and> outb = Pending) \<and> this' = this\<lparr>up_syn := False\<rparr>
       \<and> r = Ready ((if sent (stream_fin_state st') then Break else Continue) (update_of this inb outb, stream_fin_state st'))"
    by (rule poll_progress_parts)
  have inv: "in_inv (st_in st)" using assms(2) by (simp add: stream_inv_def)
  show "fin = stream_fin_state st' \<and> \<not> sent fin \<and> this' = this\<lparr>up_syn := False\<rparr> \<and> su_id u = up_id this" if "r = Ready (Continue (u, fin))"
    using that r by (auto simp: update_of_def split: if_splits)
  show "fin = stream_fin_state st' \<and> sent fin \<and> this' = this\<lparr>up_syn := False\<rparr> \<and> su_id u = up_id this" if "r = Ready (Break (u, fin))"
    using that r by (auto simp: update_of_def split: if_splits)
  assume "r = Pending"
  then have p: "inb = Pending" "outb = Pending" "this' = this" using r by simp_all
  have "in_state i = in_state (st_in st)" using inv inb by (cases rule: in_poll_update_cases) (simp_all add: p)
  moreover have "out_fin_state out = out_fin_state (st_out st)" using outb
  proof (cases rule: out_poll_update_cases)
    case (closed f)
    then show ?thesis using p by (cases f) (auto simp: out_fin_state_def split: if_splits)
  qed (use p in \<open>auto simp: out_fin_state_def\<close>)
  ultimately have "stream_fin_state st' = stream_fin_state st" by (simp add: st' stream_fin_state_def in_fin_state_def)
  then show "sent (stream_fin_state st') = sent (stream_fin_state st) \<and> this' = this
      \<and> is_dead (stream_fin_state st') = is_dead (stream_fin_state st)" using p by simp
qed

text \<open>The application changes neither the windows nor the \<open>FIN\<close>s that were sent.\<close>

definition app_keeps :: "stream_state \<Rightarrow> stream_state \<Rightarrow> bool" where
  "app_keeps st st' \<longleftrightarrow> in_window (st_in st') = in_window (st_in st) \<and> out_ledger (st_out st') = out_ledger (st_out st)
     \<and> sent (stream_fin_state st') = sent (stream_fin_state st)
     \<and> (is_dead (stream_fin_state st') \<longrightarrow> is_dead (stream_fin_state st))"

lemma app_keeps_out:
  assumes "out_ledger out = out_ledger (st_out st)"
    "out_fin_state out = out_fin_state (st_out st) \<or> \<not> sent (out_fin_state out) \<and> \<not> sent (out_fin_state (st_out st))"
  shows "app_keeps st (st\<lparr>st_out := out\<rparr>)"
  using assms by (auto simp: app_keeps_def stream_fin_state_def fin_and_def is_dead_def)

lemma app_keeps_in:
  assumes "in_window i = in_window (st_in st)"
    "in_fin_state i = in_fin_state (st_in st) \<or> \<not> sent (in_fin_state i) \<and> \<not> sent (in_fin_state (st_in st))"
  shows "app_keeps st (st\<lparr>st_in := i\<rparr>)"
  using assms by (auto simp: app_keeps_def stream_fin_state_def fin_and_def is_dead_def)

lemma app_keeps_refl [simp]: "app_keeps st st"
  by (simp add: app_keeps_def)

lemma app_keeps_trans: "app_keeps st st' \<Longrightarrow> app_keeps st' st'' \<Longrightarrow> app_keeps st st''"
  by (simp add: app_keeps_def)

lemma application_side_fin:
  "out_fin_state (snd (poll_write_ready out w)) = out_fin_state out"
  "out_fin_state (fst (snd (out_write out d me))) = out_fin_state out"
  "out_fin_state (snd (poll_flushed out w)) = out_fin_state out"
  "out_fin_state (fst (close_writing out me)) = out_fin_state out"
  by (simp_all add: poll_write_ready_def out_write_def poll_flushed_def close_writing_def out_fin_state_def
      split: outbound_state.split)

lemma in_close_reading_fin:
  "in_fin_state (fst (in_close_reading i me)) = in_fin_state i
   \<or> \<not> sent (in_fin_state (fst (in_close_reading i me))) \<and> \<not> sent (in_fin_state i)"
  "in_window (fst (in_close_reading i me)) = in_window i"
  by (auto simp: in_close_reading_def in_fin_state_def fin_default_def split: inbound_state.split)

lemma in_poll_read_fin:
  assumes "in_poll_read i w me = Ok (r, i', ws)"
  shows "in_fin_state i' = in_fin_state i \<or> \<not> sent (in_fin_state i') \<and> \<not> sent (in_fin_state i)" "in_window i' = in_window i"
  using assms
  by (auto simp: in_poll_read_def in_chunk_read_def in_fin_state_def fin_default_def Let_def
      split: inbound_state.splits list.splits if_splits)

lemma duplex_drop_keeps: "app_keeps st (fst (duplex_drop dx st me))"
proof -
  have "app_keeps st (fst (sink_drop h st me))" for st h
    using app_keeps_out [OF application_side_ledger(4) [of "st_out st" me]] application_side_fin(4)
    by (simp add: sink_drop_def split_beta Let_def)
  moreover have "app_keeps st (fst (stream_drop h st me))" for st h
    using app_keeps_in [OF in_close_reading_fin(2,1) [of "st_in st" me]] by (simp add: stream_drop_def split_beta Let_def)
  ultimately show ?thesis by (simp add: duplex_drop_def split_beta Let_def) (metis app_keeps_trans)
qed

lemma app_step_keeps:
  assumes "app_step me st st'" "stream_inv st"
  shows "app_keeps st st' \<and> stream_inv st'"
  using assms
proof (cases rule: app_step.cases)
  case (ready h w)
  have "app_keeps st st'" using app_keeps_out [OF application_side_ledger(1)] application_side_fin(1)
    by (simp add: ready sink_poll_ready_def split_beta Let_def split: poll.split)
  then show ?thesis using halves_keep(1) [OF assms(2)] by (simp add: ready)
next
  case (send h d)
  have "app_keeps st st'" using app_keeps_out [OF application_side_ledger(2)] application_side_fin(2)
    by (simp add: send sink_start_send_def split_beta Let_def)
  then show ?thesis using halves_keep(2) [OF assms(2)] by (simp add: send)
next
  case (flush h w)
  have "app_keeps st st'" using app_keeps_out [OF application_side_ledger(3)] application_side_fin(3)
    by (simp add: flush sink_poll_flush_def split_beta Let_def)
  then show ?thesis using halves_keep(3) [OF assms(2)] by (simp add: flush)
next
  case (close h w)
  have "app_keeps st st'"
    using app_keeps_out [of "snd (poll_flushed (fst (close_writing (st_out st) me)) w)" st] application_side_fin(3,4)
      application_side_ledger(3,4)
    by (simp add: close sink_poll_close_def split_beta Let_def split: poll.split)
  then show ?thesis using halves_keep(4) [OF assms(2)] by (simp add: close)
next
  case (drop_sink h)
  have "app_keeps st st'" using app_keeps_out [OF application_side_ledger(4) [of "st_out st" me]] application_side_fin(4)
    by (simp add: drop_sink sink_drop_def split_beta Let_def)
  then show ?thesis using halves_keep(5) [OF assms(2)] by (simp add: drop_sink)
next
  case (read_next h w r h' ws)
  then have "app_keeps st st'"
    using app_keeps_in [OF in_poll_read_fin(2,1)] by (fastforce simp: stream_poll_next_def split: if_splits)
  then show ?thesis using stream_poll_next_ok(2) [OF assms(2) read_next] by simp
next
  case (drop_stream h)
  have "app_keeps st st'" using app_keeps_in [OF in_close_reading_fin(2,1) [of "st_in st" me]]
    by (simp add: drop_stream stream_drop_def split_beta Let_def)
  then show ?thesis using halves_keep(6) [OF assms(2)] by (simp add: drop_stream)
qed

subsection \<open>One stream of the store changes\<close>

lemma flow_ok_start:
  assumes "flow_ok {..<n} store flow"
  shows "flow_ok {..<Suc n} (store(n := stream_new config now)) flow"
proof -
  have "borrowed (in_window (st_in (stream_new config now))) = 0" "borrowed (out_window (st_out (stream_new config now))) = 0"
    by (simp_all add: stream_new_def in_new_def out_new_def window_new_def borrowed_def borrowed_at_def)
  then have "accounts {..<Suc n} (\<lambda>s. in_window (st_in ((store(n := stream_new config now)) s))) (rx_pool flow)"
    "accounts {..<Suc n} (\<lambda>s. out_window (st_out ((store(n := stream_new config now)) s))) (tx_pool flow)"
    using assms by (simp_all add: flow_ok_def accounts_def lessThan_Suc)
  then show ?thesis using assms by (simp add: flow_ok_def)
qed

lemma flow_ok_keeps:
  assumes "flow_ok S store flow" "app_keeps (store s) st"
  shows "flow_ok S (store(s := st)) flow"
proof -
  have "(\<lambda>x. in_window (st_in ((store(s := st)) x))) = (\<lambda>x. in_window (st_in (store x)))"
    "(\<lambda>x. out_window (st_out ((store(s := st)) x))) = (\<lambda>x. out_window (st_out (store x)))"
    using assms(2) by (auto simp: app_keeps_def)
  then show ?thesis using assms(1) by (simp add: flow_ok_def)
qed

lemma pass_turn_flow_ok: "flow_ok S store flow \<Longrightarrow> flow_ok S store (fst (pass_turn flow s))"
  by (simp add: flow_ok_def distinct_remove1)

lemma stream_new_conf: "stream_conf config (stream_new config now)"
  by (simp add: stream_conf_def stream_new_def in_new_def out_new_def window_new_def)

lemma stream_conf_step: "step_ok S store flow s st flow' \<Longrightarrow> stream_conf c (store s) \<Longrightarrow> stream_conf c st"
  by (simp add: step_ok_def stream_conf_def)

lemma stream_conf_keeps: "app_keeps st st' \<Longrightarrow> stream_conf c st \<Longrightarrow> stream_conf c st'"
  by (simp add: app_keeps_def stream_conf_def)

text \<open>What a step of the connection on a stream keeps of the store and the pools.\<close>

lemma step_keeps_store:
  assumes step: "step_ok {..<sm_fresh sm} (sm_store sm) (sm_flow sm) s st flow" and inv: "store_ok sm" "pools_ok sm"
    and sm': "sm_store sm' = (sm_store sm)(s := st)" "sm_flow sm' = flow" "sm_fresh sm' = sm_fresh sm" "sm_config sm' = sm_config sm"
  shows "store_ok sm'" "pools_ok sm'"
  using assms stream_conf_step [OF step] by (simp_all add: step_ok_def store_ok_def pools_ok_def)

text \<open>The tasks after a change of one stream that keeps its task, or ends it.\<close>

lemma handle_of_cong:
  assumes "sm_role sm' = sm_role sm" "sm_outbound sm' = sm_outbound sm" "sm_inbound sm' = sm_inbound sm"
  shows "handle_of sm' = handle_of sm" "handles sm' = handles sm"
  using assms by (simp_all add: handle_of_def handles_def fun_eq_iff)

lemma tasks_keep:
  assumes tasks: "tasks_ok sm" and s: "sent (stream_fin_state st) = sent (stream_fin_state (sm_store sm s))"
    and alive: "s \<in> set (handles sm) \<Longrightarrow> \<not> is_dead (stream_fin_state st)"
    and sm': "sm_store sm' = (sm_store sm)(s := st)" "map fst (sm_updates sm') = map fst (sm_updates sm)"
      "\<And>i. handle_of sm' i = handle_of sm i" "set (handles sm') = set (handles sm)"
    and ids: "\<And>x up. (x, up) \<in> set (sm_updates sm') \<Longrightarrow> \<exists>up'. (x, up') \<in> set (sm_updates sm) \<and> up_id up' = up_id up"
  shows "tasks_ok sm'"
proof -
  have "fst ` set (sm_updates sm') = fst ` set (sm_updates sm)"
    using arg_cong [OF sm'(2), of set] by simp
  moreover have "handle_of sm (up_id up) = Some x" if "(x, up) \<in> set (sm_updates sm')" for x up
    using ids [OF that] tasks by (force simp: tasks_ok_def)
  ultimately show ?thesis using tasks s alive sm' by (auto simp: tasks_ok_def)
qed

subsection \<open>The tables\<close>

lemma handles_iff:
  assumes "tables_ok sm"
  shows "s \<in> set (handles sm) \<longleftrightarrow> (\<exists>i. handle_of sm i = Some s)"
proof -
  have out: "\<exists>i. initiated_by i = sm_role sm \<and> slab_idx i = k" if "k < 2 ^ 15" for k
    using that from_slab_idx_Some [of k "sm_role sm"] by (cases "from_slab_idx k (sm_role sm)") (auto simp: from_slab_idx_eq)
  have d: "distinct (map fst (sm_outbound sm))" "distinct (map fst (sm_inbound sm))"
    "\<And>k s. (k, s) \<in> set (sm_outbound sm) \<Longrightarrow> k < 2 ^ 15" "\<And>i s. (i, s) \<in> set (sm_inbound sm) \<Longrightarrow> initiated_by i \<noteq> sm_role sm"
    using assms by (force simp: tables_ok_def)+
  have "s \<in> set (handles sm) \<longleftrightarrow> (\<exists>k. (k, s) \<in> set (sm_outbound sm)) \<or> (\<exists>i. (i, s) \<in> set (sm_inbound sm))"
    by (force simp: handles_def)
  also have "\<dots> \<longleftrightarrow> (\<exists>i. handle_of sm i = Some s)"
  proof
    assume "(\<exists>k. (k, s) \<in> set (sm_outbound sm)) \<or> (\<exists>i. (i, s) \<in> set (sm_inbound sm))"
    then show "\<exists>i. handle_of sm i = Some s"
    proof
      assume "\<exists>k. (k, s) \<in> set (sm_outbound sm)"
      then obtain k where k: "(k, s) \<in> set (sm_outbound sm)" by blast
      then obtain i where "initiated_by i = sm_role sm" "slab_idx i = k" using out d(3) by blast
      then show ?thesis using k d(1) by (intro exI [of _ i]) (simp add: handle_of_def)
    next
      assume "\<exists>i. (i, s) \<in> set (sm_inbound sm)"
      then show ?thesis using d(2,4) by (fastforce simp: handle_of_def)
    qed
  next
    assume "\<exists>i. handle_of sm i = Some s"
    then show "(\<exists>k. (k, s) \<in> set (sm_outbound sm)) \<or> (\<exists>i. (i, s) \<in> set (sm_inbound sm))"
      by (auto simp: handle_of_def split: if_splits dest: map_of_SomeD)
  qed
  finally show ?thesis .
qed

lemma distinct_snd_inject:
  "distinct (map snd xs) \<Longrightarrow> (a, s) \<in> set xs \<Longrightarrow> (b, s) \<in> set xs \<Longrightarrow> a = b"
  by (induction xs) force+

lemma handle_of_inject:
  assumes "tables_ok sm" "handle_of sm i = Some s" "handle_of sm j = Some s"
  shows "i = j"
proof -
  have d: "distinct (map snd (sm_outbound sm))" "distinct (map snd (sm_inbound sm))"
    "snd ` set (sm_outbound sm) \<inter> snd ` set (sm_inbound sm) = {}"
    using assms(1) by (auto simp: tables_ok_def handles_def)
  have "initiated_by i = sm_role sm \<longleftrightarrow> initiated_by j = sm_role sm"
    using assms(2,3) d(3) by (force simp: handle_of_def split: if_splits dest!: map_of_SomeD)
  moreover have "initiated_by i = initiated_by j \<Longrightarrow> slab_idx i = slab_idx j \<Longrightarrow> i = j" by (simp add: id_eq_iff)
  ultimately show ?thesis using assms(2,3) distinct_snd_inject [OF d(1)] distinct_snd_inject [OF d(2)]
    by (auto simp: handle_of_def split: if_splits dest!: map_of_SomeD)
qed

lemma map_of_delete_other: "map_of (AList.delete k xs) x = (if x = k then None else map_of xs x)"
  by (simp add: delete_conv')

lemma distinct_delete:
  "distinct (map fst xs) \<Longrightarrow> distinct (map fst (AList.delete k xs))"
  "distinct (map snd xs) \<Longrightarrow> distinct (map snd (AList.delete k xs))"
  by (auto simp: AList.delete_eq distinct_map_filter)

lemma set_delete: "set (AList.delete k xs) = {e \<in> set xs. fst e \<noteq> k}"
  by (auto simp: AList.delete_eq)

lemma snd_delete:
  assumes "distinct (map fst xs)" "distinct (map snd xs)" "map_of xs k = Some s"
  shows "snd ` set (AList.delete k xs) = snd ` set xs - {s}"
proof -
  have k: "(k, s) \<in> set xs" using assms(3) by (rule map_of_SomeD)
  have "fst e = k \<longleftrightarrow> snd e = s" if e: "e \<in> set xs" for e
  proof
    assume "fst e = k"
    then have "map_of xs k = Some (snd e)" using e assms(1) by (intro map_of_is_SomeI) auto
    then show "snd e = s" using assms(3) by simp
  next
    assume "snd e = s"
    then have "(fst e, s) \<in> set xs" using e by (metis prod.collapse)
    then show "fst e = k" by (rule distinct_snd_inject [OF assms(2) _ k])
  qed
  then show ?thesis by (auto simp: set_delete)
qed

lemma sm_remove_ok:
  assumes tables: "tables_ok sm" and i: "handle_of sm i = Some s"
  obtains sm' where "sm_remove i sm = (Ok sm' :: (streams, error_kind) rres)" "tables_ok sm'" "handle_of sm' = (handle_of sm)(i := None)"
    "set (handles sm') = set (handles sm) - {s}" "outbound_count sm' \<le> outbound_count sm" "inbound_count sm' \<le> inbound_count sm"
    "sm_role sm' = sm_role sm" "sm_config sm' = sm_config sm" "sm_updates sm' = sm_updates sm" "sm_flow sm' = sm_flow sm"
    "sm_store sm' = sm_store sm" "sm_fresh sm' = sm_fresh sm"
proof -
  have d: "distinct (map fst (sm_outbound sm))" "distinct (map snd (sm_outbound sm))"
    "distinct (map fst (sm_inbound sm))" "distinct (map snd (sm_inbound sm))"
    "snd ` set (sm_outbound sm) \<inter> snd ` set (sm_inbound sm) = {}"
    using tables by (auto simp: tables_ok_def handles_def)
  show thesis
  proof (cases "initiated_by i = sm_role sm")
    case True
    let ?sm = "sm\<lparr>sm_outbound := AList.delete (slab_idx i) (sm_outbound sm)\<rparr>"
    have k: "map_of (sm_outbound sm) (slab_idx i) = Some s" using i True by (simp add: handle_of_def)
    note snd = snd_delete [OF d(1,2) k]
    have s: "s \<notin> snd ` set (sm_inbound sm)" using d(5) k by (force dest: map_of_SomeD)
    have "tables_ok ?sm" using tables snd distinct_delete [of "sm_outbound sm" "slab_idx i"]
      by (auto simp: tables_ok_def handles_def set_delete)
    moreover have "handle_of ?sm = (handle_of sm)(i := None)"
      using True by (auto simp: handle_of_def map_of_delete_other fun_eq_iff id_eq_iff)
    moreover have "set (handles ?sm) = set (handles sm) - {s}" using snd s by (auto simp: handles_def)
    ultimately show thesis using True k
      by (intro that [of ?sm]) (simp_all add: sm_remove_def outbound_count_def inbound_count_def length_delete_le)
  next
    case False
    let ?sm = "sm\<lparr>sm_inbound := AList.delete i (sm_inbound sm)\<rparr>"
    have k: "map_of (sm_inbound sm) i = Some s" using i False by (simp add: handle_of_def)
    note snd = snd_delete [OF d(3,4) k]
    have s: "s \<notin> snd ` set (sm_outbound sm)" using d(5) k by (force dest: map_of_SomeD)
    have "tables_ok ?sm" using tables snd distinct_delete [of "sm_inbound sm" i]
      by (auto simp: tables_ok_def handles_def set_delete)
    moreover have "handle_of ?sm = (handle_of sm)(i := None)"
      using False by (auto simp: handle_of_def map_of_delete_other fun_eq_iff)
    moreover have "set (handles ?sm) = set (handles sm) - {s}" using snd s by (auto simp: handles_def)
    ultimately show thesis using False
      by (intro that [of ?sm]) (simp_all add: sm_remove_def outbound_count_def inbound_count_def length_delete_le)
  qed
qed

text \<open>Forgetting a stream that sent both \<open>FIN\<close>s, so that it has no task.\<close>

lemma remove_dead:
  assumes "tables_ok sm" "limits_ok sm" "store_ok sm" "pools_ok sm" and i: "handle_of sm i = Some s"
    and tasks: "distinct (map fst (sm_updates sm))" "\<forall>(x, up) \<in> set (sm_updates sm). handle_of sm (up_id up) = Some x"
      "fst ` set (sm_updates sm) = {x \<in> set (handles sm) - {s}. \<not> sent (stream_fin_state (sm_store sm x))}"
      "\<forall>x \<in> set (handles sm) - {s}. \<not> is_dead (stream_fin_state (sm_store sm x))"
  obtains sm' where "sm_remove i sm = (Ok sm' :: (streams, error_kind) rres)" "streams_inv sm'" "handle_of sm' i = None"
    "sm_store sm' = sm_store sm" "sm_role sm' = sm_role sm" "sm_config sm' = sm_config sm" "sm_fresh sm' = sm_fresh sm"
proof -
  from sm_remove_ok [OF assms(1) i] obtain sm' where sm': "sm_remove i sm = (Ok sm' :: (streams, error_kind) rres)" "tables_ok sm'"
    "handle_of sm' = (handle_of sm)(i := None)" "set (handles sm') = set (handles sm) - {s}"
    "outbound_count sm' \<le> outbound_count sm" "inbound_count sm' \<le> inbound_count sm"
    "sm_role sm' = sm_role sm" "sm_config sm' = sm_config sm" "sm_updates sm' = sm_updates sm" "sm_flow sm' = sm_flow sm"
    "sm_store sm' = sm_store sm" "sm_fresh sm' = sm_fresh sm" .
  have other: "up_id up \<noteq> i" if "(x, up) \<in> set (sm_updates sm)" for x up
  proof
    assume "up_id up = i"
    then have "x = s" using tasks(2) that i by fastforce
    then show False using that tasks(3) by force
  qed
  have "\<forall>(x, up) \<in> set (sm_updates sm'). handle_of sm' (up_id up) = Some x"
    unfolding sm'(3,9) using tasks(2) other by fastforce
  moreover have "{x \<in> set (handles sm'). \<not> sent (stream_fin_state (sm_store sm' x))} = fst ` set (sm_updates sm')"
    unfolding sm'(4,9,11) tasks(3) by (rule refl)
  ultimately have "tasks_ok sm'" using tasks(1,4) unfolding tasks_ok_def sm'(4,9,11) by blast
  moreover have "limits_ok sm'" "store_ok sm'" "pools_ok sm'"
    using assms(2-4) sm' by (simp_all add: limits_ok_def store_ok_def pools_ok_def)
  ultimately show thesis using sm' by (intro that [of sm']) (simp_all add: streams_inv_def)
qed

subsection \<open>Starting a stream\<close>

lemma fresh_fin: "\<not> sent (stream_fin_state (stream_new config now))"
  by (simp add: stream_fin_state_def stream_new_def in_new_def out_new_def in_fin_state_def out_fin_state_def
      fin_and_def fin_default_def)

text \<open>The streams after a new one was put into the tables and its task was pushed.\<close>

lemma start_inv:
  assumes inv: "streams_inv sm" and i: "handle_of sm i = None"
    and sm': "sm_store sm' = (sm_store sm)(sm_fresh sm := stream_new (sm_config sm) now)" "sm_fresh sm' = Suc (sm_fresh sm)"
      "sm_updates sm' = (sm_fresh sm, \<lparr>up_id = i, up_syn = b\<rparr>) # sm_updates sm" "sm_flow sm' = sm_flow sm"
      "sm_config sm' = sm_config sm" "handle_of sm' = (handle_of sm)(i \<mapsto> sm_fresh sm)"
      "set (handles sm') = insert (sm_fresh sm) (set (handles sm))" "limits_ok sm'" "tables_ok sm'"
  shows "streams_inv sm'"
proof -
  let ?n = "sm_fresh sm"
  have n: "?n \<notin> set (handles sm)" using inv by (auto simp: streams_inv_def tables_ok_def)
  have fin: "sm_store sm' x = sm_store sm x" if "x \<noteq> ?n" for x using that sm'(1) by simp
  have tasks: "tasks_ok sm" using inv by (simp add: streams_inv_def)
  have 1: "distinct (map fst (sm_updates sm'))" using tasks n by (auto simp: tasks_ok_def sm'(3))
  have "\<forall>(x, up) \<in> set (sm_updates sm). ((handle_of sm)(i \<mapsto> ?n)) (up_id up) = Some x"
    using tasks i by (force simp: tasks_ok_def)
  then have 2: "\<forall>(x, up) \<in> set (sm_updates sm'). handle_of sm' (up_id up) = Some x" unfolding sm'(3,6) by simp
  have 3: "fst ` set (sm_updates sm') = {x \<in> set (handles sm'). \<not> sent (stream_fin_state (sm_store sm' x))}"
    using tasks fin n fresh_fin sm'(1) by (auto simp: tasks_ok_def sm'(3,7))
  have 4: "\<not> is_dead (stream_fin_state (sm_store sm' x))" if "x \<in> set (handles sm')" for x
    using that tasks fin fresh_fin sm'(1) by (cases "x = ?n") (auto simp: tasks_ok_def is_dead_def sm'(7))
  have "tasks_ok sm'" using 1 2 3 4 unfolding tasks_ok_def by blast
  moreover have "store_ok sm'" using inv stream_new_inv stream_new_conf by (auto simp: streams_inv_def store_ok_def sm' less_Suc_eq)
  moreover have "pools_ok sm'" using inv flow_ok_start by (simp add: streams_inv_def pools_ok_def sm')
  ultimately show ?thesis using sm'(8,9) by (simp add: streams_inv_def)
qed

lemma start_inbound:
  assumes inv: "streams_inv sm" and i: "map_of (sm_inbound sm) i = None" "initiated_by i \<noteq> sm_role sm"
    and count: "inbound_count sm < unat (max_inbound_streams (sm_config sm))"
    and start: "start_stream i False sm now = (dx, sm1)" and sm': "sm' = sm1\<lparr>sm_inbound := (i, snd dx) # sm_inbound sm1\<rparr>"
  shows "streams_inv sm'" "handle_of sm' i = Some (snd dx)" "dx = (duplex_new i, sm_fresh sm)"
    "handle_of sm' = (handle_of sm)(i \<mapsto> sm_fresh sm)"
proof -
  have sm1: "dx = (duplex_new i, sm_fresh sm)" "sm1 = sm\<lparr>sm_store := (sm_store sm)(sm_fresh sm := stream_new (sm_config sm) now),
      sm_fresh := Suc (sm_fresh sm), sm_updates := (sm_fresh sm, \<lparr>up_id = i, up_syn = False\<rparr>) # sm_updates sm\<rparr>"
    using start by (simp_all add: start_stream_def Let_def)
  have t: "tables_ok sm" "limits_ok sm" using inv by (simp_all add: streams_inv_def)
  have h: "handle_of sm' = (handle_of sm)(i \<mapsto> sm_fresh sm)"
    using i(2) by (auto simp: sm' sm1 handle_of_def fun_eq_iff)
  have "tables_ok sm'" using t(1) i by (auto simp: sm' sm1 tables_ok_def handles_def map_of_eq_None_iff)
  moreover have "limits_ok sm'" using t(2) count by (simp add: sm' sm1 limits_ok_def outbound_count_def inbound_count_def)
  moreover have "handle_of sm i = None" using i by (simp add: handle_of_def)
  ultimately show "streams_inv sm'" using h by (intro start_inv [OF inv]) (auto simp: sm' sm1 handles_def)
  show "handle_of sm' i = Some (snd dx)" "dx = (duplex_new i, sm_fresh sm)" "handle_of sm' = (handle_of sm)(i \<mapsto> sm_fresh sm)"
    using h sm1 by simp_all
qed

lemma open_outbound_Some:
  assumes "open_outbound key sm now = (Some dx, sm')"
  obtains i where "from_slab_idx key (sm_role sm) = Some i" "outbound_count sm < unat (max_outbound_streams (sm_config sm))"
    "dx = (duplex_new i, sm_fresh sm)" "sm' = sm\<lparr>sm_store := (sm_store sm)(sm_fresh sm := stream_new (sm_config sm) now),
      sm_fresh := Suc (sm_fresh sm), sm_updates := (sm_fresh sm, \<lparr>up_id = i, up_syn = True\<rparr>) # sm_updates sm,
      sm_outbound := (key, sm_fresh sm) # sm_outbound sm\<rparr>"
  using assms that by (auto simp: open_outbound_def start_stream_def Let_def split: if_splits option.splits)

lemma start_outbound:
  assumes inv: "streams_inv sm" and key: "key \<notin> fst ` set (sm_outbound sm)"
    and op: "open_outbound key sm now = (Some dx, sm')"
  obtains i where "streams_inv sm'" "from_slab_idx key (sm_role sm) = Some i" "handle_of sm i = None"
    "handle_of sm' = (handle_of sm)(i \<mapsto> sm_fresh sm)" "dx = (duplex_new i, sm_fresh sm)"
    "map_of (sm_updates sm') (sm_fresh sm) = Some \<lparr>up_id = i, up_syn = True\<rparr>"
    "outbound_count sm < unat (max_outbound_streams (sm_config sm))"
proof -
  from open_outbound_Some [OF op] obtain i where i: "from_slab_idx key (sm_role sm) = Some i"
    and count: "outbound_count sm < unat (max_outbound_streams (sm_config sm))"
    and sm': "dx = (duplex_new i, sm_fresh sm)" "sm' = sm\<lparr>sm_store := (sm_store sm)(sm_fresh sm := stream_new (sm_config sm) now),
      sm_fresh := Suc (sm_fresh sm), sm_updates := (sm_fresh sm, \<lparr>up_id = i, up_syn = True\<rparr>) # sm_updates sm,
      sm_outbound := (key, sm_fresh sm) # sm_outbound sm\<rparr>" .
  note id = from_slab_idx_Some [OF i]
  have t: "tables_ok sm" "limits_ok sm" using inv by (simp_all add: streams_inv_def)
  have h: "handle_of sm' = (handle_of sm)(i \<mapsto> sm_fresh sm)"
    using id by (auto simp: sm' handle_of_def fun_eq_iff id_eq_iff)
  have none: "handle_of sm i = None" using id key by (simp add: handle_of_def map_of_eq_None_iff)
  have "key < 2 ^ 15" using i by (simp add: from_slab_idx_eq split: if_splits)
  then have "tables_ok sm'" using t(1) key by (auto simp: sm' tables_ok_def handles_def)
  moreover have "limits_ok sm'" using t(2) count by (simp add: sm' limits_ok_def outbound_count_def inbound_count_def)
  ultimately have "streams_inv sm'" using h none by (intro start_inv [OF inv]) (auto simp: sm' handles_def)
  then show thesis using i none h sm' count by (intro that [of i]) simp_all
qed

subsection \<open>Receiving\<close>

lemma handle_left_step:
  assumes inv: "stream_inv (store s)" and ok: "flow_ok S store flow" and s: "s \<in> S" and len: "length d \<le> u32_max"
  shows "\<exists>flow'. step_ok S store flow s (fst (handle_left fexp credit d flags (store s) flow me now)) flow'"
proof (cases "handle_credit fexp credit (store s) flow me now")
  case (Ok r1)
  then obtain st1 flow1 ws1 where h1: "handle_credit fexp credit (store s) flow me now = Ok (st1, flow1, ws1)" by (cases r1) auto
  have s1: "step_ok S store flow s st1 flow1" by (rule handle_credit_ok [OF inv ok s h1])
  then have i1: "stream_inv ((store(s := st1)) s)" "flow_ok S (store(s := st1)) flow1" by (simp_all add: step_ok_def)
  show ?thesis
  proof (cases "handle_data d st1 flow1")
    case (Ok r2)
    then obtain st2 flow2 ws2 where h2: "handle_data d st1 flow1 = Ok (st2, flow2, ws2)" by (cases r2) auto
    have "step_ok S (store(s := st1)) flow1 s st2 flow2" using handle_data_ok [OF i1 s len] h2 by simp
    with s1 have s2: "step_ok S store flow s st2 flow2" by (rule step_ok_trans)
    then have i2: "stream_inv ((store(s := st2)) s)" "flow_ok S (store(s := st2)) flow2" by (simp_all add: step_ok_def)
    show ?thesis
    proof (cases "handle_fin_write (fin_write flags) st2 flow2 me")
      case (Ok r3)
      then obtain st3 flow3 ws3 where h3: "handle_fin_write (fin_write flags) st2 flow2 me = Ok (st3, flow3, ws3)" by (cases r3) auto
      have "step_ok S (store(s := st2)) flow2 s st3 flow3" using handle_fin_write_ok [OF i2] h3 by simp
      with s2 have "step_ok S store flow s st3 flow3" by (rule step_ok_trans)
      then show ?thesis using h1 h2 h3 by (auto simp: handle_left_def)
    qed (use h1 h2 s2 in \<open>auto simp: handle_left_def\<close>)
  qed (use h1 s1 in \<open>auto simp: handle_left_def\<close>)
qed (use step_ok_refl [OF inv ok] in \<open>auto simp: handle_left_def\<close>)

lemma duplex_drop_inv: "stream_inv st \<Longrightarrow> stream_inv (fst (duplex_drop dx st me))"
  using halves_keep(5,6) by (simp add: duplex_drop_def split_beta Let_def)

lemma handed_stream_ok:
  assumes "streams_inv sm" "handle_of sm i = Some s"
  shows "s < sm_fresh sm" "stream_inv (sm_store sm s)" "flow_ok {..<sm_fresh sm} (sm_store sm) (sm_flow sm)" "s \<in> {..<sm_fresh sm}"
    "stream_conf (sm_config sm) (sm_store sm s)"
proof -
  have t: "tables_ok sm" "store_ok sm" "pools_ok sm" using assms(1) by (simp_all add: streams_inv_def)
  then have "s \<in> set (handles sm)" using handles_iff assms(2) by blast
  then show "s < sm_fresh sm" using t(1) by (auto simp: tables_ok_def)
  then show "stream_inv (sm_store sm s)" "flow_ok {..<sm_fresh sm} (sm_store sm) (sm_flow sm)" "s \<in> {..<sm_fresh sm}"
    "stream_conf (sm_config sm) (sm_store sm s)" using t(2,3) by (simp_all add: store_ok_def pools_ok_def)
qed

lemma hand_over_refused:
  assumes inv: "streams_inv sm" and s: "handle_of sm (sh_id h) = Some s" and len: "length d \<le> u32_max"
    and op: "hand_over fexp h d s new sm now = (r, sm', ws)"
    and rcv: "handle_received fexp (sh_credit h) d (sh_flags h) (sm_store sm s) (sm_flow sm) s now = Err m"
  shows "r = Err (Stream (sh_id h) m)" "store_ok sm'" "tables_ok sm'" "handles sm' = handles sm"
    "sm_role sm' = sm_role sm \<and> sm_config sm' = sm_config sm \<and> sm_fresh sm' = sm_fresh sm \<and> (\<forall>x. x \<noteq> s \<longrightarrow> sm_store sm' x = sm_store sm x)"
proof -
  have t: "tables_ok sm" "store_ok sm" using inv by (simp_all add: streams_inv_def)
  note si = handed_stream_ok [OF inv s]
  obtain st ws1 where left: "handle_left fexp (sh_credit h) d (sh_flags h) (sm_store sm s) (sm_flow sm) s now = (st, ws1)" by fastforce
  obtain flow' where "step_ok {..<sm_fresh sm} (sm_store sm) (sm_flow sm) s st flow'"
    using handle_left_step [OF si(2-4) len, of fexp "sh_credit h" "sh_flags h" s now] left by auto
  with si(5) have st: "stream_inv st" "stream_conf (sm_config sm) st" using stream_conf_step by (auto simp: step_ok_def)
  obtain st' where sm': "r = Err (Stream (sh_id h) m)" "sm' = sm\<lparr>sm_store := (sm_store sm)(s := st')\<rparr>"
      "stream_inv st'" "stream_conf (sm_config sm) st'"
    using op st duplex_drop_inv [OF st(1)] stream_conf_keeps [OF duplex_drop_keeps st(2)]
    by (auto simp: hand_over_def rcv left split_beta Let_def split: option.splits)
  then show "r = Err (Stream (sh_id h) m)" "store_ok sm'" "tables_ok sm'" "handles sm' = handles sm"
    "sm_role sm' = sm_role sm \<and> sm_config sm' = sm_config sm \<and> sm_fresh sm' = sm_fresh sm \<and> (\<forall>x. x \<noteq> s \<longrightarrow> sm_store sm' x = sm_store sm x)"
    using t si(1) by (simp_all add: store_ok_def tables_ok_def handles_def)
qed

lemma hand_over_taken:
  assumes inv: "streams_inv sm" and s: "handle_of sm (sh_id h) = Some s" and len: "length d \<le> u32_max"
    and op: "hand_over fexp h d s new sm now = (r, sm', ws)"
    and rcv: "handle_received fexp (sh_credit h) d (sh_flags h) (sm_store sm s) (sm_flow sm) s now = Ok (fin, st, flow, ws1)"
  shows "r = Ok new \<and> streams_inv sm'
      \<and> handle_of sm' (sh_id h) = (if is_dead (stream_fin_state (sm_store sm' s)) then None else Some s)
      \<and> sm_role sm' = sm_role sm \<and> sm_config sm' = sm_config sm \<and> sm_fresh sm' = sm_fresh sm \<and> (\<forall>x. x \<noteq> s \<longrightarrow> sm_store sm' x = sm_store sm x)"
proof -
  have t: "tables_ok sm" "limits_ok sm" "store_ok sm" "pools_ok sm" "tasks_ok sm" using inv by (simp_all add: streams_inv_def)
  note si = handed_stream_ok [OF inv s]
  note step = handle_received_step [OF si(2-4) len rcv] and same = handle_received_sent [OF rcv]
  let ?sm = "sm\<lparr>sm_store := (sm_store sm)(s := st), sm_flow := flow\<rparr>"
  have t': "tables_ok ?sm" "limits_ok ?sm" "store_ok ?sm" "pools_ok ?sm" "handle_of ?sm = handle_of sm" "handles ?sm = handles sm"
    using t step_keeps_store [OF step(1) t(3,4), of ?sm] handle_of_cong [of ?sm sm]
    by (simp_all add: tables_ok_def limits_ok_def outbound_count_def inbound_count_def)
  show ?thesis
  proof (cases "is_dead fin")
    case False
    then have "tasks_ok ?sm" using t(5) same step(2) by (intro tasks_keep [OF t(5), of st s]) (auto simp: t'(5,6))
    then have "streams_inv ?sm" using t' by (simp add: streams_inv_def)
    moreover have "r = Ok new" "sm' = ?sm" using op rcv False by (simp_all add: hand_over_def Let_def)
    ultimately show ?thesis using False step(2) s t'(5) by simp
  next
    case True
    have no_task: "s \<notin> fst ` set (sm_updates sm)" using True same step(2) t(5) by (auto simp: tasks_ok_def is_dead_def)
    have other: "sm_store ?sm x = sm_store sm x" if "x \<noteq> s" for x using that by simp
    have c3: "fst ` set (sm_updates ?sm) = {x \<in> set (handles ?sm) - {s}. \<not> sent (stream_fin_state (sm_store ?sm x))}"
      using t(5) no_task other by (auto simp: tasks_ok_def t'(6))
    have c4: "\<forall>x \<in> set (handles ?sm) - {s}. \<not> is_dead (stream_fin_state (sm_store ?sm x))"
      using t(5) other by (simp add: tasks_ok_def t'(6))
    have c1: "distinct (map fst (sm_updates ?sm))" "\<forall>(x, up) \<in> set (sm_updates ?sm). handle_of ?sm (up_id up) = Some x"
      using t(5) by (simp_all add: tasks_ok_def t'(5))
    have ci: "handle_of ?sm (sh_id h) = Some s" using s by (simp add: t'(5))
    obtain sm2 where "sm_remove (sh_id h) ?sm = (Ok sm2 :: (streams, error_kind) rres)" "streams_inv sm2"
      "handle_of sm2 (sh_id h) = None" "sm_store sm2 = sm_store ?sm" "sm_role sm2 = sm_role ?sm" "sm_config sm2 = sm_config ?sm"
      "sm_fresh sm2 = sm_fresh ?sm"
      by (rule remove_dead [OF t'(1-4) ci c1 c3 c4])
    then show ?thesis using op rcv True step(2) by (auto simp: hand_over_def Let_def)
  qed
qed

lemma hand_over_inv:
  assumes inv: "streams_inv sm" and s: "handle_of sm (sh_id h) = Some s" and len: "length d \<le> u32_max"
    and op: "hand_over fexp h d s new sm now = (r, sm', ws)"
  shows "r \<noteq> Panic" and "r = Ok x \<Longrightarrow> x = new \<and> streams_inv sm'
      \<and> handle_of sm' (sh_id h) = (if is_dead (stream_fin_state (sm_store sm' s)) then None else Some s)"
    and "r = Err e \<Longrightarrow> store_ok sm' \<and> tables_ok sm' \<and> handles sm' = handles sm
      \<and> (\<exists>m. e = Stream (sh_id h) m \<and> handle_received fexp (sh_credit h) d (sh_flags h) (sm_store sm s) (sm_flow sm) s now = Err m)"
    and "sm_role sm' = sm_role sm \<and> sm_config sm' = sm_config sm \<and> sm_fresh sm' = sm_fresh sm \<and> (\<forall>x. x \<noteq> s \<longrightarrow> sm_store sm' x = sm_store sm x)"
    and "(\<exists>x. r = Ok x) \<longleftrightarrow> (\<exists>y. handle_received fexp (sh_credit h) d (sh_flags h) (sm_store sm s) (sm_flow sm) s now = Ok y)"
proof -
  let ?rcv = "handle_received fexp (sh_credit h) d (sh_flags h) (sm_store sm s) (sm_flow sm) s now"
  consider (refused) m where "?rcv = Err m" | (taken) fin st flow ws1 where "?rcv = Ok (fin, st, flow, ws1)"
    using handle_received_not_Panic by (metis prod_cases4 rres.exhaust)
  then have "r \<noteq> Panic \<and> (r = Ok x \<longrightarrow> x = new \<and> streams_inv sm'
      \<and> handle_of sm' (sh_id h) = (if is_dead (stream_fin_state (sm_store sm' s)) then None else Some s))
    \<and> (r = Err e \<longrightarrow> store_ok sm' \<and> tables_ok sm' \<and> handles sm' = handles sm \<and> (\<exists>m. e = Stream (sh_id h) m \<and> ?rcv = Err m))
    \<and> (sm_role sm' = sm_role sm \<and> sm_config sm' = sm_config sm \<and> sm_fresh sm' = sm_fresh sm \<and> (\<forall>x. x \<noteq> s \<longrightarrow> sm_store sm' x = sm_store sm x))
    \<and> ((\<exists>x. r = Ok x) \<longleftrightarrow> (\<exists>y. ?rcv = Ok y))"
  proof cases
    case refused
    then show ?thesis using hand_over_refused [OF assms refused] by simp
  next
    case taken
    then show ?thesis using hand_over_taken [OF assms taken] by simp
  qed
  then show "r \<noteq> Panic" "r = Ok x \<Longrightarrow> x = new \<and> streams_inv sm'
      \<and> handle_of sm' (sh_id h) = (if is_dead (stream_fin_state (sm_store sm' s)) then None else Some s)"
    "r = Err e \<Longrightarrow> store_ok sm' \<and> tables_ok sm' \<and> handles sm' = handles sm \<and> (\<exists>m. e = Stream (sh_id h) m \<and> ?rcv = Err m)"
    "sm_role sm' = sm_role sm \<and> sm_config sm' = sm_config sm \<and> sm_fresh sm' = sm_fresh sm \<and> (\<forall>x. x \<noteq> s \<longrightarrow> sm_store sm' x = sm_store sm x)"
    "(\<exists>x. r = Ok x) \<longleftrightarrow> (\<exists>y. ?rcv = Ok y)" by blast+
qed

lemma hand_over_Ok:
  assumes "hand_over fexp h d s new sm now = (Ok x, sm', ws)"
  shows "\<exists>fin. handle_received fexp (sh_credit h) d (sh_flags h) (sm_store sm s) (sm_flow sm) s now = Ok (fin, sm_store sm' s, sm_flow sm', ws)"
proof -
  have flow: "sm_store sm2 = sm_store sm1 \<and> sm_flow sm2 = sm_flow sm1" if "sm_remove i sm1 = Ok sm2" for i sm1 sm2
    using that by (auto simp: sm_remove_def split: if_splits)
  then show ?thesis using assms by (auto simp: hand_over_def Let_def split: rres.splits prod.splits if_splits)
qed

text \<open>What \<^verbatim>\<open>receive\<close> makes of the stream part of a frame, before the stream sees it.\<close>

lemma receive_cases:
  assumes inv: "streams_inv sm"
  obtains
    (refused) m where "refusal sm h = Some m" "receive fexp h d sm now = (violation (sh_id h) m, sm, [])"
  | (known) s where "handle_of sm (sh_id h) = Some s" "\<not> syn (sh_flags h)" "receive fexp h d sm now = hand_over fexp h d s None sm now"
      "refusal sm h = None"
  | (started) sm1 where "handle_of sm (sh_id h) = None" "syn (sh_flags h)" "initiated_by (sh_id h) \<noteq> sm_role sm"
      "streams_inv sm1" "handle_of sm1 (sh_id h) = Some (sm_fresh sm)" "sm_fresh sm1 = Suc (sm_fresh sm)"
      "sm_role sm1 = sm_role sm" "sm_config sm1 = sm_config sm"
      "\<And>x. x \<noteq> sm_fresh sm \<Longrightarrow> sm_store sm1 x = sm_store sm x" "sm_store sm1 (sm_fresh sm) = stream_new (sm_config sm) now"
      "sm_flow sm1 = sm_flow sm"
      "receive fexp h d sm now = hand_over fexp h d (sm_fresh sm) (Some (duplex_new (sh_id h), sm_fresh sm)) sm1 now"
      "refusal sm h = None" "set (handles sm1) = insert (sm_fresh sm) (set (handles sm))"
      "sm_updates sm1 = (sm_fresh sm, \<lparr>up_id = sh_id h, up_syn = False\<rparr>) # sm_updates sm"
      "handle_of sm1 = (handle_of sm)(sh_id h \<mapsto> sm_fresh sm)"
proof (cases "initiated_by (sh_id h) = sm_role sm")
  case True
  then show thesis
  proof (cases "syn (sh_flags h)")
    case False
    then show thesis using True refused known
      by (cases "map_of (sm_outbound sm) (slab_idx (sh_id h))") (simp_all add: receive_def handle_of_def refusal_def)
  qed (use True refused in \<open>simp add: receive_def refusal_def\<close>)
next
  case False
  show thesis
  proof (cases "map_of (sm_inbound sm) (sh_id h)")
    case (Some s)
    then show thesis using False refused known by (cases "syn (sh_flags h)") (simp_all add: receive_def handle_of_def refusal_def)
  next
    case None
    show thesis
    proof (cases "syn (sh_flags h) \<and> inbound_count sm < unat (max_inbound_streams (sm_config sm))")
      case True
      obtain dx sm0 where st: "start_stream (sh_id h) False sm now = (dx, sm0)" by fastforce
      let ?sm = "sm0\<lparr>sm_inbound := (sh_id h, snd dx) # sm_inbound sm0\<rparr>"
      have "inbound_count sm < unat (max_inbound_streams (sm_config sm))" using True by simp
      note new = start_inbound [OF inv None False this st refl]
      have sm0: "sm0 = sm\<lparr>sm_store := (sm_store sm)(sm_fresh sm := stream_new (sm_config sm) now),
          sm_fresh := Suc (sm_fresh sm), sm_updates := (sm_fresh sm, \<lparr>up_id = sh_id h, up_syn = False\<rparr>) # sm_updates sm\<rparr>"
        using st by (simp add: start_stream_def Let_def)
      have "receive fexp h d sm now = hand_over fexp h d (sm_fresh sm) (Some (duplex_new (sh_id h), sm_fresh sm)) ?sm now"
        using True False None st new(3) by (simp add: receive_def Let_def)
      moreover have "handle_of sm (sh_id h) = None" using None False by (simp add: handle_of_def)
      moreover have "set (handles ?sm) = insert (sm_fresh sm) (set (handles sm))" using sm0 new(3) by (auto simp: handles_def)
      ultimately show thesis using True False None new sm0 by (intro started [of ?sm]) (simp_all add: refusal_def)
    next
      case full: False
      then show thesis using False None refused by (cases "syn (sh_flags h)") (simp_all add: receive_def refusal_def handle_of_def)
    qed
  qed
qed

lemma receive_inv:
  assumes inv: "streams_inv sm" and len: "length d \<le> u32_max" and op: "receive fexp h d sm now = (r, sm', ws)"
  shows "r \<noteq> Panic" and "r = Ok x \<Longrightarrow> streams_inv sm'" and "r = Err e \<Longrightarrow> store_ok sm' \<and> tables_ok sm' \<and> (\<exists>m. e = Stream (sh_id h) m)"
    and "sm_role sm' = sm_role sm" "sm_config sm' = sm_config sm" "sm_fresh sm \<le> sm_fresh sm'"
proof -
  have "r \<noteq> Panic \<and> (\<forall>x. r = Ok x \<longrightarrow> streams_inv sm') \<and> (\<forall>e. r = Err e \<longrightarrow> store_ok sm' \<and> tables_ok sm' \<and> (\<exists>m. e = Stream (sh_id h) m))
    \<and> sm_role sm' = sm_role sm \<and> sm_config sm' = sm_config sm \<and> sm_fresh sm \<le> sm_fresh sm'"
    using inv
  proof (cases rule: receive_cases [where fexp = fexp and h = h and d = d and now = now])
    case (refused m)
    then show ?thesis using op inv by (auto simp: violation_def streams_inv_def)
  next
    case (known s)
    from hand_over_inv [OF inv known(1) len, of fexp None now r sm' ws] op known(3) show ?thesis by auto
  next
    case (started sm1)
    from hand_over_inv [OF started(4,5) len, of fexp "Some (duplex_new (sh_id h), sm_fresh sm)" now r sm' ws] op started(6-8,12)
    show ?thesis by auto
  qed
  then show "r \<noteq> Panic" "r = Ok x \<Longrightarrow> streams_inv sm'" "r = Err e \<Longrightarrow> store_ok sm' \<and> tables_ok sm' \<and> (\<exists>m. e = Stream (sh_id h) m)"
    "sm_role sm' = sm_role sm" "sm_config sm' = sm_config sm" "sm_fresh sm \<le> sm_fresh sm'" by blast+
qed

subsection \<open>Sending\<close>

text \<open>An update that a frame can be made of.\<close>

definition update_ok :: "rammux_config \<Rightarrow> stream_update \<Rightarrow> bool" where
  "update_ok config u \<longleftrightarrow> (su_credit u \<noteq> 0 \<or> su_data u \<noteq> [] \<or> fin_read (su_flags u) \<or> fin_write (su_flags u))
     \<and> length (su_data u) \<le> unat (frame_limit config)"

lemma map_fst_update: "k \<in> fst ` set xs \<Longrightarrow> map fst (AList.update k v xs) = map fst xs"
  by (induction xs) auto

lemma in_update: "distinct (map fst xs) \<Longrightarrow> e \<in> set (AList.update k v xs) \<Longrightarrow> e = (k, v) \<or> e \<in> set xs \<and> fst e \<noteq> k"
  by (induction xs) (auto split: if_splits)

text \<open>One task is polled.\<close>

lemma poll_task:
  assumes inv: "streams_inv sm" and task: "map_of (sm_updates sm) s = Some this"
    and poll: "poll_progress fexp this (sm_store sm s) (sm_flow sm) s now = (r, this', st, flow, ws)"
    and sm1: "sm1 = sm\<lparr>sm_store := (sm_store sm)(s := st), sm_flow := flow, sm_updates := AList.update s this' (sm_updates sm)\<rparr>"
  shows "handle_of sm (up_id this) = Some s" "tables_ok sm1" "limits_ok sm1" "store_ok sm1" "pools_ok sm1"
    "handle_of sm1 = handle_of sm" "handles sm1 = handles sm"
    "distinct (map fst (sm_updates sm1))" "\<forall>(x, up) \<in> set (sm_updates sm1). handle_of sm1 (up_id up) = Some x"
    "fst ` set (sm_updates sm1) = {x \<in> set (handles sm). \<not> sent (stream_fin_state (sm_store sm x))}"
    "s \<in> fst ` set (sm_updates sm)"
    "\<And>u. r = Ready (Continue (u, f)) \<or> r = Ready (Break (u, f)) \<Longrightarrow> update_ok (sm_config sm) u \<and> su_id u = up_id this \<and> f = stream_fin_state st"
    "is_dead (stream_fin_state st) \<Longrightarrow> sent (stream_fin_state st)"
    "r = Pending \<Longrightarrow> turn_open flow \<noteq> Some s" "turn_open flow = Some t \<Longrightarrow> turn_open (sm_flow sm) \<noteq> Some t \<Longrightarrow> WakeUpdates t \<in> set ws"
proof -
  have t: "tables_ok sm" "limits_ok sm" "store_ok sm" "pools_ok sm" "tasks_ok sm" using inv by (simp_all add: streams_inv_def)
  have mem: "(s, this) \<in> set (sm_updates sm)" using task by (rule map_of_SomeD)
  then show h: "handle_of sm (up_id this) = Some s" using t(5) by (auto simp: tasks_ok_def)
  then have "s \<in> set (handles sm)" using handles_iff [OF t(1)] by blast
  then have fresh: "s < sm_fresh sm" using t(1) by (auto simp: tables_ok_def)
  then have si: "stream_inv (sm_store sm s)" "flow_ok {..<sm_fresh sm} (sm_store sm) (sm_flow sm)" "s \<in> {..<sm_fresh sm}"
    and conf: "stream_conf (sm_config sm) (sm_store sm s)"
    using t(3,4) by (simp_all add: store_ok_def pools_ok_def)
  note step = poll_progress_step [OF si poll] and fin = poll_progress_fin [OF poll si(1)]
  have id: "up_id this' = up_id this"
  proof (cases r)
    case (Ready pr)
    obtain u f where "pr = Break (u, f) \<or> pr = Continue (u, f)" by (cases pr) auto
    then show ?thesis using fin(2) [of u f] fin(3) [of u f] Ready by auto
  qed (use fin(1) in simp)
  show "s \<in> fst ` set (sm_updates sm)" using mem by force
  then have fst: "map fst (sm_updates sm1) = map fst (sm_updates sm)" by (simp add: sm1 map_fst_update)
  show hs: "handle_of sm1 = handle_of sm" "handles sm1 = handles sm" by (rule handle_of_cong; simp add: sm1)+
  show "tables_ok sm1" using t(1) hs(2) by (simp add: tables_ok_def sm1)
  show "limits_ok sm1" using t(2) by (simp add: sm1 limits_ok_def outbound_count_def inbound_count_def)
  show "store_ok sm1" "pools_ok sm1" using step_keeps_store [OF step(1) t(3,4), of sm1] by (simp_all add: sm1)
  show "distinct (map fst (sm_updates sm1))" using t(5) by (simp add: fst tasks_ok_def)
  show "fst ` set (sm_updates sm1) = {x \<in> set (handles sm). \<not> sent (stream_fin_state (sm_store sm x))}"
    using arg_cong [OF fst, of set] t(5) by (simp add: tasks_ok_def)
  have d: "distinct (map fst (sm_updates sm))" using t(5) by (simp add: tasks_ok_def)
  have "handle_of sm (up_id up) = Some x" if "(x, up) \<in> set (sm_updates sm1)" for x up
    using in_update [OF d, of "(x, up)" s this'] that h id t(5) by (auto simp: sm1 tasks_ok_def)
  then show "\<forall>(x, up) \<in> set (sm_updates sm1). handle_of sm1 (up_id up) = Some x" by (auto simp: hs(1))
  have tx: "pool_ok (tx_pool (sm_flow sm))" using si(2) by (simp add: flow_ok_def)
  show "update_ok (sm_config sm) u \<and> su_id u = up_id this \<and> f = stream_fin_state st"
    if r: "r = Ready (Continue (u, f)) \<or> r = Ready (Break (u, f))" for u
  proof -
    have "\<exists>pr. r = Ready pr \<and> u = progress_update pr" using r by (elim disjE) simp_all
    then obtain pr where pr: "r = Ready pr" "u = progress_update pr" by blast
    have "update_ok (sm_config sm) u" "su_id u = up_id this"
      using update_wellformed [OF si(1) tx poll [unfolded pr(1)] pr(2)] conf by (simp_all add: update_ok_def stream_conf_def)
    then show ?thesis using fin(2,3) r by blast
  qed
  show "is_dead (stream_fin_state st) \<Longrightarrow> sent (stream_fin_state st)" by (simp add: is_dead_def)
  show "r = Pending \<Longrightarrow> turn_open flow \<noteq> Some s" by (rule step(2))
  show "turn_open flow = Some t \<Longrightarrow> turn_open (sm_flow sm) \<noteq> Some t \<Longrightarrow> WakeUpdates t \<in> set ws" by (rule step(3))
qed

lemma poll_task_waits:
  assumes inv: "streams_inv sm" and task: "map_of (sm_updates sm) s = Some this"
    and poll: "poll_progress fexp this (sm_store sm s) (sm_flow sm) s now = (Pending, this', st, flow, ws)"
    and sm1: "sm1 = sm\<lparr>sm_store := (sm_store sm)(s := st), sm_flow := flow, sm_updates := AList.update s this' (sm_updates sm)\<rparr>"
  shows "streams_inv sm1"
proof -
  note p = poll_task [OF inv task poll sm1]
  have t: "tables_ok sm" "store_ok sm" "tasks_ok sm" using inv by (simp_all add: streams_inv_def)
  have "s < sm_fresh sm" using p(1) handles_iff [OF t(1)] t(1) by (auto simp: tables_ok_def)
  then have si: "stream_inv (sm_store sm s)" using t(2) by (simp add: store_ok_def)
  have store: "sm_store sm1 = (sm_store sm)(s := st)" by (simp add: sm1)
  have "\<not> sent (stream_fin_state (sm_store sm s))" using p(11) t(3) by (auto simp: tasks_ok_def)
  then have "tasks_ok sm1" using p(8-10) poll_progress_fin(1) [OF poll si refl] t(3) by (auto simp: tasks_ok_def store p(7) is_dead_def)
  then show ?thesis using p(2-5) by (simp add: streams_inv_def)
qed

text \<open>
  The stream whose update was chosen. When it is closed on both sides it is still in the tables, and
  everything else is as the invariant says.
\<close>

definition chosen :: "streams \<Rightarrow> stream_update \<Rightarrow> fin_state \<Rightarrow> bool" where
  "chosen sm u fin \<longleftrightarrow> (\<exists>s. handle_of sm (su_id u) = Some s \<and> update_ok (sm_config sm) u
      \<and> fin = stream_fin_state (sm_store sm s)
      \<and> (if is_dead fin then tables_ok sm \<and> limits_ok sm \<and> store_ok sm \<and> pools_ok sm
           \<and> distinct (map fst (sm_updates sm)) \<and> (\<forall>(x, up) \<in> set (sm_updates sm). handle_of sm (up_id up) = Some x)
           \<and> fst ` set (sm_updates sm) = {x \<in> set (handles sm) - {s}. \<not> sent (stream_fin_state (sm_store sm x))}
           \<and> (\<forall>x \<in> set (handles sm) - {s}. \<not> is_dead (stream_fin_state (sm_store sm x)))
         else streams_inv sm))"

text \<open>A task that yields, and goes on or ends.\<close>

lemma poll_task_continues:
  assumes inv: "streams_inv sm" and task: "map_of (sm_updates sm) s = Some this"
    and poll: "poll_progress fexp this (sm_store sm s) (sm_flow sm) s now = (Ready (Continue (u, f)), this', st, flow, ws)"
    and sm1: "sm1 = sm\<lparr>sm_store := (sm_store sm)(s := st), sm_flow := flow, sm_updates := AList.update s this' (sm_updates sm)\<rparr>"
  shows "chosen sm1 u f"
proof -
  note p = poll_task [OF inv task poll sm1]
  have tasks: "tasks_ok sm" using inv by (simp add: streams_inv_def)
  have store: "sm_store sm1 = (sm_store sm)(s := st)" "sm_config sm1 = sm_config sm" by (simp_all add: sm1)
  have f: "f = stream_fin_state st" "\<not> sent f"
    using poll_progress_fin(2) [OF poll handed_stream_ok(2) [OF inv p(1)]] by auto
  have "\<not> sent (stream_fin_state (sm_store sm s))" using p(11) tasks by (auto simp: tasks_ok_def)
  then have "tasks_ok sm1" using p(8-10) f tasks by (auto simp: tasks_ok_def store p(7) is_dead_def)
  then have "streams_inv sm1" using p(2-5) by (simp add: streams_inv_def)
  then show ?thesis using p(1,6) p(12) [of u f] f by (auto simp: chosen_def store is_dead_def)
qed

lemma poll_task_breaks:
  assumes inv: "streams_inv sm" and task: "map_of (sm_updates sm) s = Some this"
    and poll: "poll_progress fexp this (sm_store sm s) (sm_flow sm) s now = (Ready (Break (u, f)), this', st, flow, ws)"
    and sm1: "sm1 = sm\<lparr>sm_store := (sm_store sm)(s := st), sm_flow := flow, sm_updates := AList.update s this' (sm_updates sm)\<rparr>"
    and sm': "sm' = sm1\<lparr>sm_flow := fst (transform_break flow s), sm_updates := AList.delete s (sm_updates sm1)\<rparr>"
  shows "chosen sm' u f" and "handle_of sm' = handle_of sm"
proof -
  note p = poll_task [OF inv task poll sm1]
  have tasks: "tasks_ok sm" using inv by (simp add: streams_inv_def)
  have store: "sm_store sm' = (sm_store sm)(s := st)" "sm_config sm' = sm_config sm" by (simp_all add: sm' sm1)
  have f: "f = stream_fin_state st" "sent f"
    using poll_progress_fin(3) [OF poll handed_stream_ok(2) [OF inv p(1)]] by auto
  show h: "handle_of sm' = handle_of sm" using p(6) handle_of_cong [of sm' sm1] by (simp add: sm')
  have hs: "handles sm' = handles sm" using p(7) handle_of_cong [of sm' sm1] by (simp add: sm')
  have t': "tables_ok sm'" "limits_ok sm'" "store_ok sm'" "pools_ok sm'"
    using p(2-5,7) hs pass_turn_flow_ok
    by (simp_all add: sm' tables_ok_def limits_ok_def store_ok_def pools_ok_def outbound_count_def inbound_count_def transform_break_def sm1)
  have up: "distinct (map fst (sm_updates sm'))" "\<forall>(x, up) \<in> set (sm_updates sm'). handle_of sm' (up_id up) = Some x"
    using p(8,9) unfolding h p(6) by (auto simp: sm' distinct_delete set_delete)
  have "fst ` set (sm_updates sm') = fst ` set (sm_updates sm1) - {s}" by (auto simp: sm' set_delete)
  then have fst: "fst ` set (sm_updates sm') = {x \<in> set (handles sm') - {s}. \<not> sent (stream_fin_state (sm_store sm' x))}"
    using p(10) unfolding hs store by auto
  have dead: "\<forall>x \<in> set (handles sm') - {s}. \<not> is_dead (stream_fin_state (sm_store sm' x))"
    using tasks unfolding hs store by (auto simp: tasks_ok_def)
  have "fst ` set (sm_updates sm') = {x \<in> set (handles sm'). \<not> sent (stream_fin_state (sm_store sm' x))}"
    using fst f unfolding store by auto
  moreover have "\<forall>x \<in> set (handles sm'). \<not> is_dead (stream_fin_state (sm_store sm' x))" if "\<not> is_dead f"
    using dead that f unfolding store by auto
  ultimately have live: "streams_inv sm'" if "\<not> is_dead f" using that t' up unfolding streams_inv_def tasks_ok_def by blast
  have "handle_of sm' (su_id u) = Some s" "update_ok (sm_config sm') u" "f = stream_fin_state (sm_store sm' s)"
    using p(1) p(12) [of u f] f(1) h by (simp_all add: store)
  moreover have "if is_dead f then tables_ok sm' \<and> limits_ok sm' \<and> store_ok sm' \<and> pools_ok sm'
      \<and> distinct (map fst (sm_updates sm')) \<and> (\<forall>(x, up) \<in> set (sm_updates sm'). handle_of sm' (up_id up) = Some x)
      \<and> fst ` set (sm_updates sm') = {x \<in> set (handles sm') - {s}. \<not> sent (stream_fin_state (sm_store sm' x))}
      \<and> (\<forall>x \<in> set (handles sm') - {s}. \<not> is_dead (stream_fin_state (sm_store sm' x)))
    else streams_inv sm'"
    using t' up fst dead live by (cases "is_dead f") (simp_all only: if_True if_False simp_thms)
  ultimately show "chosen sm' u f" unfolding chosen_def by blast
qed

lemma select_inv:
  assumes "streams_inv sm" "select_next fexp order sm now = (r, sm', ws)"
  shows "r = Pending \<Longrightarrow> streams_inv sm'"
    and "r = Ready (u, fin) \<Longrightarrow> chosen sm' u fin"
    and "sm_role sm' = sm_role sm \<and> sm_config sm' = sm_config sm \<and> sm_fresh sm' = sm_fresh sm"
    and "handle_of sm' = handle_of sm"
proof -
  have "(r = Pending \<longrightarrow> streams_inv sm') \<and> (\<forall>u fin. r = Ready (u, fin) \<longrightarrow> chosen sm' u fin)
    \<and> (sm_role sm' = sm_role sm \<and> sm_config sm' = sm_config sm \<and> sm_fresh sm' = sm_fresh sm) \<and> handle_of sm' = handle_of sm"
    using assms
  proof (induction order arbitrary: sm ws)
    case Nil
    then show ?case by simp
  next
    case (Cons s order)
    show ?case
    proof (cases "map_of (sm_updates sm) s")
      case None
      then show ?thesis using Cons.IH [OF Cons.prems(1), of ws] Cons.prems(2) by simp
    next
      case (Some this)
      obtain r1 this' st flow ws1 where poll: "poll_progress fexp this (sm_store sm s) (sm_flow sm) s now = (r1, this', st, flow, ws1)"
        by (metis prod_cases5)
      define sm1 where sm1: "sm1 = sm\<lparr>sm_store := (sm_store sm)(s := st), sm_flow := flow, sm_updates := AList.update s this' (sm_updates sm)\<rparr>"
      have same: "handle_of sm1 = handle_of sm" "sm_role sm1 = sm_role sm" "sm_config sm1 = sm_config sm" "sm_fresh sm1 = sm_fresh sm"
        using handle_of_cong [of sm1 sm] by (simp_all add: sm1)
      consider (wait) "r1 = Pending" | (cont) u f where "r1 = Ready (Continue (u, f))" | (brk) u f where "r1 = Ready (Break (u, f))"
        by (metis control_flow.exhaust poll.exhaust surj_pair)
      then show ?thesis
      proof cases
        case wait
        have inv1: "streams_inv sm1" by (rule poll_task_waits [OF Cons.prems(1) Some poll [unfolded wait] sm1])
        obtain ws2 where "select_next fexp order sm1 now = (r, sm', ws2)"
          using Cons.prems(2) Some poll wait by (auto simp: sm1 split: prod.splits)
        from Cons.IH [OF inv1 this] show ?thesis by (simp add: same)
      next
        case cont
        have "r = Ready (u, f)" "sm' = sm1" using Cons.prems(2) Some poll cont by (auto simp: sm1)
        then show ?thesis using poll_task_continues [OF Cons.prems(1) Some poll [unfolded cont] sm1] by (simp add: same)
      next
        case brk
        have r: "r = Ready (u, f)" "sm' = sm1\<lparr>sm_flow := fst (transform_break flow s), sm_updates := AList.delete s (sm_updates sm1)\<rparr>"
          using Cons.prems(2) Some poll brk by (auto simp: sm1 split: prod.splits)
        from poll_task_breaks [OF Cons.prems(1) Some poll [unfolded brk] sm1 r(2)] show ?thesis
          using r same by simp
      qed
    qed
  qed
  then show "r = Pending \<Longrightarrow> streams_inv sm'" "sm_role sm' = sm_role sm \<and> sm_config sm' = sm_config sm \<and> sm_fresh sm' = sm_fresh sm"
    "handle_of sm' = handle_of sm"
    "r = Ready (u, fin) \<Longrightarrow> chosen sm' u fin" by blast+
qed

lemma poll_update_inv:
  assumes inv: "streams_inv sm" and op: "poll_update fexp order sm now = (r, sm', ws)"
  shows "streams_inv sm'" "r = Pending \<or> (\<exists>u. r = Ready (Ok u) \<and> update_ok (sm_config sm) u)"
    "sm_role sm' = sm_role sm" "sm_config sm' = sm_config sm" "sm_fresh sm' = sm_fresh sm"
    "r = Ready (Ok u) \<Longrightarrow> \<exists>s. handle_of sm (su_id u) = Some s
      \<and> handle_of sm' (su_id u) = (if is_dead (stream_fin_state (sm_store sm' s)) then None else Some s)"
proof -
  obtain r1 sm1 ws1 where sel: "select_next fexp order sm now = (r1, sm1, ws1)" by (metis prod_cases3)
  note s = select_inv [OF inv sel]
  have "streams_inv sm' \<and> (r = Pending \<or> (\<exists>u. r = Ready (Ok u) \<and> update_ok (sm_config sm) u))
    \<and> sm_role sm' = sm_role sm \<and> sm_config sm' = sm_config sm \<and> sm_fresh sm' = sm_fresh sm
    \<and> (\<forall>u. r = Ready (Ok u) \<longrightarrow> (\<exists>s. handle_of sm (su_id u) = Some s
      \<and> handle_of sm' (su_id u) = (if is_dead (stream_fin_state (sm_store sm' s)) then None else Some s)))"
  proof (cases r1)
    case Pending
    then show ?thesis using op sel s(1,3) by (simp add: poll_update_def)
  next
    case (Ready uf)
    obtain u fin where uf: "uf = (u, fin)" by fastforce
    then have "chosen sm1 u fin" using s(2) Ready by simp
    then obtain x where x: "handle_of sm1 (su_id u) = Some x" "update_ok (sm_config sm1) u" "fin = stream_fin_state (sm_store sm1 x)"
      and d: "if is_dead fin then tables_ok sm1 \<and> limits_ok sm1 \<and> store_ok sm1 \<and> pools_ok sm1
           \<and> distinct (map fst (sm_updates sm1)) \<and> (\<forall>(x, up) \<in> set (sm_updates sm1). handle_of sm1 (up_id up) = Some x)
           \<and> fst ` set (sm_updates sm1) = {y \<in> set (handles sm1) - {x}. \<not> sent (stream_fin_state (sm_store sm1 y))}
           \<and> (\<forall>y \<in> set (handles sm1) - {x}. \<not> is_dead (stream_fin_state (sm_store sm1 y)))
         else streams_inv sm1"
      unfolding chosen_def by blast
    show ?thesis
    proof (cases "is_dead fin")
      case False
      then show ?thesis using op sel Ready uf x d s(3,4) by (auto simp: poll_update_def)
    next
      case True
      have dd: "tables_ok sm1" "limits_ok sm1" "store_ok sm1" "pools_ok sm1" "distinct (map fst (sm_updates sm1))"
        "\<forall>(x, up) \<in> set (sm_updates sm1). handle_of sm1 (up_id up) = Some x"
        "fst ` set (sm_updates sm1) = {y \<in> set (handles sm1) - {x}. \<not> sent (stream_fin_state (sm_store sm1 y))}"
        "\<forall>y \<in> set (handles sm1) - {x}. \<not> is_dead (stream_fin_state (sm_store sm1 y))"
        using d True by simp_all
      obtain sm2 where "sm_remove (su_id u) sm1 = (Ok sm2 :: (streams, error_kind) rres)" "streams_inv sm2" "handle_of sm2 (su_id u) = None"
        "sm_store sm2 = sm_store sm1" "sm_role sm2 = sm_role sm1" "sm_config sm2 = sm_config sm1" "sm_fresh sm2 = sm_fresh sm1"
        by (rule remove_dead [OF dd(1-4) x(1) dd(5-8)])
      then show ?thesis using op sel Ready uf x s(3,4) True by (auto simp: poll_update_def)
    qed
  qed
  then show "streams_inv sm'" "r = Pending \<or> (\<exists>u. r = Ready (Ok u) \<and> update_ok (sm_config sm) u)"
    "sm_role sm' = sm_role sm" "sm_config sm' = sm_config sm" "sm_fresh sm' = sm_fresh sm"
    "r = Ready (Ok u) \<Longrightarrow> \<exists>s. handle_of sm (su_id u) = Some s
      \<and> handle_of sm' (su_id u) = (if is_dead (stream_fin_state (sm_store sm' s)) then None else Some s)" by blast+
qed

lemma app_inv:
  assumes inv: "streams_inv sm" and s: "s < sm_fresh sm" and step: "app_step s (sm_store sm s) st"
  shows "streams_inv (sm\<lparr>sm_store := (sm_store sm)(s := st)\<rparr>)"
proof -
  let ?sm = "sm\<lparr>sm_store := (sm_store sm)(s := st)\<rparr>"
  have t: "tables_ok sm" "limits_ok sm" "store_ok sm" "pools_ok sm" "tasks_ok sm" using inv by (simp_all add: streams_inv_def)
  have k: "app_keeps (sm_store sm s) st" "stream_inv st" using app_step_keeps [OF step] t(3) s by (simp_all add: store_ok_def)
  have h: "handle_of ?sm = handle_of sm" "handles ?sm = handles sm" by (rule handle_of_cong; simp)+
  have "tables_ok ?sm" "limits_ok ?sm" using t(1,2) h(2) by (simp_all add: tables_ok_def limits_ok_def outbound_count_def inbound_count_def)
  moreover have "store_ok ?sm" using t(3) s k stream_conf_keeps by (auto simp: store_ok_def)
  moreover have "pools_ok ?sm" using t(4) flow_ok_keeps [where store = "sm_store sm", OF _ k(1)] by (simp add: pools_ok_def)
  moreover have "tasks_ok ?sm" using t(5) k(1) by (intro tasks_keep [OF t(5), of st s]) (auto simp: h app_keeps_def tasks_ok_def)
  ultimately show ?thesis by (simp add: streams_inv_def)
qed

lemma streams_new_inv: "config_typed config \<Longrightarrow> streams_inv (streams_new role config store)"
  by (auto simp: streams_new_def streams_inv_def tables_ok_def limits_ok_def store_ok_def pools_ok_def tasks_ok_def handles_def
      outbound_count_def inbound_count_def flow_ok_def conn_flow_new_def pool_new_def pool_ok_def accounts_def unat_le_u32_max srtt_ok_def)

subsection \<open>Histories\<close>

text \<open>
  Everything that happens to the streams of a connection that has not failed: streams are opened and
  frames are taken and sent by the connection, a \<^verbatim>\<open>PONG\<close> updates the round trip time, and the
  application uses its halves. The slab proposes a key that is not in use.
\<close>

inductive streams_step :: "streams \<Rightarrow> streams \<Rightarrow> bool" where
  opens: "key \<notin> fst ` set (sm_outbound sm) \<Longrightarrow> open_outbound key sm now = (r, sm') \<Longrightarrow> streams_step sm sm'"
| receives: "length d \<le> u32_max \<Longrightarrow> receive fexp h d sm now = (Ok new, sm', ws) \<Longrightarrow> streams_step sm sm'"
| sends: "poll_update fexp order sm now = (r, sm', ws) \<Longrightarrow> streams_step sm sm'"
| measures_rtt: "srtt_observe (cf_srtt (sm_flow sm)) (elapsed t t') = (Ok x :: (srtt, unit) rres) \<Longrightarrow> streams_step sm (sm\<lparr>sm_flow := (sm_flow sm)\<lparr>cf_srtt := x\<rparr>\<rparr>)"
| app: "s < sm_fresh sm \<Longrightarrow> app_step s (sm_store sm s) st \<Longrightarrow> streams_step sm (sm\<lparr>sm_store := (sm_store sm)(s := st)\<rparr>)"

lemma srtt_inv:
  assumes "streams_inv sm" "srtt_ok x"
  shows "streams_inv (sm\<lparr>sm_flow := (sm_flow sm)\<lparr>cf_srtt := x\<rparr>\<rparr>)"
proof -
  let ?sm = "sm\<lparr>sm_flow := (sm_flow sm)\<lparr>cf_srtt := x\<rparr>\<rparr>"
  have "handle_of ?sm = handle_of sm" "handles ?sm = handles sm" by (rule handle_of_cong; simp)+
  then show ?thesis using assms
    by (simp add: streams_inv_def tables_ok_def limits_ok_def store_ok_def pools_ok_def tasks_ok_def
        outbound_count_def inbound_count_def flow_ok_def)
qed

lemma srtt_step_inv:
  assumes inv: "streams_inv sm" and op: "srtt_observe (cf_srtt (sm_flow sm)) (elapsed t t') = (Ok x :: (srtt, 'e) rres)"
  shows "streams_inv (sm\<lparr>sm_flow := (sm_flow sm)\<lparr>cf_srtt := x\<rparr>\<rparr>)"
proof -
  have "srtt_ok (cf_srtt (sm_flow sm))" using inv by (simp add: streams_inv_def pools_ok_def)
  from srtt_observe_ok [OF this elapsed_le] obtain y where
    "srtt_observe (cf_srtt (sm_flow sm)) (elapsed t t') = (Ok (Some y) :: (srtt, 'e) rres)" "srtt_ok (Some y)" by blast
  then show ?thesis using op srtt_inv [OF inv] by simp
qed

lemma open_None: "open_outbound key sm now = (None, sm') \<Longrightarrow> sm' = sm"
  by (auto simp: open_outbound_def split: if_splits option.splits prod.splits)

lemma streams_step_inv:
  assumes "streams_step sm sm'" "streams_inv sm"
  shows "streams_inv sm' \<and> sm_config sm' = sm_config sm \<and> sm_role sm' = sm_role sm"
  using assms
proof (cases rule: streams_step.cases)
  case (opens key now r)
  show ?thesis
  proof (cases r)
    case None
    then show ?thesis using opens(2) assms(2) open_None by blast
  next
    case (Some dx)
    have "sm_config sm' = sm_config sm \<and> sm_role sm' = sm_role sm"
      using opens(2) by (auto simp: open_outbound_def start_stream_def Let_def split: if_splits option.splits)
    then show ?thesis using start_outbound [OF assms(2) opens(1) opens(2) [unfolded Some]] by metis
  qed
next
  case (receives d fexp h now new ws)
  then show ?thesis using receive_inv [OF assms(2) receives] by simp
next
  case (sends fexp order now r ws)
  then show ?thesis using poll_update_inv [OF assms(2) sends] by simp
next
  case (measures_rtt t t' x)
  then show ?thesis using srtt_step_inv [OF assms(2)] by simp
next
  case (app s st)
  then show ?thesis using app_inv [OF assms(2)] by simp
qed

lemma streams_reach_inv:
  assumes "streams_step\<^sup>*\<^sup>* (streams_new role config store) sm" "config_typed config"
  shows "streams_inv sm \<and> sm_config sm = config \<and> sm_role sm = role"
  using assms(1)
proof (induction rule: rtranclp_induct)
  case base
  then show ?case using streams_new_inv [OF assms(2)] by (simp add: streams_new_def)
next
  case (step sm1 sm2)
  then show ?case using streams_step_inv by simp
qed

subsection \<open>The properties\<close>

definition demo_config :: rammux_config where
  "demo_config = config_new\<lparr>max_inbound_streams := 1, max_outbound_streams := 1\<rparr>"

definition demo_streams :: streams where
  "demo_streams = streams_new Server demo_config (\<lambda>_. stream_new demo_config 0)"

definition demo_syn :: stream_header where
  "demo_syn = \<lparr>sh_id = StreamId 4, sh_flags = \<lparr>fin_read = False, fin_write = False, syn = True\<rparr>, sh_credit = None, sh_data_len = None\<rparr>"

lemma demo_typed: "config_typed demo_config"
  by (simp add: demo_config_def config_new_def config_typed_def)

text \<open>
  C35. What becomes of the stream part of a frame of the peer. It never panics. It is refused, with the
  error of the code and without any change, exactly for the reasons above. Otherwise it
  reaches the stream of its ID, which is a new one exactly when the frame carries \<^verbatim>\<open>SYN\<close>: the state of the stream, the
  shared state and the wake-ups are what the handle of the stream makes of the frame, and when the
  handle refuses it the error is reported for that ID. When it is accepted, the invariant holds
  again, no other stream changed, and the stream is forgotten, so that its ID can be used again,
  exactly when it is closed on both sides now.
\<close>

theorem receive_outcome:
  assumes "streams_inv sm" and "length d \<le> u32_max" and "receive fexp h d sm now = (r, sm', ws)"
  shows "r \<noteq> Panic \<and> (case refusal sm h of
      Some m \<Rightarrow> r = violation (sh_id h) m \<and> sm' = sm
    | None \<Rightarrow> (\<exists>s. s = (if syn (sh_flags h) then sm_fresh sm else the (handle_of sm (sh_id h)))
        \<and> (\<forall>x. x \<noteq> s \<longrightarrow> sm_store sm' x = sm_store sm x)
        \<and> (case r of
             Ok new \<Rightarrow> new = (if syn (sh_flags h) then Some (duplex_new (sh_id h), s) else None) \<and> streams_inv sm'
               \<and> (\<exists>fin. handle_received fexp (sh_credit h) d (sh_flags h)
                 (if syn (sh_flags h) then stream_new (sm_config sm) now else sm_store sm s) (sm_flow sm) s now
                   = Ok (fin, sm_store sm' s, sm_flow sm', ws))
               \<and> handle_of sm' (sh_id h) = (if is_dead (stream_fin_state (sm_store sm' s)) then None else Some s)
           | Err e \<Rightarrow> (\<exists>m. e = Stream (sh_id h) m \<and> handle_received fexp (sh_credit h) d (sh_flags h)
                 (if syn (sh_flags h) then stream_new (sm_config sm) now else sm_store sm s) (sm_flow sm) s now = Err m)
           | Panic \<Rightarrow> False)))"
  using assms(1)
proof (cases rule: receive_cases [where fexp = fexp and h = h and d = d and now = now])
  case (refused m)
  then show ?thesis using assms(3) by (simp add: violation_def)
next
  case (known s)
  have op: "hand_over fexp h d s None sm now = (r, sm', ws)" using known(3) assms(3) by simp
  note o = hand_over_inv [OF assms(1) known(1) assms(2) op]
  have "\<exists>fin. handle_received fexp (sh_credit h) d (sh_flags h) (sm_store sm s) (sm_flow sm) s now = Ok (fin, sm_store sm' s, sm_flow sm', ws)"
    if "r = Ok x" for x using hand_over_Ok [OF op [unfolded that]] .
  then show ?thesis using known(1,2,4) o by (cases r) auto
next
  case (started sm1)
  let ?new = "Some (duplex_new (sh_id h), sm_fresh sm)"
  have op: "hand_over fexp h d (sm_fresh sm) ?new sm1 now = (r, sm', ws)" using started(12) assms(3) by simp
  note o = hand_over_inv [OF started(4,5) assms(2) op]
  have "sm_store sm' x = sm_store sm x" if "x \<noteq> sm_fresh sm" for x using o(4) started(9) that by simp
  moreover have "\<exists>fin. handle_received fexp (sh_credit h) d (sh_flags h) (stream_new (sm_config sm) now) (sm_flow sm) (sm_fresh sm) now
      = Ok (fin, sm_store sm' (sm_fresh sm), sm_flow sm', ws)" if "r = Ok x" for x
    using hand_over_Ok [OF op [unfolded that]] started(10,11) by simp
  ultimately show ?thesis using started(1,2,5-11,13) o by (cases r) auto
qed

theorem receive_outcome_witness:
  "fst (receive (\<lambda>_. 1) demo_syn [] demo_streams 0) = Ok (Some (duplex_new (StreamId 4), 0))
   \<and> streams_inv (fst (snd (receive (\<lambda>_. 1) demo_syn [] demo_streams 0)))"
proof -
  obtain r sm' ws where run: "receive (\<lambda>_. 1) demo_syn [] demo_streams 0 = (r, sm', ws)" by (metis prod_cases3)
  have inv: "streams_inv demo_streams" using streams_new_inv [OF demo_typed] by (simp add: demo_streams_def)
  have ref: "refusal demo_streams demo_syn = None"
    by (simp add: refusal_def demo_syn_def demo_streams_def streams_new_def handle_of_def inbound_count_def initiated_by_def
        demo_config_def)
  have ok: "handle_received (\<lambda>_. 1) None [] \<lparr>fin_read = False, fin_write = False, syn = True\<rparr> st flow 0 0 \<noteq> Err m" for st flow m
    by (simp add: handle_received_def handle_credit_def handle_data_def in_received_data_def handle_fin_write_def handle_fin_read_def)
  have len: "length ([] :: u8 list) \<le> u32_max" by simp
  have f: "sh_id demo_syn = StreamId 4" "sh_flags demo_syn = \<lparr>fin_read = False, fin_write = False, syn = True\<rparr>"
    "sh_credit demo_syn = None" "sm_fresh demo_streams = 0"
    by (simp_all add: demo_syn_def demo_streams_def streams_new_def)
  from receive_outcome [OF inv len run] ref ok show ?thesis unfolding run by (cases r) (auto simp: f)
qed

text \<open>
  C36. Opening a stream fails exactly when the configured limit is reached or the slab proposes an index
  that has no ID; then nothing changes. Otherwise the new stream gets an ID of our role that no open
  stream has, is known under it, the invariant holds again, and its first update will carry \<^verbatim>\<open>SYN\<close>. If
  no more streams than the limit were ever open at once, so that the indices are below it, a valid
  configuration never runs out of IDs.
\<close>

theorem open_outbound_outcome:
  assumes "streams_inv sm" and "key \<notin> fst ` set (sm_outbound sm)" and "open_outbound key sm now = (r, sm')"
  shows "(r = None \<longleftrightarrow> unat (max_outbound_streams (sm_config sm)) \<le> outbound_count sm \<or> from_slab_idx key (sm_role sm) = None)
    \<and> (r = None \<longrightarrow> sm' = sm)
    \<and> (\<forall>dx s. r = Some (dx, s) \<longrightarrow> (\<exists>i. dx = duplex_new i \<and> initiated_by i = sm_role sm \<and> handle_of sm i = None
        \<and> handle_of sm' = (handle_of sm)(i \<mapsto> s) \<and> streams_inv sm'
        \<and> map_of (sm_updates sm') s = Some \<lparr>up_id = i, up_syn = True\<rparr>))
    \<and> (config_validate (sm_config sm) = Ok () \<and> key < unat (max_outbound_streams (sm_config sm))
        \<longrightarrow> from_slab_idx key (sm_role sm) \<noteq> None)"
proof -
  have none: "r = None \<longleftrightarrow> unat (max_outbound_streams (sm_config sm)) \<le> outbound_count sm \<or> from_slab_idx key (sm_role sm) = None"
    using assms(3) by (auto simp: open_outbound_def Let_def split: option.splits if_splits prod.splits)
  have "\<exists>i. dx = duplex_new i \<and> initiated_by i = sm_role sm \<and> handle_of sm i = None
        \<and> handle_of sm' = (handle_of sm)(i \<mapsto> s) \<and> streams_inv sm' \<and> map_of (sm_updates sm') s = Some \<lparr>up_id = i, up_syn = True\<rparr>"
    if "r = Some (dx, s)" for dx s
    using start_outbound [OF assms(1,2) assms(3) [unfolded that]] from_slab_idx_Some(2) by (metis prod.inject)
  moreover have "from_slab_idx key (sm_role sm) \<noteq> None"
    if "config_validate (sm_config sm) = Ok ()" "key < unat (max_outbound_streams (sm_config sm))"
  proof -
    have "max_outbound_streams (sm_config sm) \<le> max_streams_per_side"
      using that(1) by (auto simp: config_validate_def split: if_splits)
    then have "unat (max_outbound_streams (sm_config sm)) \<le> 32768"
      using unat_max_streams_per_side by (simp add: word_le_nat_alt)
    then show ?thesis using that(2) by (simp add: from_slab_idx_eq)
  qed
  ultimately show ?thesis using none assms(3) open_None by blast
qed

theorem open_outbound_outcome_witness:
  "fst (open_outbound 3 demo_streams 0) = Some (duplex_new (StreamId 7), 0) \<and> streams_inv (snd (open_outbound 3 demo_streams 0))"
proof -
  have inv: "streams_inv demo_streams" using streams_new_inv [OF demo_typed] by (simp add: demo_streams_def)
  have key: "3 \<notin> fst ` set (sm_outbound demo_streams)" by (simp add: demo_streams_def streams_new_def)
  obtain r sm' where run: "open_outbound 3 demo_streams 0 = (r, sm')" by fastforce
  then have "r = Some (duplex_new (StreamId 7), 0)"
    by (simp add: open_outbound_def demo_streams_def streams_new_def outbound_count_def demo_config_def start_stream_def
        from_slab_idx_eq Let_def)
  then show ?thesis using open_outbound_outcome [OF inv key run] run by auto
qed

lemma abort_all_store:
  "distinct ss \<Longrightarrow> fst (abort_all ss store) = (\<lambda>s. if s \<in> set ss then fst (handle_abort (store s) s) else store s)"
  by (induction ss arbitrary: store) (auto simp: split_beta Let_def fun_eq_iff)

text \<open>
  C37. When the streams of a connection are dropped, because the connection failed, was downgraded or was
  dropped itself, every open stream is aborted, each exactly once, and the other streams do not
  change. The application then reads what had arrived in each of them and after that the end of the
  stream, never waiting, and writing fails.
\<close>

theorem streams_drop_aborts:
  assumes "tables_ok sm" and "store_ok sm" and "streams_drop sm = (store', ws)"
  shows "(\<forall>s. s \<notin> set (handles sm) \<longrightarrow> store' s = sm_store sm s)
    \<and> (\<forall>s \<in> set (handles sm).
        read_times (length (in_queued (st_in (sm_store sm s))) + k) (st_in (store' s)) w s
          = map (\<lambda>d. Ready (Some d)) (in_queued (st_in (sm_store sm s))) @ replicate k (Ready None)
        \<and> fst (poll_write_ready (st_out (store' s)) w) = Ready (Err BrokenPipe)
        \<and> fst (out_write (st_out (store' s)) d s) = Err BrokenPipe \<and> fst (poll_flushed (st_out (store' s)) w) = Ready ())"
proof -
  have d: "distinct (handles sm)" "\<And>s. s \<in> set (handles sm) \<Longrightarrow> stream_inv (sm_store sm s)"
    using assms(1,2) by (auto simp: tables_ok_def store_ok_def)
  have store': "store' = (\<lambda>s. if s \<in> set (handles sm) then fst (handle_abort (sm_store sm s) s) else sm_store sm s)"
    using abort_all_store [OF d(1), of "sm_store sm"] assms(3) by (simp add: streams_drop_def)
  show ?thesis using aborted_drains [OF d(2), of _ k _ w d] by (simp add: store')
qed

theorem streams_drop_aborts_witness:
  "let sm = snd (open_outbound 3 demo_streams 0)
   in handles sm = [0] \<and> fst (poll_write_ready (st_out (fst (streams_drop sm) 0)) 5) = Ready (Err BrokenPipe)"
proof -
  let ?sm = "snd (open_outbound 3 demo_streams 0)"
  have inv: "streams_inv demo_streams" using streams_new_inv [OF demo_typed] by (simp add: demo_streams_def)
  have step: "streams_step demo_streams ?sm"
    by (rule streams_step.opens [of 3 _ 0 "fst (open_outbound 3 demo_streams 0)"]) (simp_all add: demo_streams_def streams_new_def)
  have t: "tables_ok ?sm" "store_ok ?sm" using streams_step_inv [OF step inv] by (simp_all add: streams_inv_def)
  have h: "handles ?sm = [0]"
    by (simp add: open_outbound_def demo_streams_def streams_new_def outbound_count_def demo_config_def start_stream_def
        from_slab_idx_eq Let_def handles_def)
  obtain store' ws where drop: "streams_drop ?sm = (store', ws)" by fastforce
  from streams_drop_aborts [OF t drop, of 0 5] h drop show ?thesis by simp
qed

end
