(* ===== verification/Active.thy ===== *)
theory Active
  imports Codec Streams
begin

text \<open>
  A running connection (\<^verbatim>\<open>src/connection/active.rs\<close>): reading and processing a frame, and the loop that
  composes and writes frames. The order in which the selector polls the streams for the update of
  each frame is an argument, so the loop has one order for each of its rounds; \<open>None\<close> means that the
  orders were used up before the loop ended. Theorem \<open>poll_send_ends\<close> gives a number of rounds that
  always suffices.

  The invariant \<open>active_inv\<close> relates the state to the frames that were read and written so far: the
  bytes on the transport are always the encodings of these frames.
\<close>

section \<open>Definitions\<close>

record 'io active =
  ac_codec :: "'io codec"
  ac_streams :: streams
  ac_pings :: pings

datatype received = ReceivedFrame "app_stream option" | ReceivedTerm

definition active_new :: "runtime \<Rightarrow> instant \<Rightarrow> 'io \<Rightarrow> rammux_role \<Rightarrow> rammux_config \<Rightarrow> (sref \<Rightarrow> stream_state)
    \<Rightarrow> ('io active, 'e) rres" where
  "active_new rt now io role config store =
     r_bind (codec_new rt now io (frame_limit config) (inbound_frame_timeout config)) (\<lambda>c.
       Ok \<lparr>ac_codec = c, ac_streams = streams_new role config store,
           ac_pings = pings_new now (ping_interval config) (ping_bytes config)\<rparr>)"

definition active_open_outbound :: "nat \<Rightarrow> 'io active \<Rightarrow> instant \<Rightarrow> app_stream option \<times> 'io active" where
  "active_open_outbound vacant_key a now =
     (let (r, sm) = open_outbound vacant_key (ac_streams a) now in (r, a\<lparr>ac_streams := sm\<rparr>))"

definition into_codec :: "'io active \<Rightarrow> 'io codec \<times> (sref \<Rightarrow> stream_state) \<times> wake list" where
  "into_codec a = (let (store, ws) = streams_drop (ac_streams a) in (ac_codec a, store, ws))"

record rammux_stats =
  inbound_streams :: u32
  outbound_streams :: u32
  stats_srtt :: srtt
  pool_tx_used :: u64
  pool_rx_used :: u64
  turn_queue_len :: u32

definition count :: "nat \<Rightarrow> (u32, 'e) rres" where
  "count n = (if n \<le> u32_max then Ok (word_of_nat n) else Panic)"

definition active_stats :: "'io active \<Rightarrow> (rammux_stats, 'e) rres" where
  "active_stats a =
     (let sm = ac_streams a; flow = sm_flow sm in
      r_bind (count (inbound_count sm)) (\<lambda>i.
      r_bind (count (outbound_count sm)) (\<lambda>out.
      r_bind (count (turns_len (turns flow))) (\<lambda>q.
      Ok \<lparr>inbound_streams = i, outbound_streams = out, stats_srtt = cf_srtt flow,
          pool_tx_used = p_used (tx_pool flow), pool_rx_used = p_used (rx_pool flow), turn_queue_len = q\<rparr>))))"

text \<open>The connection part of a frame: a \<^verbatim>\<open>PONG\<close> gives a sample of the round trip time, a \<^verbatim>\<open>PING\<close> is answered.\<close>

definition receive_pong :: "'io codec \<Rightarrow> inbound_frame \<Rightarrow> streams \<Rightarrow> (streams, error_kind) rres" where
  "receive_pong c f sm = (case h_pong (if_header f) of
      None \<Rightarrow> Ok sm
    | Some pong \<Rightarrow>
        let now = clock_micros (cd_clock c) (if_header_at f); rtt = elapsed now (t_echo pong)
        in r_bind (srtt_observe (cf_srtt (sm_flow sm)) rtt) (\<lambda>s. Ok (sm\<lparr>sm_flow := (sm_flow sm)\<lparr>cf_srtt := s\<rparr>\<rparr>)))"

definition receive_ping :: "inbound_frame \<Rightarrow> pings \<Rightarrow> pings" where
  "receive_ping f p = (case h_ping (if_header f) of None \<Rightarrow> p | Some t_ping \<Rightarrow> received_ping p t_ping)"

definition receive_frame :: "(f64 \<Rightarrow> f64) \<Rightarrow> instant \<Rightarrow> inbound_frame \<Rightarrow> 'io active
    \<Rightarrow> (received, error_kind) rres \<times> 'io active \<times> wake list" where
  "receive_frame fexp now f a =
     (case receive_pong (ac_codec a) f (ac_streams a) of
        Err e \<Rightarrow> (Err e, a, [])
      | Panic \<Rightarrow> (Panic, a, [])
      | Ok sm \<Rightarrow>
          let a = a\<lparr>ac_streams := sm, ac_pings := receive_ping f (ac_pings a)\<rparr>
          in case h_stream (if_header f) of
               None \<Rightarrow> (Ok (ReceivedFrame None), a, [])
             | Some part \<Rightarrow>
                 let (r, sm, ws) = receive fexp part (if_data f) sm now
                 in (r_bind r (\<lambda>new. Ok (ReceivedFrame new)), a\<lparr>ac_streams := sm\<rparr>, ws))"

definition poll_receive :: "runtime \<Rightarrow> 'io transport \<Rightarrow> (f64 \<Rightarrow> f64) \<Rightarrow> instant \<Rightarrow> 'io active
    \<Rightarrow> (received, error_kind) rres poll \<times> 'io active \<times> wake list" where
  "poll_receive rt tr fexp now a =
     (let (r, c) = codec_poll_next rt tr now (ac_codec a); a = a\<lparr>ac_codec := c\<rparr>
      in case r of
           Pending \<Rightarrow> (Pending, a, [])
         | Ready None \<Rightarrow> (Ready (Err (Io UnexpectedEof)), a, [])
         | Ready (Some (Err e)) \<Rightarrow> (Ready (Err e), a, [])
         | Ready (Some Panic) \<Rightarrow> (Ready Panic, a, [])
         | Ready (Some (Ok Terminate)) \<Rightarrow> (Ready (Ok ReceivedTerm), a, [])
         | Ready (Some (Ok (Frame f))) \<Rightarrow> (let (r, a, ws) = receive_frame fexp now f a in (Ready r, a, ws)))"

definition out_stream_of :: "stream_update \<Rightarrow> out_stream" where
  "out_stream_of u = \<lparr>os_id = su_id u, os_flags = su_flags u, os_credit = su_credit u, os_data = su_data u\<rparr>"

text \<open>Composing the next frame.\<close>

definition compose :: "pong option \<Rightarrow> bool \<Rightarrow> stream_update option \<Rightarrow> out_frame" where
  "compose pong ping update = \<lparr>of_ping = ping, of_pong = pong, of_stream = map_option out_stream_of update, of_term = False\<rparr>"

type_synonym 'io send_result = "(unit, error_kind) rres poll \<times> 'io active \<times> wake list"

fun poll_send :: "runtime \<Rightarrow> 'io transport \<Rightarrow> (f64 \<Rightarrow> f64) \<Rightarrow> instant \<Rightarrow> sref list list \<Rightarrow> 'io active
    \<Rightarrow> 'io send_result option" where
  "poll_send rt tr fexp now [] a = None"
| "poll_send rt tr fexp now (order # orders) a =
     (case codec_poll_ready tr now (ac_codec a) of
        (Ready (Ok _), c) \<Rightarrow>
          (case take_frame_part (rt_fires rt) (rt_limit rt) (ac_pings a) now of
             Err e \<Rightarrow> Some (Ready (Err e), a\<lparr>ac_codec := c\<rparr>, [])
           | Panic \<Rightarrow> Some (Ready Panic, a\<lparr>ac_codec := c\<rparr>, [])
           | Ok (pong, ping, p) \<Rightarrow>
               let (r, sm, ws) = poll_update fexp order (ac_streams a) now;
                   a = a\<lparr>ac_codec := c, ac_pings := p, ac_streams := sm\<rparr>
               in case r of
                    Ready (Err e) \<Rightarrow> Some (Ready (Err e), a, ws)
                  | Ready Panic \<Rightarrow> Some (Ready Panic, a, ws)
                  | _ \<Rightarrow>
                      let frame = compose pong ping (case r of Ready (Ok u) \<Rightarrow> Some u | _ \<Rightarrow> None)
                      in if frame_is_empty frame then
                           (case codec_poll_flush tr now c of
                              (Ready (Err e), c) \<Rightarrow> Some (Ready (Err e), a\<lparr>ac_codec := c\<rparr>, ws)
                            | (Ready Panic, c) \<Rightarrow> Some (Ready Panic, a\<lparr>ac_codec := c\<rparr>, ws)
                            | (_, c) \<Rightarrow> Some (Pending, a\<lparr>ac_codec := c\<rparr>, ws))
                         else
                           let a = a\<lparr>ac_pings := data_sent p (frame_data_len frame)\<rparr>
                           in case codec_start_send c frame of
                                Err e \<Rightarrow> Some (Ready (Err e), a, ws)
                              | Panic \<Rightarrow> Some (Ready Panic, a, ws)
                              | Ok c \<Rightarrow> map_option (\<lambda>(r, a, ws'). (r, a, ws @ ws')) (poll_send rt tr fexp now orders (a\<lparr>ac_codec := c\<rparr>)))
      | (r, c) \<Rightarrow> Some (r, a\<lparr>ac_codec := c\<rparr>, []))"

declare poll_send.simps(2) [simp del]

section \<open>Specification\<close>

text \<open>
  The frames \<open>ds\<close> were decoded so far, and the frames \<open>fs\<close> were handed to the codec: what was read is
  the encodings of \<open>ds\<close> and a part of a frame, and what was written and is still owed is the encodings
  of \<open>fs\<close> with some timestamps.
\<close>

definition codec_in :: "('io \<Rightarrow> u8 list) \<Rightarrow> 'io codec \<Rightarrow> decoded_frame list \<Rightarrow> bool" where
  "codec_in taken c ds \<longleftrightarrow> (\<forall>d \<in> set ds. df_valid (cd_frame_limit c) d)
     \<and> (\<exists>used. taken (cd_io c) = concat (map df_bytes ds) @ used \<and> dec_rep (cd_frame_limit c) (cd_decoder c) used)"

definition codec_out :: "('io \<Rightarrow> u8 list) \<Rightarrow> 'io codec \<Rightarrow> out_frame list \<Rightarrow> bool" where
  "codec_out written c fs \<longleftrightarrow> (\<exists>ts. length ts = length fs
     \<and> written (cd_io c) @ owed (cd_pending c) = concat (map encoding (zip ts fs))
     \<and> (\<forall>it. cd_pending c = Some it \<longrightarrow> item_ok it \<and> (is_started it \<or> (\<exists>fs' f. fs = fs' @ [f]
          \<and> ei_header it = with_ping (last ts) (frame_header f) \<and> ei_payload it = frame_payload f))))"

definition frames_ok :: "rammux_config \<Rightarrow> out_frame list \<Rightarrow> bool" where
  "frames_ok config fs \<longleftrightarrow> (\<forall>f \<in> set fs. frame_ok f \<and> \<not> of_term f \<and> frame_data_len f \<le> unat (frame_limit config))"

definition active_inv :: "('io \<Rightarrow> u8 list) \<Rightarrow> ('io \<Rightarrow> u8 list) \<Rightarrow> 'io active \<Rightarrow> decoded_frame list \<Rightarrow> out_frame list \<Rightarrow> bool" where
  "active_inv taken written a ds fs \<longleftrightarrow> streams_inv (ac_streams a)
     \<and> cd_frame_limit (ac_codec a) = frame_limit (sm_config (ac_streams a))
     \<and> codec_in taken (ac_codec a) ds \<and> codec_out written (ac_codec a) fs \<and> frames_ok (sm_config (ac_streams a)) fs"

section \<open>Lemmas\<close>

subsection \<open>Frames that are written\<close>

lemma write_started:
  "poll_write_pending wr t pending io = (r, Some it', io') \<Longrightarrow> pending = Some it \<Longrightarrow> is_started it \<Longrightarrow> is_started it'"
proof (induction wr t pending io arbitrary: it rule: poll_write_pending.induct)
  case (1 wr t pending io)
  have re: "restamp it t = Ok it" using 1(4) by (rule restamp_started)
  obtain p io1 where call: "wr io (slices it) = (p, io1)" by fastforce
  show ?case
  proof (cases "\<exists>n. p = Ready (Ok n) \<and> n \<noteq> 0 \<and> n \<le> remaining it \<and> remaining it \<noteq> 0")
    case True
    then obtain n where n: "p = Ready (Ok n)" "n \<noteq> 0" "n \<le> remaining it" "remaining it \<noteq> 0" by blast
    let ?it = "it\<lparr>ei_consumed := ei_consumed it + n\<rparr>"
    have go: "advance it n = (Ok ?it :: (encoder_item, error_kind) rres)" using n(3) by (simp add: advance_Ok)
    have "poll_write_pending wr t (Some ?it) io1 = (r, Some it', io')"
      using 1(2,3) n re call go by (subst (asm) poll_write_pending.simps) simp
    then show ?thesis using 1(1) [OF 1(3) n(4) re call [symmetric] n(1) refl n(2) go _ refl] n(2) by (simp add: is_started_def)
  next
    case False
    then show ?thesis using 1(2-4) re call
      by (subst (asm) poll_write_pending.simps) (auto simp: advance_def r_assert_def split: poll.splits rres.splits if_splits)
  qed
qed

lemma write_unstarted:
  assumes "poll_write_pending wr t pending io = (r, Some it', io')" "\<not> is_started it'" "\<forall>it. pending = Some it \<longrightarrow> item_ok it"
  shows "\<exists>it. pending = Some it \<and> restamp it t = Ok it'"
proof -
  obtain it where it: "pending = Some it" using assms(1) by (subst (asm) poll_write_pending.simps) (auto split: option.splits)
  show ?thesis
  proof (cases "restamp it t")
    case (Ok it1)
    obtain p io1 where call: "wr io (slices it1) = (p, io1)" by fastforce
    have "it' = it1 \<or> (\<exists>n it2. n \<noteq> 0 \<and> advance it1 n = (Ok it2 :: (encoder_item, error_kind) rres) \<and> poll_write_pending wr t (Some it2) io1 = (r, Some it', io'))"
      using assms(1) it Ok call by (subst (asm) poll_write_pending.simps) (auto split: poll.splits rres.splits if_splits)
    then show ?thesis
    proof
      assume "\<exists>n it2. n \<noteq> 0 \<and> advance it1 n = (Ok it2 :: (encoder_item, error_kind) rres) \<and> poll_write_pending wr t (Some it2) io1 = (r, Some it', io')"
      then obtain n it2 where n: "n \<noteq> 0" "advance it1 n = (Ok it2 :: (encoder_item, error_kind) rres)" "poll_write_pending wr t (Some it2) io1 = (r, Some it', io')" by blast
      then have "is_started it2" by (auto simp: advance_Ok is_started_def)
      then show ?thesis using write_started [OF n(3) refl] assms(2) by simp
    qed (use it Ok in simp)
  qed (use restamp_ok [of it t] assms(3) it in auto)
qed

lemma restamp_fields:
  assumes "restamp it t = Ok it'" "item_ok it" "\<not> is_started it"
  shows "ei_header it' = with_ping t (ei_header it)" "ei_payload it' = ei_payload it"
proof -
  have "ei_header it' = with_ping t (ei_header it) \<and> ei_payload it' = ei_payload it"
  proof (cases "has_ping it")
    case True
    then show ?thesis using assms stamp_ok [OF assms(2,3), of t] by (auto simp: restamp_def)
  next
    case False
    then show ?thesis using assms by (simp add: restamp_def has_ping_def with_ping_def)
  qed
  then show "ei_header it' = with_ping t (ei_header it)" "ei_payload it' = ei_payload it" by simp_all
qed

lemma with_ping_twice [simp]: "with_ping t (with_ping t' h) = with_ping t h"
  by (simp add: with_ping_def)

lemma owed_unstarted: "\<not> is_started it \<Longrightarrow> owed (Some it) = header_bytes (ei_header it) @ ei_payload it"
  by (simp add: owed_def is_started_def item_bytes_def)

lemma finish_pending:
  assumes "sink_finish wr io_op t pending io = (r, pending', io')"
  shows "\<exists>r1 io1. poll_write_pending wr t pending io = (r1, pending', io1)"
  using assms by (auto simp: sink_finish_def split: prod.splits poll.splits rres.splits)

lemma codec_op_pending:
  assumes "codec_poll_ready tr now c = (r, c') \<or> codec_poll_flush tr now c = (r, c') \<or> codec_poll_close tr now c = (r, c')"
  shows "\<exists>r1 io1. poll_write_pending (t_write tr) (clock_micros (cd_clock c) now) (cd_pending c) (cd_io c) = (r1, cd_pending c', io1)"
proof -
  let ?t = "clock_micros (cd_clock c) now"
  have fin: "\<exists>r1 io1. poll_write_pending (t_write tr) ?t (cd_pending c) (cd_io c) = (r1, cd_pending c', io1)"
    if "(let (r, pending, io) = sink_finish (t_write tr) op ?t (cd_pending c) (cd_io c) in (r, c\<lparr>cd_pending := pending, cd_io := io\<rparr>)) = (r, c')" for op
  proof -
    obtain r1 p1 io1 where f: "sink_finish (t_write tr) op ?t (cd_pending c) (cd_io c) = (r1, p1, io1)" by (metis prod_cases3)
    then have "cd_pending c' = p1" using that by auto
    then show ?thesis using finish_pending [OF f] by simp
  qed
  obtain r1 p1 io1 where w: "poll_write_pending (t_write tr) ?t (cd_pending c) (cd_io c) = (r1, p1, io1)" by (metis prod_cases3)
  from assms show ?thesis
  proof (elim disjE)
    assume "codec_poll_ready tr now c = (r, c')"
    then show ?thesis using w by (auto simp: codec_poll_ready_def)
  qed (use fin in \<open>simp_all only: codec_poll_flush_def codec_poll_close_def\<close>)
qed

text \<open>Writing keeps the frames that were handed over; an unstarted frame gets a new timestamp.\<close>

lemma codec_out_writes:
  assumes tr: "transport_ok tr taken written" and out: "codec_out written c fs" and ok: "codec_ok c"
    and op: "codec_poll_ready tr now c = (r, c') \<or> codec_poll_flush tr now c = (r, c') \<or> codec_poll_close tr now c = (r, c')"
  shows "codec_out written c' fs"
proof -
  let ?t = "clock_micros (cd_clock c) now"
  note w = codec_writes [OF tr ok op]
  obtain r1 io1 where run: "poll_write_pending (t_write tr) ?t (cd_pending c) (cd_io c) = (r1, cd_pending c', io1)"
    using codec_op_pending [OF op] by blast
  obtain ts where ts: "length ts = length fs" "written (cd_io c) @ owed (cd_pending c) = concat (map encoding (zip ts fs))"
    "\<forall>it. cd_pending c = Some it \<longrightarrow> item_ok it \<and> (is_started it \<or> (\<exists>fs' f. fs = fs' @ [f]
          \<and> ei_header it = with_ping (last ts) (frame_header f) \<and> ei_payload it = frame_payload f))"
    using out unfolding codec_out_def by blast
  have oks: "\<forall>it. cd_pending c' = Some it \<longrightarrow> item_ok it" "\<forall>it. cd_pending c = Some it \<longrightarrow> item_ok it"
    using w(1) ts(3) by (auto simp: codec_ok_def)
  show ?thesis
  proof (cases "\<exists>it. cd_pending c = Some it \<and> \<not> is_started it")
    case True
    then obtain it fs' f where it: "cd_pending c = Some it" "\<not> is_started it" "item_ok it" "fs = fs' @ [f]"
      "ei_header it = with_ping (last ts) (frame_header f)" "ei_payload it = frame_payload f" using ts(3) by auto
    obtain ts' t' where t': "ts = ts' @ [t']" "length ts' = length fs'" using ts(1) it(4) by (cases ts rule: rev_cases) auto
    have "owed (cd_pending c) = encoding (t', f)" using it t' by (simp add: owed_unstarted encoding_def)
    then have "written (cd_io c) = concat (map encoding (zip ts' fs'))" using ts(2) it(4) t' by simp
    moreover have "owed_at ?t (cd_pending c) = encoding (?t, f)" using it by (simp add: owed_at_def encoding_def)
    ultimately have "written (cd_io c') @ owed (cd_pending c') = concat (map encoding (zip (ts' @ [?t]) fs))"
      using w(5) it(4) t'(2) by (simp add: handed_over_def)
    moreover have "ei_header it' = with_ping ?t (frame_header f) \<and> ei_payload it' = frame_payload f"
      if "cd_pending c' = Some it'" "\<not> is_started it'" for it'
      using write_unstarted [OF run [unfolded that(1)] that(2) oks(2)] it restamp_fields [OF _ it(3,2)] by auto
    ultimately show ?thesis unfolding codec_out_def using oks(1) ts(1) t' it(4)
      by (intro exI [of _ "ts' @ [?t]"]) auto
  next
    case False
    then have at: "owed_at ?t (cd_pending c) = owed (cd_pending c)"
      by (cases "cd_pending c") (auto simp: owed_at_def owed_def)
    have "is_started it'" if it': "cd_pending c' = Some it'" for it'
    proof (rule ccontr)
      assume new: "\<not> is_started it'"
      then obtain it where it: "cd_pending c = Some it" using write_unstarted [OF run [unfolded it'] new oks(2)] by blast
      then have "is_started it" using False by simp
      then show False using write_started [OF run [unfolded it'] it] new by simp
    qed
    then show ?thesis unfolding codec_out_def using ts(1,2) w(5) at oks(1) by (intro exI [of _ ts]) (auto simp: handed_over_def)
  qed
qed

lemma codec_out_start:
  assumes out: "codec_out written c fs" and f: "frame_ok f" and idle: "cd_pending c = None"
    and op: "codec_start_send c f = Ok c'"
  shows "codec_out written c' (fs @ [f])"
proof -
  from codec_start_send_ok [OF f idle] obtain it where it: "codec_start_send c f = Ok (c\<lparr>cd_pending := Some it\<rparr>)" "item_ok it"
    "\<not> is_started it" "ei_header it = frame_header f" "ei_payload it = frame_payload f" .
  then have c': "c' = c\<lparr>cd_pending := Some it\<rparr>" using op by simp
  obtain ts where ts: "length ts = length fs" "written (cd_io c) @ owed None = concat (map encoding (zip ts fs))"
    using out idle unfolding codec_out_def by auto
  have zero: "with_ping 0 (frame_header f) = frame_header f" by (simp add: with_ping_def frame_header_def)
  have "owed (Some it) = encoding (0, f)" using it(3-5) by (simp add: owed_unstarted encoding_def zero)
  then show ?thesis unfolding codec_out_def using ts it zero
    by (intro exI [of _ "ts @ [0]"]) (auto simp: c' owed_def [of None])
qed

subsection \<open>Frames that are read\<close>

lemma codec_in_read:
  assumes tr: "transport_ok tr taken written" and inn: "codec_in taken c ds" and lim: "now + never \<le> rt_limit rt"
    and op: "codec_poll_next rt tr now c = (r, c')"
  shows "writer_same c c'" "written (cd_io c') = written (cd_io c)" "r \<noteq> Ready (Some Panic)"
    "r = Pending \<Longrightarrow> codec_in taken c' ds"
    "r = Ready (Some (Ok d)) \<Longrightarrow> codec_in taken c' (ds @ [d]) \<and> df_valid (cd_frame_limit c) d
      \<and> taken (cd_io c') = concat (map df_bytes (ds @ [d])) \<and> cd_decoder c' = decoder_default"
    "r = Ready (Some (Err e)) \<Longrightarrow> (\<exists>x. e = Io x) \<or> (\<exists>x. e = Decode x)"
proof -
  obtain used where used: "taken (cd_io c) = concat (map df_bytes ds) @ used" "dec_rep (cd_frame_limit c) (cd_decoder c) used"
    and valid: "\<forall>d \<in> set ds. df_valid (cd_frame_limit c) d" using inn by (auto simp: codec_in_def)
  obtain bs where bs: "taken (cd_io c') = concat (map df_bytes ds) @ used @ bs" "writer_same c c'" "written (cd_io c') = written (cd_io c)"
    "r \<noteq> Ready (Some Panic)" and
    out: "dec_outcome (cd_frame_limit c) (used @ bs) r (cd_decoder c') \<or> r = Ready (Some (Err (Io TimedOut)))"
    using codec_reads [OF tr used(2,1) lim op] by auto
  have lim': "cd_frame_limit c' = cd_frame_limit c" using bs(2) by (simp add: writer_same_def)
  show "writer_same c c'" "written (cd_io c') = written (cd_io c)" "r \<noteq> Ready (Some Panic)" using bs by simp_all
  show "codec_in taken c' ds" if "r = Pending"
    using out that bs(1) valid lim' by (auto simp: codec_in_def dec_outcome_def)
  show "codec_in taken c' (ds @ [d]) \<and> df_valid (cd_frame_limit c) d
      \<and> taken (cd_io c') = concat (map df_bytes (ds @ [d])) \<and> cd_decoder c' = decoder_default" if "r = Ready (Some (Ok d))"
    using out that bs(1) valid lim' dec_rep_default by (cases d) (auto simp: codec_in_def dec_outcome_def)
  show "(\<exists>x. e = Io x) \<or> (\<exists>x. e = Decode x)" if "r = Ready (Some (Err e))"
    using out that by (cases e) (auto simp: dec_outcome_def)
qed

lemma codec_out_same:
  "codec_out written c fs \<Longrightarrow> cd_pending c' = cd_pending c \<Longrightarrow> written (cd_io c') = written (cd_io c) \<Longrightarrow> codec_out written c' fs"
  by (simp add: codec_out_def)

lemma codec_in_same:
  "codec_in taken c ds \<Longrightarrow> reader_same c c' \<Longrightarrow> taken (cd_io c') = taken (cd_io c) \<Longrightarrow> codec_in taken c' ds"
  by (simp add: codec_in_def reader_same_def)

lemma codec_ok_of: "codec_in taken c ds \<Longrightarrow> codec_out written c fs \<Longrightarrow> codec_ok c"
  by (auto simp: codec_in_def codec_out_def codec_ok_def)

lemma receive_pong_ok:
  assumes "streams_inv sm"
  obtains sm' where "receive_pong c f sm = Ok sm'" "streams_inv sm'" "sm_config sm' = sm_config sm"
    "sm_store sm' = sm_store sm" "sm_role sm' = sm_role sm" "sm_fresh sm' = sm_fresh sm"
proof (cases "h_pong (if_header f)")
  case None
  then show thesis using assms by (intro that [of sm]) (simp_all add: receive_pong_def)
next
  case (Some pong)
  let ?rtt = "elapsed (clock_micros (cd_clock c) (if_header_at f)) (t_echo pong)"
  have "srtt_ok (cf_srtt (sm_flow sm))" using assms by (simp add: streams_inv_def pools_ok_def)
  then obtain x where "srtt_observe (cf_srtt (sm_flow sm)) ?rtt = (Ok (Some x) :: (srtt, error_kind) rres)" "srtt_ok (Some x)"
    using srtt_observe_ok [OF _ elapsed_le] by blast
  then show thesis using Some srtt_inv [OF assms]
    by (intro that [of "sm\<lparr>sm_flow := (sm_flow sm)\<lparr>cf_srtt := Some x\<rparr>\<rparr>"]) (simp_all add: receive_pong_def)
qed

lemma df_valid_data: "df_valid limit (Frame f) \<Longrightarrow> length (if_data f) \<le> u32_max"
  using unsigned_less [of limit, where ?'a = nat] by (simp add: frame_valid_def)

lemma receive_frame_ok:
  assumes inv: "streams_inv (ac_streams a)" and len: "length (if_data f) \<le> u32_max"
    and op: "receive_frame fexp now f a = (r, a', ws)"
  shows "r \<noteq> Panic" "r \<noteq> Ok ReceivedTerm" "r = Ok x \<Longrightarrow> streams_inv (ac_streams a')"
    "r = Err e \<Longrightarrow> store_ok (ac_streams a') \<and> tables_ok (ac_streams a') \<and> (\<exists>i m. e = Stream i m)"
    "ac_codec a' = ac_codec a" "sm_config (ac_streams a') = sm_config (ac_streams a)"
    "sm_role (ac_streams a') = sm_role (ac_streams a)"
proof -
  from receive_pong_ok [OF inv, of "ac_codec a" f] obtain sm where sm: "receive_pong (ac_codec a) f (ac_streams a) = Ok sm"
    "streams_inv sm" "sm_config sm = sm_config (ac_streams a)" "sm_store sm = sm_store (ac_streams a)" "sm_role sm = sm_role (ac_streams a)" .
  have all: "r \<noteq> Panic \<and> r \<noteq> Ok ReceivedTerm \<and> (\<forall>x. r = Ok x \<longrightarrow> streams_inv (ac_streams a'))
    \<and> (\<forall>e. r = Err e \<longrightarrow> store_ok (ac_streams a') \<and> tables_ok (ac_streams a') \<and> (\<exists>i m. e = Stream i m))
    \<and> ac_codec a' = ac_codec a \<and> sm_config (ac_streams a') = sm_config (ac_streams a)
    \<and> sm_role (ac_streams a') = sm_role (ac_streams a)"
  proof (cases "h_stream (if_header f)")
    case None
    then show ?thesis using op sm by (auto simp: receive_frame_def)
  next
    case (Some part)
    obtain r1 sm1 ws1 where rcv: "receive fexp part (if_data f) sm now = (r1, sm1, ws1)" by (metis prod_cases3)
    note ri = receive_inv [OF sm(2) len rcv]
    have "r = r_bind r1 (\<lambda>new. Ok (ReceivedFrame new))"
      "a' = a\<lparr>ac_pings := receive_ping f (ac_pings a), ac_streams := sm1\<rparr>"
      using op sm(1) Some rcv by (auto simp: receive_frame_def)
    then show ?thesis using ri sm by (cases r1) auto
  qed
  then show "r \<noteq> Panic" "r \<noteq> Ok ReceivedTerm" "r = Ok x \<Longrightarrow> streams_inv (ac_streams a')"
    "r = Err e \<Longrightarrow> store_ok (ac_streams a') \<and> tables_ok (ac_streams a') \<and> (\<exists>i m. e = Stream i m)"
    "ac_codec a' = ac_codec a" "sm_config (ac_streams a') = sm_config (ac_streams a)"
    "sm_role (ac_streams a') = sm_role (ac_streams a)" by blast+
qed

lemma poll_receive_ok:
  assumes tr: "transport_ok tr taken written" and lim: "now + never \<le> rt_limit rt" and inv: "active_inv taken written a ds fs"
    and op: "poll_receive rt tr fexp now a = (r, a', ws)"
  shows "r \<noteq> Ready Panic"
    "r = Pending \<Longrightarrow> active_inv taken written a' ds fs"
    "r = Ready (Ok (ReceivedFrame new)) \<Longrightarrow> \<exists>f. active_inv taken written a' (ds @ [Frame f]) fs"
    "r = Ready (Ok ReceivedTerm) \<Longrightarrow> active_inv taken written a' (ds @ [Terminate]) fs
      \<and> taken (cd_io (ac_codec a')) = concat (map df_bytes ds) @ term_bytes \<and> cd_decoder (ac_codec a') = decoder_default"
    "r = Ready (Err e) \<Longrightarrow> \<not> is_misuse e \<and> store_ok (ac_streams a') \<and> tables_ok (ac_streams a')"
    "sm_config (ac_streams a') = sm_config (ac_streams a)" "sm_role (ac_streams a') = sm_role (ac_streams a)"
proof -
  have i: "streams_inv (ac_streams a)" "cd_frame_limit (ac_codec a) = frame_limit (sm_config (ac_streams a))"
    "codec_in taken (ac_codec a) ds" "codec_out written (ac_codec a) fs" "frames_ok (sm_config (ac_streams a)) fs"
    using inv by (simp_all add: active_inv_def)
  obtain r1 c where poll: "codec_poll_next rt tr now (ac_codec a) = (r1, c)" by fastforce
  note p = codec_in_read [OF tr i(3) lim poll]
  have out: "codec_out written c fs" "cd_frame_limit c = frame_limit (sm_config (ac_streams a))"
    using codec_out_same [OF i(4)] p(1,2) i(2) by (simp_all add: writer_same_def)
  have st: "store_ok (ac_streams a)" "tables_ok (ac_streams a)" using i(1) by (simp_all add: streams_inv_def)
  have "r \<noteq> Ready Panic \<and> (r = Pending \<longrightarrow> active_inv taken written a' ds fs)
    \<and> (\<forall>new. r = Ready (Ok (ReceivedFrame new)) \<longrightarrow> (\<exists>f. active_inv taken written a' (ds @ [Frame f]) fs))
    \<and> (r = Ready (Ok ReceivedTerm) \<longrightarrow> active_inv taken written a' (ds @ [Terminate]) fs
      \<and> taken (cd_io (ac_codec a')) = concat (map df_bytes ds) @ term_bytes \<and> cd_decoder (ac_codec a') = decoder_default)
    \<and> (\<forall>e. r = Ready (Err e) \<longrightarrow> \<not> is_misuse e \<and> store_ok (ac_streams a') \<and> tables_ok (ac_streams a'))
    \<and> sm_config (ac_streams a') = sm_config (ac_streams a) \<and> sm_role (ac_streams a') = sm_role (ac_streams a)"
  proof (cases "\<exists>f. r1 = Ready (Some (Ok (Frame f)))")
    case True
    then obtain f where f: "r1 = Ready (Some (Ok (Frame f)))" by blast
    obtain r2 a2 ws2 where rf: "receive_frame fexp now f (a\<lparr>ac_codec := c\<rparr>) = (r2, a2, ws2)" by (metis prod_cases3)
    have "length (if_data f) \<le> u32_max" using p(5) [OF f] df_valid_data by blast
    note ro = receive_frame_ok [OF _ this rf]
    have "r = Ready r2" "a' = a2" using op poll f rf by (simp_all add: poll_receive_def)
    then show ?thesis using ro i out p(5) [OF f] by (auto simp: active_inv_def)
  next
    case False
    then consider "r1 = Pending" | "r1 = Ready None" | e where "r1 = Ready (Some (Err e))" | "r1 = Ready (Some (Ok Terminate))"
      using p(3) by (metis decoded_frame.exhaust option.exhaust poll.exhaust rres.exhaust)
    then show ?thesis
    proof cases
      case 1
      then show ?thesis using op poll i out p(4) by (auto simp: poll_receive_def active_inv_def)
    next
      case 2
      then show ?thesis using op poll st by (auto simp: poll_receive_def)
    next
      case (3 e)
      then show ?thesis using op poll st p(6) by (auto simp: poll_receive_def)
    next
      case 4
      then show ?thesis using op poll i out p(5) by (auto simp: poll_receive_def active_inv_def)
    qed
  qed
  then show "r \<noteq> Ready Panic" "r = Pending \<Longrightarrow> active_inv taken written a' ds fs"
    "r = Ready (Ok (ReceivedFrame new)) \<Longrightarrow> \<exists>f. active_inv taken written a' (ds @ [Frame f]) fs"
    "r = Ready (Ok ReceivedTerm) \<Longrightarrow> active_inv taken written a' (ds @ [Terminate]) fs
      \<and> taken (cd_io (ac_codec a')) = concat (map df_bytes ds) @ term_bytes \<and> cd_decoder (ac_codec a') = decoder_default"
    "r = Ready (Err e) \<Longrightarrow> \<not> is_misuse e \<and> store_ok (ac_streams a') \<and> tables_ok (ac_streams a')"
    "sm_config (ac_streams a') = sm_config (ac_streams a)" "sm_role (ac_streams a') = sm_role (ac_streams a)" by blast+
qed

subsection \<open>The writing loop\<close>

lemma stream_flags_nonzero:
  assumes "sh_credit s \<noteq> None \<or> sh_data_len s \<noteq> None \<or> fin_read (sh_flags s) \<or> fin_write (sh_flags s)"
  shows "stream_flags s \<noteq> 0"
  using assms by (auto simp: flags_eq_0_iff bit_stream_flags)

lemma compose_ok:
  assumes "update_ok config u" "config_typed config"
  shows "frame_ok (compose pong ping (Some u))" "frame_data_len (compose pong ping (Some u)) \<le> unat (frame_limit config)"
proof -
  have len: "length (su_data u) \<le> 65535"
    using assms(1) unsigned_less [of "frame_limit config", where ?'a = nat] by (simp add: update_ok_def)
  have "su_data u \<noteq> [] \<Longrightarrow> non_zero (word_of_nat (length (su_data u)) :: u16) \<noteq> None"
    using len non_zero_len [OF len] by (auto simp: non_zero_def split: if_splits)
  then have "stream_flags (stream_header_of (out_stream_of u)) \<noteq> 0"
    using assms(1) by (intro stream_flags_nonzero) (auto simp: update_ok_def stream_header_of_def out_stream_of_def non_zero_def)
  then show "frame_ok (compose pong ping (Some u))"
    using len by (simp add: frame_ok_def compose_def frame_is_empty_def frame_data_len_def out_stream_of_def)
  show "frame_data_len (compose pong ping (Some u)) \<le> unat (frame_limit config)"
    using assms(1) by (simp add: compose_def frame_data_len_def out_stream_of_def update_ok_def)
qed

lemma compose_none:
  "frame_is_empty (compose pong ping None) \<longleftrightarrow> \<not> ping \<and> pong = None"
  "\<not> frame_is_empty (compose pong ping None) \<Longrightarrow> frame_ok (compose pong ping None)"
  "frame_data_len (compose pong ping None) = 0" "\<not> frame_is_empty (compose pong ping (Some u))"
  by (auto simp: compose_def frame_is_empty_def frame_ok_def frame_data_len_def)

text \<open>One round of the loop: what is left to do after the transport took the pending frame.\<close>

lemma poll_send_round:
  assumes lim: "now + never \<le> rt_limit rt" and inv: "streams_inv (ac_streams a)"
    and ready: "codec_poll_ready tr now (ac_codec a) = (Ready (Ok ()), c)"
    and part: "take_frame_part (rt_fires rt) (rt_limit rt) (ac_pings a) now = (Ok (pong, ping, p) :: (_, error_kind) rres)"
    and upd: "poll_update fexp order (ac_streams a) now = (r, sm, ws)" and idle: "cd_pending c = None"
  obtains
    (flushed) q c' where "r = Pending" "\<not> ping" "pong = None" "codec_poll_flush tr now c = (q, c')"
      "poll_send rt tr fexp now (order # orders) a = Some (case q of Ready (Err e) \<Rightarrow> Ready (Err e) | Ready Panic \<Rightarrow> Ready Panic | _ \<Rightarrow> Pending,
         a\<lparr>ac_codec := c', ac_pings := p, ac_streams := sm\<rparr>, ws)"
  | (framed) f c' where "f = compose pong ping (case r of Ready (Ok u) \<Rightarrow> Some u | _ \<Rightarrow> None)" "\<not> frame_is_empty f" "frame_ok f"
      "frame_data_len f \<le> unat (frame_limit (sm_config (ac_streams a)))" "codec_start_send c f = Ok c'"
      "poll_send rt tr fexp now (order # orders) a = map_option (\<lambda>(r, a, ws'). (r, a, ws @ ws'))
        (poll_send rt tr fexp now orders (a\<lparr>ac_streams := sm, ac_pings := data_sent p (frame_data_len f), ac_codec := c'\<rparr>))"
proof -
  note ui = poll_update_inv [OF inv upd]
  have typed: "config_typed (sm_config (ac_streams a))" using inv by (simp add: streams_inv_def store_ok_def)
  define f where f: "f = compose pong ping (case r of Ready (Ok u) \<Rightarrow> Some u | _ \<Rightarrow> None)"
  have r: "r = Pending \<or> (\<exists>u. r = Ready (Ok u) \<and> update_ok (sm_config (ac_streams a)) u)" by (rule ui(2))
  show thesis
  proof (cases "frame_is_empty f")
    case True
    then have e: "r = Pending" "\<not> ping" "pong = None" using r by (auto simp: f compose_none)
    obtain q c' where q: "codec_poll_flush tr now c = (q, c')" by fastforce
    have "poll_send rt tr fexp now (order # orders) a = Some (case q of Ready (Err e) \<Rightarrow> Ready (Err e) | Ready Panic \<Rightarrow> Ready Panic | _ \<Rightarrow> Pending,
         a\<lparr>ac_codec := c', ac_pings := p, ac_streams := sm\<rparr>, ws)"
      using ready part upd e q True f by (simp add: poll_send.simps(2) split: poll.split rres.split)
    then show thesis using e q flushed by blast
  next
    case False
    have ok: "frame_ok f" "frame_data_len f \<le> unat (frame_limit (sm_config (ac_streams a)))"
      using r compose_ok [OF _ typed] False compose_none(2,3) by (auto simp: f)
    from codec_start_send_ok [OF ok(1) idle] obtain it where st: "codec_start_send c f = Ok (c\<lparr>cd_pending := Some it\<rparr>)" .
    have "poll_send rt tr fexp now (order # orders) a = map_option (\<lambda>(r, a, ws'). (r, a, ws @ ws'))
        (poll_send rt tr fexp now orders (a\<lparr>ac_streams := sm, ac_pings := data_sent p (frame_data_len f), ac_codec := c\<lparr>cd_pending := Some it\<rparr>\<rparr>))"
      using r
    proof
      assume "r = Pending"
      then show ?thesis using ready part upd False st f by (simp add: poll_send.simps(2))
    next
      assume "\<exists>u. r = Ready (Ok u) \<and> update_ok (sm_config (ac_streams a)) u"
      then show ?thesis using ready part upd False st f by (auto simp: poll_send.simps(2))
    qed
    then show thesis using framed [OF f False ok st] by blast
  qed
qed

text \<open>Writing keeps what the codec reads and owes.\<close>

lemma codec_round:
  assumes tr: "transport_ok tr taken written" and i: "codec_in taken c ds" "codec_out written c fs"
    and op: "codec_poll_ready tr now c = (q, c') \<or> codec_poll_flush tr now c = (q, c') \<or> codec_poll_close tr now c = (q, c')"
  shows "codec_in taken c' ds" "codec_out written c' fs" "cd_frame_limit c' = cd_frame_limit c"
    "q \<noteq> Ready Panic" "q = Ready (Err e) \<Longrightarrow> \<exists>x. e = Io x" "q = Ready (Ok ()) \<Longrightarrow> cd_pending c' = None"
    "taken (cd_io c') = taken (cd_io c)" "prefix (written (cd_io c)) (written (cd_io c'))"
proof -
  have ok: "codec_ok c" by (rule codec_ok_of [OF i])
  note w = codec_writes [OF tr ok op]
  show "codec_in taken c' ds" "codec_out written c' fs" "cd_frame_limit c' = cd_frame_limit c"
    using codec_in_same [OF i(1) w(2,3)] codec_out_writes [OF tr i(2) ok op] w(2) by (simp_all add: reader_same_def)
  show "q \<noteq> Ready Panic" "q = Ready (Err e) \<Longrightarrow> \<exists>x. e = Io x" "q = Ready (Ok ()) \<Longrightarrow> cd_pending c' = None"
    "taken (cd_io c') = taken (cd_io c)" "prefix (written (cd_io c)) (written (cd_io c'))"
    using w(3,4,6-8) by auto
qed

text \<open>A frame that was composed is handed to the codec.\<close>

lemma framed_inv:
  assumes tr: "transport_ok tr taken written" and inv: "active_inv taken written a ds fs"
    and ready: "codec_poll_ready tr now (ac_codec a) = (Ready (Ok ()), c)" and upd: "poll_update fexp order (ac_streams a) now = (r, sm, ws)"
    and f: "f = compose pong ping mu" "frame_ok f" "frame_data_len f \<le> unat (frame_limit (sm_config (ac_streams a)))"
    and op: "codec_start_send c f = Ok c'"
  shows "active_inv taken written (a\<lparr>ac_streams := sm, ac_pings := p, ac_codec := c'\<rparr>) ds (fs @ [f])" "cd_io c' = cd_io c"
proof -
  have i: "streams_inv (ac_streams a)" "cd_frame_limit (ac_codec a) = frame_limit (sm_config (ac_streams a))"
    "codec_in taken (ac_codec a) ds" "codec_out written (ac_codec a) fs" "frames_ok (sm_config (ac_streams a)) fs"
    using inv by (simp_all add: active_inv_def)
  note c = codec_round [OF tr i(3,4) disjI1 [OF ready]] and ui = poll_update_inv [OF i(1) upd]
  have c'': "c' = c\<lparr>cd_pending := cd_pending c'\<rparr>" using op by (auto simp: codec_start_send_def)
  have rd: "reader_same c c'" "cd_io c' = cd_io c" by (subst c''; simp add: reader_same_def)+
  have "codec_in taken c' ds" using codec_in_same [OF c(1) rd(1)] rd(2) by simp
  then show "active_inv taken written (a\<lparr>ac_streams := sm, ac_pings := p, ac_codec := c'\<rparr>) ds (fs @ [f])"
    using i c ui rd f codec_out_start [OF c(2) f(2) c(6) op]
    by (simp add: active_inv_def frames_ok_def reader_same_def compose_def)
  show "cd_io c' = cd_io c" by (rule rd(2))
qed

text \<open>
  The loop keeps what each of its rounds keeps of the streams and of the frames that were handed to the codec.
\<close>

lemma poll_send_keeps:
  assumes tr: "transport_ok tr taken written" and lim: "now + never \<le> rt_limit rt"
    and round: "\<And>order sm r sm' ws fs pong ping. streams_inv sm \<Longrightarrow> Q sm fs \<Longrightarrow> poll_update fexp order sm now = (r, sm', ws) \<Longrightarrow>
      (r = Pending \<longrightarrow> Q sm' fs) \<and> Q sm' (fs @ [compose pong ping (case r of Ready (Ok u) \<Rightarrow> Some u | _ \<Rightarrow> None)])"
    and "active_inv taken written a ds fs" "Q (ac_streams a) fs" "poll_send rt tr fexp now orders a = Some (r, a', ws)"
  shows "(\<exists>fs'. active_inv taken written a' ds (fs @ fs') \<and> Q (ac_streams a') (fs @ fs')) \<and> (r = Pending \<or> (\<exists>e. r = Ready (Err (Io e))))
    \<and> sm_config (ac_streams a') = sm_config (ac_streams a) \<and> sm_role (ac_streams a') = sm_role (ac_streams a)
    \<and> taken (cd_io (ac_codec a')) = taken (cd_io (ac_codec a)) \<and> prefix (written (cd_io (ac_codec a))) (written (cd_io (ac_codec a')))"
  using assms(4-6)
proof (induction orders arbitrary: a fs ws)
  case (Cons order orders)
  have i: "streams_inv (ac_streams a)" "cd_frame_limit (ac_codec a) = frame_limit (sm_config (ac_streams a))"
    "codec_in taken (ac_codec a) ds" "codec_out written (ac_codec a) fs" "frames_ok (sm_config (ac_streams a)) fs"
    using Cons.prems(1) by (simp_all add: active_inv_def)
  obtain q c where ready: "codec_poll_ready tr now (ac_codec a) = (q, c)" by fastforce
  note c = codec_round [OF tr i(3,4) disjI1 [OF ready]]
  show ?case
  proof (cases "q = Ready (Ok ())")
    case False
    then have "r = q" "a' = a\<lparr>ac_codec := c\<rparr>" "r = Pending \<or> (\<exists>e. r = Ready (Err (Io e)))"
      using Cons.prems(3) ready c(4,5) by (auto simp: poll_send.simps(2) split: poll.splits rres.splits)
    moreover have "active_inv taken written (a\<lparr>ac_codec := c\<rparr>) ds (fs @ [])" using i c by (simp add: active_inv_def)
    ultimately show ?thesis using Cons.prems(2) c(7,8) by fastforce
  next
    case True
    then have idle: "cd_pending c = None" and ready': "codec_poll_ready tr now (ac_codec a) = (Ready (Ok ()), c)"
      using c(6) ready by simp_all
    obtain pong ping p where part: "take_frame_part (rt_fires rt) (rt_limit rt) (ac_pings a) now = (Ok (pong, ping, p) :: (_, error_kind) rres)"
      using take_frame_part_eq [OF lim, of "rt_fires rt" "ac_pings a"] by (auto simp: Let_def)
    obtain u sm ws1 where upd: "poll_update fexp order (ac_streams a) now = (u, sm, ws1)" by (metis prod_cases3)
    note ui = poll_update_inv [OF i(1) upd] and Q = round [OF i(1) Cons.prems(2) upd]
    from lim i(1) ready' part upd idle show ?thesis
    proof (cases rule: poll_send_round [where orders = orders])
      case (flushed q' c')
      note c' = codec_round [OF tr c(1,2) disjI2 [OF disjI1 [OF flushed(4)]]]
      have "r = Pending \<or> (\<exists>e. r = Ready (Err (Io e)))" "a' = a\<lparr>ac_codec := c', ac_pings := p, ac_streams := sm\<rparr>"
        using Cons.prems(3) flushed(5) c'(4,5) by (auto split: poll.splits rres.splits)
      moreover have "active_inv taken written (a\<lparr>ac_codec := c', ac_pings := p, ac_streams := sm\<rparr>) ds (fs @ [])" "Q sm (fs @ [])"
        using i c c' ui Q flushed(1) by (simp_all add: active_inv_def)
      ultimately show ?thesis using ui(3,4) c(7,8) c'(7,8) prefix_order.trans by fastforce
    next
      case (framed f c')
      let ?a = "a\<lparr>ac_streams := sm, ac_pings := data_sent p (frame_data_len f), ac_codec := c'\<rparr>"
      obtain ws2 where rest: "poll_send rt tr fexp now orders ?a = Some (r, a', ws2)" using Cons.prems(3) framed(6) by (auto simp del: poll_send.simps)
      note fi = framed_inv [OF tr Cons.prems(1) ready' upd framed(1,3,4,5)]
      have "Q (ac_streams ?a) (fs @ [f])" using Q framed(1) by simp
      from Cons.IH [OF fi(1) this rest] show ?thesis using ui(3,4) c(7,8) fi(2) prefix_order.trans by fastforce
    qed
  qed
qed simp

lemma poll_send_ok:
  assumes "transport_ok tr taken written" "now + never \<le> rt_limit rt" "active_inv taken written a ds fs"
    "poll_send rt tr fexp now orders a = Some (r, a', ws)"
  shows "(\<exists>fs'. active_inv taken written a' ds (fs @ fs')) \<and> (r = Pending \<or> (\<exists>e. r = Ready (Err (Io e))))
    \<and> sm_config (ac_streams a') = sm_config (ac_streams a) \<and> sm_role (ac_streams a') = sm_role (ac_streams a)"
  using poll_send_keeps [where Q = "\<lambda>_ _. True", OF assms(1,2) _ assms(3) _ assms(4)] by blast

subsection \<open>The writing loop ends\<close>

text \<open>
  What a stream can still send without the application or the peer: data, credit, and the two \<open>FIN\<close>s.
  Every update makes it less.
\<close>

definition in_work :: "inbound \<Rightarrow> nat" where
  "in_work i = in_credit i + of_bool (\<not> sent (in_fin_state i))"

definition out_work :: "outbound \<Rightarrow> nat" where
  "out_work out = length (out_data out) + of_bool (\<not> sent (out_fin_state out))"

definition work :: "streams \<Rightarrow> nat" where
  "work sm = (\<Sum>s < sm_fresh sm. in_work (st_in (sm_store sm s)) + out_work (st_out (sm_store sm s)))"

lemma in_update_work:
  assumes "in_inv i" "in_poll_update i p = (r, i', p')"
  shows "r = Pending \<and> in_work i' = in_work i \<or> in_work i' < in_work i"
  using assms
proof (cases rule: in_poll_update_cases)
  case (credit c f)
  then have "in_fin_state i' = in_fin_state i" by (simp add: in_fin_state_def)
  then show ?thesis using credit by (simp add: in_work_def)
qed (simp_all add: in_work_def in_fin_state_def)

lemma out_update_work:
  assumes lg: "ledger_ok (out_ledger out)" "pool_ok (tx_pool flow)" and upd: "out_poll_update fexp out flow me now = (r, out', flow', ws)"
  shows "r = Pending \<and> out_work out' = out_work out \<or> out_work out' < out_work out"
  using upd
proof (cases rule: out_poll_update_cases)
  case (closed f)
  then show ?thesis by (auto simp: out_work_def out_fin_state_def out_data_def)
next
  case (wait l)
  then show ?thesis by (simp add: out_work_def out_fin_state_def out_data_def)
next
  case (send n l ws1 ws2 fin st)
  have "0 < n \<and> n \<le> length (out_data out)" using lg send(1) by (cases rule: plan_cases) simp_all
  then have n: "0 < n" "n \<le> length (out_data out)" by simp_all
  have "length (out_data out') \<le> length (out_data out) - n" "sent (out_fin_state out) \<Longrightarrow> sent (out_fin_state out')"
    using send(6) by (auto simp: send(3) out_data_def [of "\<lparr>out_state = st, out_ledger = l\<rparr>"] out_fin_state_def fin_default_def split: if_splits)
  then show ?thesis using n by (auto simp: out_work_def)
qed

lemma sum_upd_nat:
  fixes f :: "'a \<Rightarrow> nat"
  shows "finite S \<Longrightarrow> s \<in> S \<Longrightarrow> (\<Sum>x \<in> S. f ((store(s := st)) x)) + f (store s) = (\<Sum>x \<in> S. f (store x)) + f st"
  using sum_fun_upd_nat [of S s "\<lambda>x. f (store x)" "f st"] by (simp only: fun_upd_comp [of f store s st])

lemma select_work:
  assumes "streams_inv sm" "select_next fexp order sm now = (r, sm', ws)"
  shows "r = Pending \<and> work sm' = work sm \<or> work sm' < work sm"
  using assms
proof (induction order arbitrary: sm ws)
  case (Cons s order)
  show ?case
  proof (cases "map_of (sm_updates sm) s")
    case None
    then show ?thesis using Cons.IH [OF Cons.prems(1), of ws] Cons.prems(2) by simp
  next
    case (Some this)
    obtain r1 this' st flow ws1 where poll: "poll_progress fexp this (sm_store sm s) (sm_flow sm) s now = (r1, this', st, flow, ws1)"
      by (metis prod_cases5)
    define sm1 where sm1: "sm1 = sm\<lparr>sm_store := (sm_store sm)(s := st), sm_flow := flow, sm_updates := AList.update s this' (sm_updates sm)\<rparr>"
    note p = poll_task [OF Cons.prems(1) Some poll sm1]
    have t: "tables_ok sm" "store_ok sm" "pools_ok sm" "tasks_ok sm" using Cons.prems(1) by (simp_all add: streams_inv_def)
    have fresh: "s < sm_fresh sm" using p(1) handles_iff [OF t(1)] t(1) by (auto simp: tables_ok_def)
    have si: "stream_inv (sm_store sm s)" using t(2) fresh by (simp add: store_ok_def)
    from poll obtain inb i q outb out where
      inb: "in_poll_update (st_in (sm_store sm s)) (rx_pool (sm_flow sm)) = (inb, i, q)" and
      outb: "out_poll_update fexp (st_out (sm_store sm s)) ((sm_flow sm)\<lparr>rx_pool := q\<rparr>) s now = (outb, out, flow, ws1)" and
      st: "st = \<lparr>st_in = i, st_out = out\<rparr>" and
      r: "inb = Pending \<and> outb = Pending \<and> r1 = Pending \<or> \<not> (inb = Pending \<and> outb = Pending) \<and> r1 \<noteq> Pending"
      by (rule poll_progress_parts) auto
    have iw: "inb = Pending \<and> in_work i = in_work (st_in (sm_store sm s)) \<or> in_work i < in_work (st_in (sm_store sm s))"
      using in_update_work [OF _ inb] si by (simp add: stream_inv_def)
    have ow: "outb = Pending \<and> out_work out = out_work (st_out (sm_store sm s)) \<or> out_work out < out_work (st_out (sm_store sm s))"
      using out_update_work [OF _ _ outb] si t(3) by (simp add: stream_inv_def out_inv_def pools_ok_def flow_ok_def)
    let ?f = "\<lambda>st. in_work (st_in st) + out_work (st_out st)"
    have sum: "work sm1 + ?f (sm_store sm s) = work sm + ?f st"
      using sum_upd_nat [of "{..<sm_fresh sm}" s ?f "sm_store sm" st] fresh by (simp add: work_def sm1)
    have w: "r1 = Pending \<and> work sm1 = work sm \<or> r1 = Pending \<and> work sm1 < work sm \<or> r1 \<noteq> Pending \<and> work sm1 < work sm"
      using sum iw ow r by (auto simp: st)
    show ?thesis
    proof (cases r1)
      case Pending
      have inv1: "streams_inv sm1" by (rule poll_task_waits [OF Cons.prems(1) Some poll [unfolded Pending] sm1])
      obtain ws2 where "select_next fexp order sm1 now = (r, sm', ws2)"
        using Cons.prems(2) Some poll Pending by (auto simp: sm1 split: prod.splits)
      from Cons.IH [OF inv1 this] show ?thesis using w by auto
    next
      case (Ready pr)
      have "work sm' = work sm1"
        using Cons.prems(2) Some poll Ready by (auto simp: sm1 work_def Let_def split: prod.splits control_flow.splits)
      then show ?thesis using w Ready by auto
    qed
  qed
qed simp

lemma poll_update_work:
  assumes inv: "streams_inv sm" and op: "poll_update fexp order sm now = (r, sm', ws)"
  shows "r = Pending \<and> work sm' = work sm \<or> work sm' < work sm"
proof -
  obtain r1 sm1 ws1 where sel: "select_next fexp order sm now = (r1, sm1, ws1)" by (metis prod_cases3)
  have rem: "work sm2 = work sm1" if "sm_remove i sm1 = Ok sm2" for i sm2
    using that by (auto simp: sm_remove_def work_def split: if_splits)
  show ?thesis using select_work [OF inv sel] op sel rem
    by (auto simp: poll_update_def split: poll.splits if_splits rres.splits prod.splits)
qed

text \<open>Whether the next frame carries something of the \<^verbatim>\<open>PING\<close>/\<^verbatim>\<open>PONG\<close> exchange. A frame that does settles it.\<close>

definition exchange_due :: "timer \<Rightarrow> pings \<Rightarrow> instant \<Rightarrow> bool" where
  "exchange_due fires p now \<longleftrightarrow> owed_pong p \<noteq> None \<or> sched_bytes (schedule p) \<le> unpinged_bytes (schedule p) \<or> fires (sleep_at (schedule p)) now"

definition pings_ok :: "pings \<Rightarrow> bool" where
  [inv_defs]: "pings_ok p \<longleftrightarrow> sched_bytes (schedule p) \<noteq> 0 \<and> 0 < interval (schedule p)"

lemma take_frame_part_due:
  assumes lim: "now + never \<le> limit" and fires: "timer_ok fires" and ok: "pings_ok p"
    and part: "take_frame_part fires limit p now = (Ok (pong, ping, p') :: (_, 'e) rres)"
  shows "ping \<or> pong \<noteq> None \<longleftrightarrow> exchange_due fires p now" "\<not> exchange_due fires (data_sent p' 0) now" "pings_ok (data_sent p' n)"
proof -
  let ?due = "sched_bytes (schedule p) \<le> unpinged_bytes (schedule p) \<or> fires (sleep_at (schedule p)) now"
  have p': "pong = owed_pong p" "ping = ?due" "owed_pong p' = None"
    "schedule p' = (if ?due then (schedule p)\<lparr>unpinged_bytes := 0, sleep_at := now + min (interval (schedule p)) never\<rparr> else schedule p)"
    using part [unfolded take_frame_part_eq [OF lim]] by (auto simp: Let_def)
  show "ping \<or> pong \<noteq> None \<longleftrightarrow> exchange_due fires p now" by (auto simp: exchange_due_def p')
  have "0 < min (interval (schedule p)) never" using ok by (simp add: pings_ok_def never_def from_secs_def)
  then have "\<not> fires (now + min (interval (schedule p)) never) now"
    using fires unfolding timer_ok_def by (metis add_leD1 add_le_same_cancel1 not_le)
  moreover have z: "data_sent p' 0 = p'"
    using unpinged_data_sent [of "schedule p'" 0] unat_le_u32_max [of "unpinged_bytes (schedule p')"]
    by (cases p') (simp add: data_sent_def schedule_data_sent_def Let_def saturating_add_u32_def)
  ultimately show "\<not> exchange_due fires (data_sent p' 0) now"
    using ok unfolding z exchange_due_def p'(3,4) by (auto simp: pings_ok_def word_le_nat_alt unat_eq_zero)
  show "pings_ok (data_sent p' n)" using ok by (simp add: pings_ok_def data_sent_def unpinged_data_sent p'(4))
qed

lemma poll_send_returns:
  assumes lim: "now + never \<le> rt_limit rt" and fires: "timer_ok (rt_fires rt)"
    and "streams_inv (ac_streams a)" "pings_ok (ac_pings a)"
    and "2 * work (ac_streams a) + of_bool (exchange_due (rt_fires rt) (ac_pings a) now) < length orders"
    and idle: "\<And>c q c'. codec_poll_ready tr now c = (q, c') \<Longrightarrow> q = Ready (Ok ()) \<Longrightarrow> cd_pending c' = None"
  shows "\<exists>res. poll_send rt tr fexp now orders a = Some res"
  using assms(3-5)
proof (induction orders arbitrary: a)
  case (Cons order orders)
  obtain q c where ready: "codec_poll_ready tr now (ac_codec a) = (q, c)" by fastforce
  show ?case
  proof (cases "q = Ready (Ok ())")
    case False
    then show ?thesis using ready by (auto simp: poll_send.simps(2) split: poll.splits rres.splits)
  next
    case True
    then have ready': "codec_poll_ready tr now (ac_codec a) = (Ready (Ok ()), c)" using ready by simp
    obtain pong ping p where part: "take_frame_part (rt_fires rt) (rt_limit rt) (ac_pings a) now = (Ok (pong, ping, p) :: (_, error_kind) rres)"
      using take_frame_part_eq [OF lim, of "rt_fires rt" "ac_pings a"] by (auto simp: Let_def)
    obtain u sm ws1 where upd: "poll_update fexp order (ac_streams a) now = (u, sm, ws1)" by (metis prod_cases3)
    note ui = poll_update_inv [OF Cons.prems(1) upd] and w = poll_update_work [OF Cons.prems(1) upd]
      and due = take_frame_part_due [OF lim fires Cons.prems(2) part]
    from lim Cons.prems(1) ready' part upd idle [OF ready' refl] show ?thesis
    proof (cases rule: poll_send_round [where orders = orders])
      case (flushed q' c')
      then show ?thesis by blast
    next
      case (framed f c')
      let ?a = "a\<lparr>ac_streams := sm, ac_pings := data_sent p (frame_data_len f), ac_codec := c'\<rparr>"
      have "2 * work sm + of_bool (exchange_due (rt_fires rt) (data_sent p (frame_data_len f)) now) < length orders"
      proof (cases "u = Pending")
        case True
        then have none: "f = compose pong ping None" using framed(1) by simp
        then have "exchange_due (rt_fires rt) (ac_pings a) now" using framed(2) due(1) by (auto simp: compose_none)
        moreover have "\<not> exchange_due (rt_fires rt) (data_sent p (frame_data_len f)) now" using due(2) by (simp add: none compose_none)
        ultimately show ?thesis using Cons.prems(3) w by auto
      next
        case False
        then show ?thesis using Cons.prems(3) w by (cases "exchange_due (rt_fires rt) (data_sent p (frame_data_len f)) now") auto
      qed
      then have "\<exists>res. poll_send rt tr fexp now orders ?a = Some res"
        using ui(1) due(3) by (intro Cons.IH) simp_all
      then show ?thesis using framed(6) by auto
    qed
  qed
qed simp

lemma write_idle:
  "poll_write_pending wr t pending io = (r, pending', io') \<Longrightarrow> r = Ready (Ok ()) \<Longrightarrow> pending' = None"
proof (induction wr t pending io rule: poll_write_pending.induct)
  case (1 wr t pending io)
  show ?case
  proof (cases "\<exists>it it'. pending = Some it \<and> remaining it \<noteq> 0 \<and> restamp it t = Ok it'")
    case False
    then show ?thesis using 1(2,3) by (subst (asm) poll_write_pending.simps) (auto split: option.splits if_splits rres.splits)
  next
    case True
    then obtain it it' where it: "pending = Some it" "remaining it \<noteq> 0" "restamp it t = Ok it'" by blast
    obtain p io1 where call: "wr io (slices it') = (p, io1)" by fastforce
    show ?thesis using 1(2,3) call it 1(1) [OF it call [symmetric]]
      by (subst (asm) poll_write_pending.simps) (auto split: poll.splits rres.splits if_splits)
  qed
qed

lemma codec_ready_idle: "codec_poll_ready tr now c = (q, c') \<Longrightarrow> q = Ready (Ok ()) \<Longrightarrow> cd_pending c' = None"
  using write_idle by (fastforce simp: codec_poll_ready_def split: prod.splits)

subsection \<open>The properties\<close>

text \<open>
  C15. The loop that writes frames ends, for every transport and every schedule of the streams. The data,
  the credit and the \<open>FIN\<close>s that the streams hold bound the number of its rounds: a frame
  with a stream part takes something of them away, and two frames that carry only a \<^verbatim>\<open>PING\<close> or a
  \<^verbatim>\<open>PONG\<close> do not follow each other.
\<close>

theorem poll_send_ends:
  assumes "now + never \<le> rt_limit rt" and "timer_ok (rt_fires rt)"
    and "streams_inv (ac_streams a)" and "pings_ok (ac_pings a)" and "2 * work (ac_streams a) + 1 < length orders"
  shows "\<exists>res. poll_send rt tr fexp now orders a = Some res"
proof (rule poll_send_returns [OF assms(1-4)])
  show "2 * work (ac_streams a) + of_bool (exchange_due (rt_fires rt) (ac_pings a) now) < length orders" using assms(5) by simp
  show "cd_pending c' = None" if "codec_poll_ready tr now c = (q, c')" "q = Ready (Ok ())" for c q c'
    using codec_ready_idle [OF that] .
qed

definition demo_active :: "duplex_io active" where
  "demo_active = \<lparr>ac_codec = demo_codec\<lparr>cd_frame_limit := frame_limit demo_config\<rparr>, ac_streams = demo_streams,
     ac_pings = pings_new 1 5 4096\<rparr>"

lemma demo_streams_inv: "streams_inv demo_streams"
  using streams_new_inv [OF demo_typed] by (simp add: demo_streams_def)

theorem poll_send_ends_witness:
  "exchange_due (rt_fires demo_rt) (ac_pings demo_active) 1
   \<and> (\<exists>res. poll_send demo_rt duplex_transport (\<lambda>_. 1) 1 [[], []] demo_active = Some res)"
proof
  show "exchange_due (rt_fires demo_rt) (ac_pings demo_active) 1"
    by (simp add: exchange_due_def demo_rt_def demo_active_def pings_new_def schedule_new_def)
  show "\<exists>res. poll_send demo_rt duplex_transport (\<lambda>_. 1) 1 [[], []] demo_active = Some res"
  proof (rule poll_send_ends [OF _ demo_timer])
    show "2 * work (ac_streams demo_active) + 1 < length [[], [] :: sref list]"
      by (simp add: demo_active_def demo_streams_def streams_new_def work_def)
  qed (simp_all add: demo_active_def demo_streams_inv demo_rt_def pings_ok_def pings_new_def schedule_new_def)
qed

end
