(* ===== verification/Downgrade.thy ===== *)
theory Downgrade
  imports Active
begin

text \<open>
  The end of a connection (\<^verbatim>\<open>src/connection/downgrade.rs\<close>): the future that sends our \<^verbatim>\<open>TERM\<close> frame, waits for
  the one of the peer, and gives the transport back. The loop of the writer has at most three rounds;
  the loop of the reader skips frames until the \<^verbatim>\<open>TERM\<close>, and would run forever on a
  transport that always has another frame, so it is a partial function (\<open>None\<close> means that it does not
  return). Theorem \<open>downgrade_returns\<close> shows that it returns on every transport with finitely many bytes to
  read, and theorem \<open>downgrade_clean\<close> what the transport that is given back looks like.
\<close>

section \<open>Definitions\<close>

datatype term_send_state = TermInit | TermEnqueued | TermFlushed | TermShutDown

record 'io downgraded =
  dg_codec :: "'io codec option"
  term_received :: bool
  term_sent :: term_send_state
  dg_shutdown :: bool

definition downgraded_new :: "'io codec \<Rightarrow> bool \<Rightarrow> 'io downgraded" where
  "downgraded_new c was_received = \<lparr>dg_codec = Some c, term_received = was_received, term_sent = TermInit, dg_shutdown = False\<rparr>"

definition with_shutdown :: "'io downgraded \<Rightarrow> 'io downgraded" where
  "with_shutdown d = d\<lparr>dg_shutdown := True\<rparr>"

type_synonym 'io writer_result = "(unit, error_kind) rres poll \<times> term_send_state \<times> 'io codec"

definition term_rounds :: "term_send_state \<Rightarrow> nat" where
  "term_rounds t = (case t of TermInit \<Rightarrow> 3 | TermEnqueued \<Rightarrow> 2 | TermFlushed \<Rightarrow> 1 | TermShutDown \<Rightarrow> 0)"

function recover_writer :: "'io transport \<Rightarrow> instant \<Rightarrow> bool \<Rightarrow> term_send_state \<Rightarrow> 'io codec \<Rightarrow> 'io writer_result" where
  "recover_writer tr now shut TermInit c =
     (case codec_poll_ready tr now c of
        (Ready (Ok _), c) \<Rightarrow>
          (case codec_start_send c frame_terminate of
             Ok c \<Rightarrow> recover_writer tr now shut TermEnqueued c
           | Err e \<Rightarrow> (Ready (Err e), TermInit, c)
           | Panic \<Rightarrow> (Ready Panic, TermInit, c))
      | (r, c) \<Rightarrow> (r, TermInit, c))"
| "recover_writer tr now shut TermEnqueued c =
     (if shut then
        (case codec_poll_close tr now c of
           (Ready (Ok _), c) \<Rightarrow> recover_writer tr now shut TermShutDown c
         | (r, c) \<Rightarrow> (r, TermEnqueued, c))
      else
        (case codec_poll_flush tr now c of
           (Ready (Ok _), c) \<Rightarrow> recover_writer tr now shut TermFlushed c
         | (r, c) \<Rightarrow> (r, TermEnqueued, c)))"
| "recover_writer tr now shut TermFlushed c =
     (if shut then
        (case codec_poll_close tr now c of
           (Ready (Ok _), c) \<Rightarrow> recover_writer tr now shut TermShutDown c
         | (r, c) \<Rightarrow> (r, TermFlushed, c))
      else (Ready (Ok ()), TermFlushed, c))"
| "recover_writer tr now shut TermShutDown c = (Ready (Ok ()), TermShutDown, c)"
  by pat_completeness auto

termination recover_writer
  by (relation "measure (\<lambda>(tr, now, shut, t, c). term_rounds t)") (auto simp: term_rounds_def)

definition poll_recover_writer :: "'io transport \<Rightarrow> instant \<Rightarrow> 'io downgraded \<Rightarrow> (unit, error_kind) rres poll \<times> 'io downgraded" where
  "poll_recover_writer tr now d =
     (case dg_codec d of
        None \<Rightarrow> (Ready Panic, d)
      | Some c \<Rightarrow> (let (r, t, c) = recover_writer tr now (dg_shutdown d) (term_sent d) c
                   in (r, d\<lparr>term_sent := t, dg_codec := Some c\<rparr>)))"

type_synonym 'io reader_result = "(unit, error_kind) rres poll \<times> bool \<times> 'io codec"

partial_function (option) recover_reader :: "runtime \<Rightarrow> 'io transport \<Rightarrow> instant \<Rightarrow> 'io codec \<Rightarrow> 'io reader_result option" where
  "recover_reader rt tr now c =
     (case codec_poll_next rt tr now c of
        (Pending, c) \<Rightarrow> Some (Pending, False, c)
      | (Ready None, c) \<Rightarrow> Some (Ready (Err (Io UnexpectedEof)), False, c)
      | (Ready (Some (Err e)), c) \<Rightarrow> Some (Ready (Err e), False, c)
      | (Ready (Some Panic), c) \<Rightarrow> Some (Ready Panic, False, c)
      | (Ready (Some (Ok Terminate)), c) \<Rightarrow> Some (Ready (Ok ()), True, c)
      | (Ready (Some (Ok (Frame f))), c) \<Rightarrow> recover_reader rt tr now c)"

definition poll_recover_reader :: "runtime \<Rightarrow> 'io transport \<Rightarrow> instant \<Rightarrow> 'io downgraded
    \<Rightarrow> ((unit, error_kind) rres poll \<times> 'io downgraded) option" where
  "poll_recover_reader rt tr now d =
     (if term_received d then Some (Ready (Ok ()), d)
      else case dg_codec d of
        None \<Rightarrow> Some (Ready Panic, d)
      | Some c \<Rightarrow> map_option (\<lambda>(r, t, c). (r, d\<lparr>term_received := t, dg_codec := Some c\<rparr>)) (recover_reader rt tr now c))"

definition downgraded_poll :: "runtime \<Rightarrow> 'io transport \<Rightarrow> instant \<Rightarrow> 'io downgraded
    \<Rightarrow> (('io, rammux_error) rres poll \<times> 'io downgraded) option" where
  "downgraded_poll rt tr now d =
     (case poll_recover_reader rt tr now d of
        None \<Rightarrow> None
      | Some (Ready (Err e), d) \<Rightarrow> Some (Ready (Err (RammuxError e)), d)
      | Some (Ready Panic, d) \<Rightarrow> Some (Ready Panic, d)
      | Some (read, d) \<Rightarrow>
          (case poll_recover_writer tr now d of
             (Ready (Err e), d) \<Rightarrow> Some (Ready (Err (RammuxError e)), d)
           | (Ready Panic, d) \<Rightarrow> Some (Ready Panic, d)
           | (write, d) \<Rightarrow>
               if is_ready read \<and> is_ready write then
                 (case dg_codec d of
                    None \<Rightarrow> Some (Ready Panic, d)
                  | Some c \<Rightarrow> Some (Ready (Ok (into_inner c)), d\<lparr>dg_codec := None\<rparr>))
               else Some (Pending, d)))"

declare recover_writer.simps [simp del]

section \<open>Specification\<close>

definition term_in :: "bool \<Rightarrow> decoded_frame list" where
  "term_in was_received = (if was_received then [Terminate] else [])"

definition term_out :: "term_send_state \<Rightarrow> out_frame list" where
  "term_out t = (if t = TermInit then [] else [frame_terminate])"

text \<open>
  The frames \<open>ds\<close> were decoded before the \<^verbatim>\<open>TERM\<close> of the peer, and the frames \<open>fs\<close> were handed to the
  codec before ours. Nothing behind the \<^verbatim>\<open>TERM\<close> of the peer is read, and nothing is pending once ours was flushed.
\<close>

definition reader_inv :: "('io \<Rightarrow> u8 list) \<Rightarrow> bool \<Rightarrow> 'io codec \<Rightarrow> decoded_frame list \<Rightarrow> bool" where
  [inv_defs]: "reader_inv taken was_received c ds \<longleftrightarrow> codec_in taken c (ds @ term_in was_received) \<and> Terminate \<notin> set ds
     \<and> (was_received \<longrightarrow> taken (cd_io c) = concat (map df_bytes ds) @ term_bytes)"

definition writer_inv :: "('io \<Rightarrow> u8 list) \<Rightarrow> term_send_state \<Rightarrow> 'io codec \<Rightarrow> out_frame list \<Rightarrow> bool" where
  [inv_defs]: "writer_inv written t c fs \<longleftrightarrow> codec_out written c (fs @ term_out t)
     \<and> (t = TermFlushed \<or> t = TermShutDown \<longrightarrow> cd_pending c = None)"

definition downgrade_inv :: "('io \<Rightarrow> u8 list) \<Rightarrow> ('io \<Rightarrow> u8 list) \<Rightarrow> 'io downgraded \<Rightarrow> decoded_frame list \<Rightarrow> out_frame list \<Rightarrow> bool" where
  "downgrade_inv taken written d ds fs \<longleftrightarrow>
     (\<exists>c. dg_codec d = Some c \<and> reader_inv taken (term_received d) c ds \<and> writer_inv written (term_sent d) c fs)"

section \<open>Lemmas\<close>

subsection \<open>Sending our \<open>TERM\<close>\<close>

lemma pending_none:
  assumes "codec_poll_ready tr now c = (r, c') \<or> codec_poll_flush tr now c = (r, c') \<or> codec_poll_close tr now c = (r, c')"
    and "cd_pending c = None"
  shows "cd_pending c' = None"
  using codec_op_pending [OF assms(1)] assms(2) by (auto simp: poll_write_pending.simps)

lemma writer_op:
  assumes tr: "transport_ok tr taken written" and inn: "codec_in taken c ds" and out: "writer_inv written t c fs"
    and op: "codec_poll_ready tr now c = (r, c') \<or> codec_poll_flush tr now c = (r, c') \<or> codec_poll_close tr now c = (r, c')"
  shows "codec_in taken c' ds \<and> taken (cd_io c') = taken (cd_io c) \<and> writer_inv written t c' fs \<and> r \<noteq> Ready Panic
    \<and> (r = Ready (Ok ()) \<longrightarrow> cd_pending c' = None) \<and> (\<forall>e. r = Ready (Err e) \<longrightarrow> \<not> is_misuse e)"
proof -
  have o: "codec_out written c (fs @ term_out t)" using out by (simp add: writer_inv_def)
  note w = codec_writes [OF tr codec_ok_of [OF inn o] op]
  show ?thesis
    using w(4,6,7) codec_in_same [OF inn w(2,3)] w(3) codec_out_writes [OF tr o codec_ok_of [OF inn o] op] pending_none [OF op] out
    by (auto simp: writer_inv_def)
qed

lemma writer_start:
  assumes "codec_in taken c ds" "writer_inv written TermInit c fs" "cd_pending c = None"
  obtains c' where "codec_start_send c frame_terminate = Ok c'" "codec_in taken c' ds" "taken (cd_io c') = taken (cd_io c)"
    "writer_inv written TermEnqueued c' fs"
proof -
  from codec_start_send_ok [OF terminate_ok assms(3)] obtain it where
    st: "codec_start_send c frame_terminate = Ok (c\<lparr>cd_pending := Some it\<rparr>)" .
  have "codec_out written c fs" using assms(2) by (simp add: writer_inv_def term_out_def)
  from codec_out_start [OF this terminate_ok assms(3) st] show thesis
    using assms(1) by (intro that [OF st]) (simp_all add: codec_in_def writer_inv_def term_out_def)
qed

lemma recover_writer_ok:
  "recover_writer tr now shut t c = (r, t', c') \<Longrightarrow> transport_ok tr taken written \<Longrightarrow> codec_in taken c ds \<Longrightarrow> writer_inv written t c fs \<Longrightarrow>
    codec_in taken c' ds \<and> taken (cd_io c') = taken (cd_io c) \<and> writer_inv written t' c' fs \<and> r \<noteq> Ready Panic
    \<and> (r = Ready (Ok ()) \<longrightarrow> t' = TermFlushed \<and> \<not> shut \<or> t' = TermShutDown) \<and> (\<forall>e. r = Ready (Err e) \<longrightarrow> \<not> is_misuse e)"
proof (induction tr now shut t c rule: recover_writer.induct)
  case (1 tr now shut c)
  obtain q c1 where op: "codec_poll_ready tr now c = (q, c1)" by fastforce
  note w = writer_op [OF "1.prems"(2-4) disjI1 [OF op]]
  show ?case
  proof (cases "q = Ready (Ok ())")
    case True
    obtain c2 where c2: "codec_start_send c1 frame_terminate = Ok c2" "codec_in taken c2 ds" "taken (cd_io c2) = taken (cd_io c1)"
      "writer_inv written TermEnqueued c2 fs" using w True by (auto elim: writer_start)
    have "recover_writer tr now shut TermEnqueued c2 = (r, t', c')"
      using "1.prems"(1) op True c2(1) by (simp add: recover_writer.simps(1))
    from "1.IH" [OF op [symmetric] _ refl c2(1) this "1.prems"(2) c2(2,4)] True c2(3) w show ?thesis by simp
  next
    case False
    then show ?thesis using "1.prems" op w by (auto simp: recover_writer.simps(1) split: poll.splits rres.splits)
  qed
next
  case (2 tr now shut c)
  obtain q c1 where op: "(if shut then codec_poll_close tr now c else codec_poll_flush tr now c) = (q, c1)" by fastforce
  then have op': "codec_poll_ready tr now c = (q, c1) \<or> codec_poll_flush tr now c = (q, c1) \<or> codec_poll_close tr now c = (q, c1)"
    by (simp split: if_splits)
  note w = writer_op [OF "2.prems"(2-4) op']
  have next_ok: "writer_inv written TermFlushed c1 fs" "writer_inv written TermShutDown c1 fs" if "q = Ready (Ok ())"
    using w that by (simp_all add: writer_inv_def term_out_def)
  show ?case using "2.prems"(1,2) op w next_ok "2.IH"
    by (cases shut) (auto simp: recover_writer.simps split: poll.splits rres.splits)
next
  case (3 tr now shut c)
  obtain q c1 where op: "codec_poll_close tr now c = (q, c1)" by fastforce
  then have op': "codec_poll_ready tr now c = (q, c1) \<or> codec_poll_flush tr now c = (q, c1) \<or> codec_poll_close tr now c = (q, c1)"
    by simp
  note w = writer_op [OF "3.prems"(2-4) op']
  have next_ok: "writer_inv written TermShutDown c1 fs" if "q = Ready (Ok ())"
    using w that by (simp add: writer_inv_def term_out_def)
  show ?case using "3.prems" op w next_ok
    by (cases shut) (auto simp: recover_writer.simps split: poll.splits rres.splits)
next
  case (4 tr now shut c)
  then show ?case by (auto simp: recover_writer.simps(4))
qed

subsection \<open>Waiting for the \<open>TERM\<close> of the peer\<close>

definition reader_done :: "('io \<Rightarrow> u8 list) \<Rightarrow> ('io \<Rightarrow> u8 list) \<Rightarrow> 'io codec \<Rightarrow> decoded_frame list \<Rightarrow> 'io reader_result \<Rightarrow> bool" where
  "reader_done taken written c ds res \<longleftrightarrow> (case res of (r, t, c') \<Rightarrow>
     writer_same c c' \<and> written (cd_io c') = written (cd_io c) \<and> r \<noteq> Ready Panic \<and> (t \<longleftrightarrow> r = Ready (Ok ()))
     \<and> (\<forall>e. r = Ready (Err e) \<longrightarrow> \<not> is_misuse e)
     \<and> (r = Pending \<or> r = Ready (Ok ()) \<longrightarrow> (\<exists>ds'. reader_inv taken t c' (ds @ ds'))))"

lemma reader_step:
  assumes tr: "transport_ok tr taken written" and lim: "now + never \<le> rt_limit rt"
    and inv: "reader_inv taken False c ds" and op: "codec_poll_next rt tr now c = (r, c')"
  shows "writer_same c c' \<and> written (cd_io c') = written (cd_io c) \<and> r \<noteq> Ready (Some Panic)
    \<and> (\<forall>e. r = Ready (Some (Err e)) \<longrightarrow> \<not> is_misuse e) \<and> (r = Pending \<longrightarrow> reader_inv taken False c' ds)
    \<and> (\<forall>f. r = Ready (Some (Ok (Frame f))) \<longrightarrow> reader_inv taken False c' (ds @ [Frame f]))
    \<and> (r = Ready (Some (Ok Terminate)) \<longrightarrow> reader_inv taken True c' ds)"
proof -
  have inn: "codec_in taken c ds" "Terminate \<notin> set ds" using inv by (simp_all add: reader_inv_def term_in_def)
  note p = codec_in_read [OF tr inn(1) lim op]
  show ?thesis using p(1-5) p(6) inn(2) by (auto simp: reader_inv_def term_in_def)
qed

lemma recover_reader_ok:
  "recover_reader rt tr now c = Some res \<Longrightarrow> transport_ok tr taken written \<Longrightarrow> now + never \<le> rt_limit rt
    \<Longrightarrow> reader_inv taken False c ds \<Longrightarrow> reader_done taken written c ds res"
proof (induction arbitrary: ds rule: recover_reader.raw_induct [rotated, consumes 1, case_names body])
  case (body rec rt tr now c res)
  obtain q c1 where op: "codec_poll_next rt tr now c = (q, c1)" by fastforce
  note st = reader_step [OF body.prems op]
  show ?case
  proof (cases "\<exists>f. q = Ready (Some (Ok (Frame f)))")
    case True
    then obtain f where f: "q = Ready (Some (Ok (Frame f)))" by blast
    then have "rec rt tr now c1 = Some res" using body.hyps op by simp
    from body.IH [OF this body.prems(1,2)] st f have "reader_done taken written c1 (ds @ [Frame f]) res" by simp
    then show ?thesis using st by (auto simp: reader_done_def writer_same_def split: prod.splits)
  next
    case False
    have "\<exists>ds'. reader_inv taken t c1 (ds @ ds')" if "reader_inv taken t c1 ds" for t
      using that by (intro exI [of _ "[]"]) simp
    then show ?thesis using body.hyps op False st
      by (auto simp: reader_done_def split: poll.splits option.splits rres.splits decoded_frame.splits)
  qed
qed

text \<open>On a transport with finitely many bytes the reader returns, and it finds a \<open>TERM\<close> that is there.\<close>

lemma reader_advances:
  assumes tr: "transport_ok tr taken written" and src: "buffered_source (t_read tr) taken ahead"
    and lim: "now + never \<le> rt_limit rt" and inn: "codec_in taken c ds"
    and op: "codec_poll_next rt tr now c = (Ready (Some (Ok d)), c')"
  shows "taken (cd_io c') @ ahead (cd_io c') = taken (cd_io c) @ ahead (cd_io c)" "length (ahead (cd_io c')) < length (ahead (cd_io c))"
proof -
  obtain r st io where poll: "poll_next_frame (t_read tr) (cd_frame_limit c) now (cd_decoder c) (cd_io c) = (r, st, io)" by (metis prod_cases3)
  have io: "cd_io c' = io" using op poll by (auto simp: codec_poll_next_def Let_def split: poll.splits if_splits rres.splits)
  show same: "taken (cd_io c') @ ahead (cd_io c') = taken (cd_io c) @ ahead (cd_io c)"
    using buffered_source.steps_conserved [OF src poll_steps [OF poll]] by (simp add: io)
  obtain used where used: "taken (cd_io c) = concat (map df_bytes ds) @ used" "dec_rep (cd_frame_limit c) (cd_decoder c) used"
    using inn by (auto simp: codec_in_def)
  have "taken (cd_io c') = concat (map df_bytes ds) @ df_bytes d" "df_valid (cd_frame_limit c) d"
    using codec_in_read(5) [OF tr inn lim op] by simp_all
  moreover have "prefix (taken (cd_io c)) (taken (cd_io c'))"
    using byte_source.steps_taken [OF _ poll_steps [OF poll]] src by (simp add: io buffered_source_def)
  ultimately have "prefix used (df_bytes d)" "used \<noteq> df_bytes d" using used dec_rep_incomplete [OF used(2)] by auto
  then have "length used < length (df_bytes d)" using prefix_length_less strict_prefixI by blast
  then have "length (taken (cd_io c)) < length (taken (cd_io c'))" using used \<open>taken (cd_io c') = _\<close> by simp
  then show "length (ahead (cd_io c')) < length (ahead (cd_io c))" using arg_cong [OF same, of length] by simp
qed

lemma recover_reader_returns:
  assumes tr: "transport_ok tr taken written" and src: "buffered_source (t_read tr) taken ahead" and lim: "now + never \<le> rt_limit rt"
    and "reader_inv taken False c ds"
  shows "\<exists>res. recover_reader rt tr now c = Some res"
  using assms(4)
proof (induction "length (ahead (cd_io c))" arbitrary: c ds rule: less_induct)
  case less
  obtain q c1 where op: "codec_poll_next rt tr now c = (q, c1)" by fastforce
  show ?case
  proof (cases "\<exists>f. q = Ready (Some (Ok (Frame f)))")
    case True
    then obtain f where f: "q = Ready (Some (Ok (Frame f)))" by blast
    have "length (ahead (cd_io c1)) < length (ahead (cd_io c))"
      using reader_advances(2) [OF tr src lim _ op [unfolded f]] less.prems by (auto simp: reader_inv_def)
    moreover have "reader_inv taken False c1 (ds @ [Frame f])" using reader_step [OF tr lim less.prems op] f by simp
    ultimately show ?thesis using less.hyps op f by (subst recover_reader.simps) auto
  next
    case False
    then show ?thesis using op
      by (subst recover_reader.simps) (auto split: poll.splits option.splits rres.splits decoded_frame.splits)
  qed
qed

lemma codec_next_ready:
  assumes src: "ready_source (t_read tr) taken ahead" and lim: "now + never \<le> rt_limit rt" and inn: "codec_in taken c ds"
    and "taken (cd_io c) @ ahead (cd_io c) = concat (map df_bytes ds) @ df_bytes d @ rest" "df_valid (cd_frame_limit c) d"
  shows "\<exists>d' c'. codec_poll_next rt tr now c = (Ready (Some (Ok d')), c') \<and> untimed d' = untimed d \<and> ahead (cd_io c') = rest"
proof -
  obtain used where used: "taken (cd_io c) = concat (map df_bytes ds) @ used" "dec_rep (cd_frame_limit c) (cd_decoder c) used"
    using inn by (auto simp: codec_in_def)
  obtain r st io where poll: "poll_next_frame (t_read tr) (cd_frame_limit c) now (cd_decoder c) (cd_io c) = (r, st, io)" by (metis prod_cases3)
  have "used @ ahead (cd_io c) = df_bytes d @ rest" using assms(4) used(1) by simp
  from ready_source.ready_next [OF src used this assms(5) poll] show ?thesis
    using lim poll by (auto simp: codec_poll_next_def Let_def deadline_eq)
qed

lemma reader_finds_term:
  assumes tr: "transport_ok tr taken written" and src: "ready_source (t_read tr) taken ahead" and lim: "now + never \<le> rt_limit rt"
  shows "reader_inv taken False c ds \<Longrightarrow> taken (cd_io c) @ ahead (cd_io c) = concat (map df_bytes (ds @ ds')) @ term_bytes @ rest
    \<Longrightarrow> \<forall>d \<in> set ds'. df_valid (cd_frame_limit c) d \<and> d \<noteq> Terminate
    \<Longrightarrow> \<exists>c'. recover_reader rt tr now c = Some (Ready (Ok ()), True, c') \<and> ahead (cd_io c') = rest"
proof (induction ds' arbitrary: c ds)
  case Nil
  have inn: "codec_in taken c ds" using Nil(1) by (simp add: reader_inv_def term_in_def)
  obtain d c' where "codec_poll_next rt tr now c = (Ready (Some (Ok d)), c')" "untimed d = untimed Terminate" "ahead (cd_io c') = rest"
    using codec_next_ready [OF src lim inn, of Terminate rest] Nil(2) by auto
  then show ?case by (subst recover_reader.simps) (cases d; simp)
next
  case (Cons d ds')
  have inn: "codec_in taken c ds" using Cons.prems(1) by (simp add: reader_inv_def term_in_def)
  obtain d' c' where d': "codec_poll_next rt tr now c = (Ready (Some (Ok d')), c')" "untimed d' = untimed d"
    using codec_next_ready [OF src lim inn, of d "concat (map df_bytes ds') @ term_bytes @ rest"] Cons.prems(2,3) by auto
  have bytes: "df_bytes d' = df_bytes d" using d'(2) df_bytes_untimed by metis
  obtain f where f: "d' = Frame f" using d'(2) Cons.prems(3) by (cases d'; cases d) auto
  note st = reader_step [OF tr lim Cons.prems(1) d'(1) [unfolded f]]
  have same: "taken (cd_io c') @ ahead (cd_io c') = taken (cd_io c) @ ahead (cd_io c)" by (rule reader_advances(1) [OF tr ready_source.axioms(1) [OF src] lim inn d'(1)])
  have "\<exists>c''. recover_reader rt tr now c' = Some (Ready (Ok ()), True, c'') \<and> ahead (cd_io c'') = rest"
  proof (rule Cons.IH)
    show "reader_inv taken False c' (ds @ [Frame f])" using st by simp
    show "taken (cd_io c') @ ahead (cd_io c') = concat (map df_bytes ((ds @ [Frame f]) @ ds')) @ term_bytes @ rest"
      using same Cons.prems(2) bytes f by simp
  qed (use st Cons.prems(3) in \<open>simp add: writer_same_def\<close>)
  then show ?case using d'(1) f by (subst recover_reader.simps) simp
qed

subsection \<open>A transport that takes what is written\<close>

locale ready_sink = byte_sink +
  assumes takes: "concat bufs \<noteq> [] \<Longrightarrow> \<exists>n io'. wr io bufs = (Ready (Ok n), io') \<and> 0 < n"
begin

lemma write_ready:
  "wr' = wr \<Longrightarrow> \<forall>it. pending = Some it \<longrightarrow> item_ok it \<Longrightarrow> fst (poll_write_pending wr' t pending io) = Ready (Ok ())"
proof (induction wr' t pending io rule: poll_write_pending.induct)
  case (1 wr' t pending io)
  note IH = 1(1) [unfolded 1(2)]
  show ?case
  proof (cases "\<exists>it. pending = Some it \<and> remaining it \<noteq> 0")
    case False
    then show ?thesis by (subst poll_write_pending.simps) (auto split: option.split)
  next
    case True
    then obtain it where it: "pending = Some it" "remaining it \<noteq> 0" "item_ok it" using 1(3) by blast
    obtain it' where it': "restamp it t = Ok it'" "item_ok it'" "owed (Some it') = owed_at t (Some it)" "is_started it \<Longrightarrow> it' = it"
      using restamp_ok [OF it(3), of t] by blast
    have "header_bytes h \<noteq> []" if "header_legal h" for h
      using that length_item_header header_len_pos by (metis length_0_conv less_numeral_extra(3))
    then have "owed (Some it') \<noteq> []"
      using it'(2-4) it(2,3) remaining_eq [OF it(3)] by (cases "is_started it") (auto simp: owed_at_def owed_def item_ok_def)
    then have ne: "concat (slices it') \<noteq> []" using slices_concat [OF it'(2)] by (simp add: owed_def)
    then obtain n io' where call: "wr io (slices it') = (Ready (Ok n), io')" "0 < n" using takes by blast
    then have "n \<le> length (owed (Some it'))" using accepts [OF call(1)] slices_concat [OF it'(2)] by (simp add: owed_def)
    note adv = owed_advance [OF it'(2) this call(2)]
    have go: "advance it' n = (Ok (it'\<lparr>ei_consumed := ei_consumed it' + n\<rparr>) :: (encoder_item, error_kind) rres)"
      using adv(1) by (simp add: advance_Ok)
    have "poll_write_pending wr t pending io = poll_write_pending wr t (Some (it'\<lparr>ei_consumed := ei_consumed it' + n\<rparr>)) io'"
      using it it'(1) call go by (subst poll_write_pending.simps) simp
    then show ?thesis using IH [OF it(1,2) it'(1) call(1) [symmetric] refl refl _ go] call(2) adv(2) 1(2) by simp
  qed
qed

end

text \<open>Also its flush and its shutdown are done at once.\<close>

definition accepting :: "'io transport \<Rightarrow> ('io \<Rightarrow> u8 list) \<Rightarrow> bool" where
  "accepting tr written \<longleftrightarrow> ready_sink (t_write tr) written
     \<and> (\<forall>io. fst (t_flush tr io) = Ready (Ok ())) \<and> (\<forall>io. fst (t_shutdown tr io) = Ready (Ok ()))"

lemma codec_op_ready:
  assumes acc: "accepting tr written" and ok: "codec_ok c"
  shows "fst (codec_poll_ready tr now c) = Ready (Ok ())" "fst (codec_poll_flush tr now c) = Ready (Ok ())"
    "fst (codec_poll_close tr now c) = Ready (Ok ())"
proof -
  have items: "\<forall>it. cd_pending c = Some it \<longrightarrow> item_ok it" using ok by (simp add: codec_ok_def)
  have sink: "ready_sink (t_write tr) written" using acc by (simp add: accepting_def)
  obtain q p io where w: "poll_write_pending (t_write tr) (clock_micros (cd_clock c) now) (cd_pending c) (cd_io c) = (q, p, io)" by (metis prod_cases3)
  then have q: "q = Ready (Ok ())"
    using ready_sink.write_ready [OF sink refl items, of "clock_micros (cd_clock c) now" "cd_io c"] by simp
  obtain io1 io2 where "t_flush tr io = (Ready (Ok ()), io1)" "t_shutdown tr io = (Ready (Ok ()), io2)"
    using acc by (metis accepting_def prod.collapse)
  then show "fst (codec_poll_ready tr now c) = Ready (Ok ())" "fst (codec_poll_flush tr now c) = Ready (Ok ())"
    "fst (codec_poll_close tr now c) = Ready (Ok ())"
    by (simp_all add: codec_poll_ready_def codec_poll_flush_def codec_poll_close_def sink_finish_def w q)
qed

lemma recover_writer_ready:
  "recover_writer tr now shut t c = (r, t', c') \<Longrightarrow> transport_ok tr taken written \<Longrightarrow> accepting tr written
    \<Longrightarrow> codec_in taken c ds \<Longrightarrow> writer_inv written t c fs \<Longrightarrow> r = Ready (Ok ())"
proof (induction tr now shut t c rule: recover_writer.induct)
  case (1 tr now shut c)
  obtain q c1 where op: "codec_poll_ready tr now c = (q, c1)" by fastforce
  note w = writer_op [OF "1.prems"(2,4,5) disjI1 [OF op]]
  have "codec_ok c" using "1.prems"(4,5) codec_ok_of by (auto simp: writer_inv_def)
  then have q: "q = Ready (Ok ())" using codec_op_ready(1) [OF "1.prems"(3)] op by (metis fst_conv)
  then obtain c2 where c2: "codec_start_send c1 frame_terminate = Ok c2" "codec_in taken c2 ds"
    "writer_inv written TermEnqueued c2 fs" using w by (auto elim: writer_start)
  have "recover_writer tr now shut TermEnqueued c2 = (r, t', c')"
    using "1.prems"(1) op q c2(1) by (simp add: recover_writer.simps(1))
  then show ?case using "1.IH" [OF op [symmetric] q refl c2(1) _ "1.prems"(2,3) c2(2,3)] by simp
next
  case (2 tr now shut c)
  have "codec_ok c" using "2.prems"(4,5) codec_ok_of by (auto simp: writer_inv_def)
  note rd = codec_op_ready [OF "2.prems"(3) this]
  show ?case using "2.prems"(1) rd(2,3) [of now]
    by (cases shut) (auto simp: recover_writer.simps split: prod.splits)
next
  case (3 tr now shut c)
  have "codec_ok c" using "3.prems"(4,5) codec_ok_of by (auto simp: writer_inv_def)
  note rd = codec_op_ready [OF "3.prems"(3) this]
  show ?case using "3.prems"(1) rd(3) [of now]
    by (cases shut) (auto simp: recover_writer.simps split: prod.splits)
next
  case (4 tr now shut c)
  then show ?case by (simp add: recover_writer.simps(4))
qed

subsection \<open>Polling the future\<close>

definition clean_end :: "('io \<Rightarrow> u8 list) \<Rightarrow> ('io \<Rightarrow> u8 list) \<Rightarrow> 'io \<Rightarrow> decoded_frame list \<Rightarrow> out_frame list \<Rightarrow> bool" where
  "clean_end taken written io ds fs \<longleftrightarrow> Terminate \<notin> set ds \<and> taken io = concat (map df_bytes ds) @ term_bytes
     \<and> (\<exists>ts. length ts = length fs \<and> written io = concat (map encoding (zip ts fs)) @ term_bytes)"

lemma encoding_term: "encoding (t, frame_terminate) = term_bytes"
  by (simp add: encoding_def term_bytes_def with_ping_def frame_header_def frame_terminate_def frame_payload_def)

lemma clean_end_of:
  assumes "reader_inv taken True c ds" "writer_inv written t c fs" "t = TermFlushed \<or> t = TermShutDown"
  shows "clean_end taken written (cd_io c) ds fs"
proof -
  obtain ts where ts: "length ts = length (fs @ [frame_terminate])"
    "written (cd_io c) @ owed (cd_pending c) = concat (map encoding (zip ts (fs @ [frame_terminate])))" "cd_pending c = None"
    using assms(2,3) by (auto simp: writer_inv_def codec_out_def term_out_def)
  obtain ts' x where "ts = ts' @ [x]" using ts(1) by (cases ts rule: rev_cases) auto
  then show ?thesis using assms(1) ts by (auto simp: clean_end_def reader_inv_def owed_def encoding_term)
qed

lemma poll_recover_reader_ok:
  assumes tr: "transport_ok tr taken written" and lim: "now + never \<le> rt_limit rt"
    and inv: "downgrade_inv taken written d ds fs" and op: "poll_recover_reader rt tr now d = Some (r, d')"
  shows "r \<noteq> Ready Panic \<and> (\<forall>e. r = Ready (Err e) \<longrightarrow> \<not> is_misuse e) \<and> term_sent d' = term_sent d \<and> dg_shutdown d' = dg_shutdown d
    \<and> (r = Pending \<or> r = Ready (Ok ()) \<longrightarrow> (\<exists>ds'. downgrade_inv taken written d' (ds @ ds') fs) \<and> term_received d' = (r = Ready (Ok ())))"
proof (cases "term_received d")
  case True
  then have "r = Ready (Ok ())" "d' = d" using op by (simp_all add: poll_recover_reader_def)
  then show ?thesis using inv True by (auto intro: exI [of _ "[]"])
next
  case False
  then obtain c where c: "dg_codec d = Some c" "reader_inv taken False c ds" "writer_inv written (term_sent d) c fs"
    using inv by (auto simp: downgrade_inv_def)
  then obtain t c' where c': "recover_reader rt tr now c = Some (r, t, c')" "d' = d\<lparr>term_received := t, dg_codec := Some c'\<rparr>"
    using op False by (auto simp: poll_recover_reader_def)
  have done': "reader_done taken written c ds (r, t, c')" by (rule recover_reader_ok [OF c'(1) tr lim c(2)])
  then have "writer_inv written (term_sent d) c' fs"
    using c(3) codec_out_same by (auto simp: reader_done_def writer_inv_def writer_same_def)
  then show ?thesis using done' by (auto simp: reader_done_def c'(2) downgrade_inv_def)
qed

lemma poll_recover_writer_ok:
  assumes tr: "transport_ok tr taken written" and inv: "downgrade_inv taken written d ds fs" and op: "poll_recover_writer tr now d = (r, d')"
  shows "r \<noteq> Ready Panic \<and> (\<forall>e. r = Ready (Err e) \<longrightarrow> \<not> is_misuse e) \<and> downgrade_inv taken written d' ds fs
    \<and> term_received d' = term_received d \<and> dg_shutdown d' = dg_shutdown d
    \<and> (r = Ready (Ok ()) \<longrightarrow> term_sent d' = TermFlushed \<and> \<not> dg_shutdown d \<or> term_sent d' = TermShutDown)"
proof -
  obtain c where c: "dg_codec d = Some c" "reader_inv taken (term_received d) c ds" "writer_inv written (term_sent d) c fs"
    using inv by (auto simp: downgrade_inv_def)
  obtain t c' where c': "recover_writer tr now (dg_shutdown d) (term_sent d) c = (r, t, c')" "d' = d\<lparr>term_sent := t, dg_codec := Some c'\<rparr>"
    using op c(1) by (auto simp: poll_recover_writer_def split: prod.splits)
  have "codec_in taken c (ds @ term_in (term_received d))" using c(2) by (simp add: reader_inv_def)
  from recover_writer_ok [OF c'(1) tr this c(3)] show ?thesis
    using c(2) by (auto simp: c'(2) downgrade_inv_def reader_inv_def)
qed

lemma downgraded_poll_ok:
  assumes tr: "transport_ok tr taken written" and lim: "now + never \<le> rt_limit rt"
    and inv: "downgrade_inv taken written d ds fs" and op: "downgraded_poll rt tr now d = Some (r, d')"
  shows "r \<noteq> Ready Panic \<and> (\<forall>e. r = Ready (Err e) \<longrightarrow> \<not> is_user e)
    \<and> (r = Pending \<longrightarrow> (\<exists>ds'. downgrade_inv taken written d' (ds @ ds') fs))
    \<and> (\<forall>io. r = Ready (Ok io) \<longrightarrow> dg_codec d' = None \<and> (\<exists>ds'. clean_end taken written io (ds @ ds') fs))"
proof -
  obtain rd d1 where rd: "poll_recover_reader rt tr now d = Some (rd, d1)" using op by (auto simp: downgraded_poll_def split: option.splits)
  note ro = poll_recover_reader_ok [OF tr lim inv rd]
  obtain wr d2 where wr: "poll_recover_writer tr now d1 = (wr, d2)" by fastforce
  show ?thesis
  proof (cases "rd = Pending \<or> rd = Ready (Ok ())")
    case False
    then obtain e where "rd = Ready (Err e)" using ro by (metis old.unit.exhaust poll.exhaust rres.exhaust)
    then show ?thesis using op rd ro by (auto simp: downgraded_poll_def)
  next
    case True
    then obtain ds' where ds': "downgrade_inv taken written d1 (ds @ ds') fs" "term_received d1 = (rd = Ready (Ok ()))" using ro by blast
    note wo = poll_recover_writer_ok [OF tr ds'(1) wr]
    obtain c where c: "dg_codec d2 = Some c" "reader_inv taken (term_received d2) c (ds @ ds')" "writer_inv written (term_sent d2) c fs"
      using wo by (auto simp: downgrade_inv_def)
    have clean: "clean_end taken written (cd_io c) (ds @ ds') fs" if "rd = Ready (Ok ())" "wr = Ready (Ok ())"
      using clean_end_of [OF _ c(3)] c(2) wo ds'(2) that by auto
    consider e where "wr = Ready (Err e)" | "wr = Pending" | "wr = Ready (Ok ())"
      using wo by (metis old.unit.exhaust poll.exhaust rres.exhaust)
    then show ?thesis
    proof cases
      case 1
      then show ?thesis using op rd wr wo True by (auto simp: downgraded_poll_def)
    next
      case 2
      then show ?thesis using op rd wr wo True ds' by (auto simp: downgraded_poll_def)
    next
      case 3
      then show ?thesis using op rd wr wo True ds' c clean by (auto simp: downgraded_poll_def into_inner_def)
    qed
  qed
qed

lemma downgraded_poll_returns:
  assumes tr: "transport_ok tr taken written" and src: "buffered_source (t_read tr) taken ahead" and lim: "now + never \<le> rt_limit rt"
    and inv: "downgrade_inv taken written d ds fs"
  shows "\<exists>r d'. downgraded_poll rt tr now d = Some (r, d')"
proof -
  obtain c where c: "dg_codec d = Some c" "reader_inv taken (term_received d) c ds" using inv by (auto simp: downgrade_inv_def)
  have "\<exists>rd d1. poll_recover_reader rt tr now d = Some (rd, d1)"
  proof (cases "term_received d")
    case False
    then have "reader_inv taken False c ds" using c(2) by simp
    from recover_reader_returns [OF tr src lim this] obtain res where "recover_reader rt tr now c = Some res" ..
    then show ?thesis using c(1) by (cases res) (auto simp: poll_recover_reader_def)
  qed (auto simp: poll_recover_reader_def)
  then obtain rd d1 where "poll_recover_reader rt tr now d = Some (rd, d1)" by blast
  then show ?thesis
    by (auto simp: downgraded_poll_def split: poll.splits rres.splits prod.splits option.splits)
qed

text \<open>
  The future between two polls: it is polled, it is told to shut the transport down, and the transport
  changes without us (bytes of the peer arrive).
\<close>

inductive downgrade_step :: "runtime \<Rightarrow> 'io transport \<Rightarrow> ('io \<Rightarrow> u8 list) \<Rightarrow> ('io \<Rightarrow> u8 list) \<Rightarrow> 'io downgraded \<Rightarrow> 'io downgraded \<Rightarrow> bool"
  for rt tr taken written where
  polls: "now + never \<le> rt_limit rt \<Longrightarrow> downgraded_poll rt tr now d = Some (Pending, d') \<Longrightarrow> downgrade_step rt tr taken written d d'"
| shuts: "downgrade_step rt tr taken written d (with_shutdown d)"
| moves: "dg_codec d = Some c \<Longrightarrow> taken io = taken (cd_io c) \<Longrightarrow> written io = written (cd_io c)
    \<Longrightarrow> downgrade_step rt tr taken written d (d\<lparr>dg_codec := Some (c\<lparr>cd_io := io\<rparr>)\<rparr>)"

lemma downgrade_step_inv:
  assumes "downgrade_step rt tr taken written d d'" "transport_ok tr taken written" "downgrade_inv taken written d ds fs"
  shows "\<exists>ds'. downgrade_inv taken written d' (ds @ ds') fs"
  using assms(1)
proof cases
  case (polls now)
  then show ?thesis using downgraded_poll_ok [OF assms(2) _ assms(3)] by blast
next
  case shuts
  then show ?thesis using assms(3) by (intro exI [of _ "[]"]) (simp add: with_shutdown_def downgrade_inv_def)
next
  case (moves c io)
  then show ?thesis using assms(3)
    by (intro exI [of _ "[]"]) (auto simp: downgrade_inv_def reader_inv_def writer_inv_def codec_in_def codec_out_def)
qed

lemma downgrade_steps_inv:
  assumes "(downgrade_step rt tr taken written)\<^sup>*\<^sup>* d d'" "transport_ok tr taken written" "downgrade_inv taken written d ds fs"
  shows "\<exists>ds'. downgrade_inv taken written d' (ds @ ds') fs"
  using assms(1)
proof (induction rule: rtranclp_induct)
  case base
  then show ?case using assms(3) by (intro exI [of _ "[]"]) simp
next
  case (step d1 d2)
  then show ?case using downgrade_step_inv [OF step(2) assms(2)] by (metis append.assoc)
qed

lemma downgraded_new_inv:
  "reader_inv taken was_received c ds \<Longrightarrow> codec_out written c fs \<Longrightarrow> downgrade_inv taken written (downgraded_new c was_received) ds fs"
  by (simp add: downgrade_inv_def downgraded_new_def writer_inv_def term_out_def)

text \<open>The bytes that arrived, after the frames \<open>ds\<close> that were decoded, are frames of the peer and then its \<open>TERM\<close>.\<close>

definition term_arrived :: "('io \<Rightarrow> u8 list) \<Rightarrow> ('io \<Rightarrow> u8 list) \<Rightarrow> 'io downgraded \<Rightarrow> decoded_frame list \<Rightarrow> bool" where
  "term_arrived taken ahead d ds \<longleftrightarrow> term_received d \<or> (\<exists>c ds' rest. dg_codec d = Some c
     \<and> taken (cd_io c) @ ahead (cd_io c) = concat (map df_bytes (ds @ ds')) @ term_bytes @ rest
     \<and> (\<forall>x \<in> set ds'. df_valid (cd_frame_limit c) x \<and> x \<noteq> Terminate))"

lemma reader_ready:
  assumes "transport_ok tr taken written" "ready_source (t_read tr) taken ahead" "now + never \<le> rt_limit rt"
    and "downgrade_inv taken written d ds fs" "term_arrived taken ahead d ds"
  shows "\<exists>d1. poll_recover_reader rt tr now d = Some (Ready (Ok ()), d1)"
proof (cases "term_received d")
  case False
  then obtain c ds' rest where c: "dg_codec d = Some c" "taken (cd_io c) @ ahead (cd_io c) = concat (map df_bytes (ds @ ds')) @ term_bytes @ rest"
    "\<forall>x \<in> set ds'. df_valid (cd_frame_limit c) x \<and> x \<noteq> Terminate" using assms(5) by (auto simp: term_arrived_def)
  have "reader_inv taken False c ds" using assms(4) c(1) False by (auto simp: downgrade_inv_def)
  from reader_finds_term [OF assms(1-3) this c(2,3)] show ?thesis using c(1) False by (auto simp: poll_recover_reader_def)
qed (simp add: poll_recover_reader_def)

lemma downgraded_poll_completes:
  assumes "transport_ok tr taken written" "ready_source (t_read tr) taken ahead" "accepting tr written" "now + never \<le> rt_limit rt"
    and "downgrade_inv taken written d ds fs" "term_arrived taken ahead d ds"
  shows "\<exists>io d'. downgraded_poll rt tr now d = Some (Ready (Ok io), d')"
proof -
  obtain d1 where rd: "poll_recover_reader rt tr now d = Some (Ready (Ok ()), d1)" using reader_ready [OF assms(1,2,4-6)] by blast
  obtain ds' where d1: "downgrade_inv taken written d1 (ds @ ds') fs" using poll_recover_reader_ok [OF assms(1,4,5) rd] by blast
  then obtain c where c: "dg_codec d1 = Some c" "codec_in taken c (ds @ ds' @ term_in (term_received d1))" "writer_inv written (term_sent d1) c fs"
    by (auto simp: downgrade_inv_def reader_inv_def)
  obtain r t c' where w: "recover_writer tr now (dg_shutdown d1) (term_sent d1) c = (r, t, c')" by (metis prod_cases3)
  have "r = Ready (Ok ())" by (rule recover_writer_ready [OF w assms(1,3) c(2,3)])
  then show ?thesis using rd c(1) w by (simp add: downgraded_poll_def poll_recover_writer_def)
qed

subsection \<open>A pair of pipes in memory\<close>

text \<open>
  The two ends of \<^verbatim>\<open>tokio::io::duplex\<close>: what is written into a pipe can be read at its other end.
\<close>

record pipe_pair =
  pd_in :: pipe
  pd_out :: pipe

definition pipe_write :: "pipe wr" where
  "pipe_write p bufs = (Ready (Ok (length (concat bufs))), p\<lparr>pp_ahead := pp_ahead p @ concat bufs\<rparr>)"

definition pipe_transport :: "pipe_pair transport" where
  "pipe_transport = \<lparr>
     t_read = (\<lambda>d n. map_prod id (\<lambda>p. d\<lparr>pd_in := p\<rparr>) (pipe_read (pd_in d) n)),
     t_write = (\<lambda>d bufs. map_prod id (\<lambda>p. d\<lparr>pd_out := p\<rparr>) (pipe_write (pd_out d) bufs)),
     t_flush = (\<lambda>d. (Ready (Ok ()), d)),
     t_shutdown = (\<lambda>d. (Ready (Ok ()), d\<lparr>pd_out := (pd_out d)\<lparr>pp_closed := True\<rparr>\<rparr>))\<rparr>"

abbreviation pd_taken :: "pipe_pair \<Rightarrow> u8 list" where
  "pd_taken d \<equiv> pp_taken (pd_in d)"

abbreviation pd_ahead :: "pipe_pair \<Rightarrow> u8 list" where
  "pd_ahead d \<equiv> pp_ahead (pd_in d)"

abbreviation pd_written :: "pipe_pair \<Rightarrow> u8 list" where
  "pd_written d \<equiv> pp_taken (pd_out d) @ pp_ahead (pd_out d)"

interpretation pipes: ready_sink "t_write pipe_transport" pd_written
  by unfold_locales (auto simp: pipe_transport_def pipe_write_def)

interpretation pipes: byte_transport "t_read pipe_transport" pd_taken "t_write pipe_transport" pd_written
  "t_flush pipe_transport" "t_shutdown pipe_transport"
  by unfold_locales (auto simp: pipe_transport_def pipe_read_def pipe_write_def Let_def split: if_splits)

interpretation pipes: ready_source "t_read pipe_transport" pd_taken pd_ahead
proof unfold_locales
  show "\<exists>bs io'. t_read pipe_transport io n = (Ready (Ok bs), io') \<and> bs \<noteq> []" if "pd_ahead io \<noteq> []" "0 < n" for io n
    using that pipe.ready [of "pd_in io" n] by (auto simp: pipe_transport_def map_prod_def)
  show "pd_taken io' @ pd_ahead io' = pd_taken io @ pd_ahead io" if "t_read pipe_transport io n = (p, io')" for io n p io'
    using that pipe.conserved [of "pd_in io" n p "pd_in io'"] by (auto simp: pipe_transport_def map_prod_def split: prod.splits)
qed

lemma pipe_transport_ok: "transport_ok pipe_transport pd_taken pd_written"
  unfolding transport_ok_def by (rule pipes.byte_transport_axioms)

lemma pipe_accepting: "accepting pipe_transport pd_written"
  using pipes.ready_sink_axioms by (simp add: accepting_def pipe_transport_def)

definition demo_pipes :: pipe_pair where
  "demo_pipes = \<lparr>pd_in = \<lparr>pp_ahead = term_bytes @ [1, 2], pp_taken = [], pp_closed = False, pp_size = 3\<rparr>,
     pd_out = \<lparr>pp_ahead = [], pp_taken = [], pp_closed = False, pp_size = 3\<rparr>\<rparr>"

definition demo_downgraded :: "pipe_pair downgraded" where
  "demo_downgraded = downgraded_new \<lparr>cd_io = demo_pipes, cd_pending = None, cd_decoder = decoder_default, cd_frame_limit = 11,
     cd_clock = clock_new 0, cd_sleep_at = 7, cd_timeout = 7\<rparr> False"

lemma demo_downgrade_inv: "downgrade_inv pd_taken pd_written demo_downgraded [] []"
  unfolding demo_downgraded_def
  by (rule downgraded_new_inv) (auto simp: reader_inv_def term_in_def codec_in_def codec_out_def demo_pipes_def owed_def
      intro: dec_rep_default)

lemma demo_term_arrived: "term_arrived pd_taken pd_ahead demo_downgraded []"
  unfolding term_arrived_def by (intro disjI2 exI [of _ "the (dg_codec demo_downgraded)"] exI [of _ "[]"] exI [of _ "[1, 2]"])
    (simp add: demo_downgraded_def downgraded_new_def demo_pipes_def)

lemma demo_limit: "1 + never \<le> rt_limit demo_rt"
  by (simp add: demo_rt_def)

subsection \<open>The properties\<close>

text \<open>
  C17. A poll of the downgrade returns, on every transport that has finitely many bytes to
  read, and does not panic before the future was completed; it fails only because of the transport or the peer.
\<close>

theorem downgrade_returns:
  assumes "transport_ok tr taken written" and "buffered_source (t_read tr) taken ahead" and "now + never \<le> rt_limit rt"
    and "downgrade_inv taken written d ds fs"
  shows "\<exists>r d'. downgraded_poll rt tr now d = Some (r, d') \<and> r \<noteq> Ready Panic \<and> (\<forall>e. r = Ready (Err e) \<longrightarrow> \<not> is_user e)"
proof -
  obtain r d' where run: "downgraded_poll rt tr now d = Some (r, d')" using downgraded_poll_returns [OF assms] by blast
  then show ?thesis using downgraded_poll_ok [OF assms(1,3,4) run] by blast
qed

theorem downgrade_returns_witness: "\<exists>r d'. downgraded_poll demo_rt pipe_transport 1 demo_downgraded = Some (r, d') \<and> r \<noteq> Ready Panic"
  using downgrade_returns [OF pipe_transport_ok pipes.buffered_source_axioms demo_limit demo_downgrade_inv] by blast

text \<open>
  C16. A downgrade completes. When the \<^verbatim>\<open>TERM\<close> of the peer is among the bytes that arrived, behind any number of
  other frames, and the transport takes what is written, a single poll gives the transport back, whatever
  was still to be written.
\<close>

theorem downgrade_completes:
  assumes "transport_ok tr taken written" and "ready_source (t_read tr) taken ahead" and "accepting tr written"
    and "now + never \<le> rt_limit rt" and "downgrade_inv taken written d ds fs" and "term_arrived taken ahead d ds"
  shows "\<exists>io d'. downgraded_poll rt tr now d = Some (Ready (Ok io), d')"
  using assms by (rule downgraded_poll_completes)

theorem downgrade_completes_witness: "\<exists>io d'. downgraded_poll demo_rt pipe_transport 1 demo_downgraded = Some (Ready (Ok io), d')"
  using downgrade_completes [OF pipe_transport_ok pipes.ready_source_axioms pipe_accepting demo_limit demo_downgrade_inv demo_term_arrived] .

end
