(* ===== verification/Streams_End.thy ===== *)
theory Streams_End
  imports Streams
begin

text \<open>
  What becomes of the streams that a connection does not know any more. A stream leaves the tables only when it is
  closed on both sides (\<open>gone_ok\<close>), in every history of the operations of \<^verbatim>\<open>src/connection/streams.rs\<close>, those that
  fail included. So when the streams are dropped, every stream that the application ever got is over
  (\<open>streams_over\<close>), and the tasks of the application that were parked on it have been woken: an operation of the
  connection leaves a parked task where it is or wakes it, and dropping the streams wakes all of them.
\<close>

section \<open>Specification\<close>

definition gone_ok :: "streams \<Rightarrow> bool" where
  [inv_defs]: "gone_ok sm \<longleftrightarrow> (\<forall>s < sm_fresh sm. s \<notin> set (handles sm) \<longrightarrow> is_dead (stream_fin_state (sm_store sm s)))"

text \<open>
  A stream on which nothing can wait: what arrived can be read, followed by the end of the stream, and writing fails.
\<close>

definition stream_over :: "sref \<Rightarrow> stream_state \<Rightarrow> bool" where
  "stream_over me st \<longleftrightarrow> (\<exists>ds. \<forall>k w d.
       read_times (length ds + k) (st_in st) w me = map (\<lambda>d. Ready (Some d)) ds @ replicate k (Ready None)
       \<and> fst (poll_write_ready (st_out st) w) = Ready (Err BrokenPipe) \<and> fst (out_write (st_out st) d me) = Err BrokenPipe
       \<and> fst (poll_flushed (st_out st) w) = Ready ())"

section \<open>Lemmas\<close>

subsection \<open>Streams that are closed on both sides\<close>

lemma dead_closed:
  "is_dead (stream_fin_state st) \<longleftrightarrow> in_state (st_in st) = InClosed \<lparr>sent = True, received = True\<rparr>
     \<and> out_state (st_out st) = OutClosed \<lparr>sent = True, received = True\<rparr>"
  by (auto simp: is_dead_def stream_fin_state_def fin_and_def in_fin_state_def out_fin_state_def fin_default_def
      split: inbound_state.splits outbound_state.splits)

lemma app_step_dead:
  assumes "app_step me st st'" "is_dead (stream_fin_state st)"
  shows "is_dead (stream_fin_state st')"
  using assms(1)
proof cases
  case (ready h w)
  then show ?thesis using assms(2) by (auto simp: dead_closed sink_poll_ready_def poll_write_ready_def split_beta Let_def split: poll.splits if_splits)
next
  case (send h d)
  then show ?thesis using assms(2) by (auto simp: dead_closed sink_start_send_def out_write_def split_beta Let_def split: rres.splits)
next
  case (flush h w)
  then show ?thesis using assms(2) by (auto simp: dead_closed sink_poll_flush_def poll_flushed_def split_beta Let_def split: poll.splits if_splits)
next
  case (close h w)
  then show ?thesis using assms(2) by (auto simp: dead_closed sink_poll_close_def close_writing_def poll_flushed_def split_beta Let_def split: poll.splits if_splits)
next
  case (drop_sink h)
  then show ?thesis using assms(2) by (auto simp: dead_closed sink_drop_def close_writing_def split_beta Let_def split: if_splits)
next
  case (read_next h w r h' ws)
  then show ?thesis using assms(2) by (auto simp: dead_closed stream_poll_next_def in_poll_read_def split_beta Let_def split: if_splits)
next
  case (drop_stream h)
  then show ?thesis using assms(2) by (auto simp: dead_closed stream_drop_def in_close_reading_def split_beta Let_def split: if_splits)
qed

lemma dead_over: "is_dead (stream_fin_state st) \<Longrightarrow> stream_over me st"
  unfolding stream_over_def dead_closed
  by (intro exI [of _ "[]"]) (simp add: read_times_closed poll_write_ready_def out_write_def poll_flushed_def)

lemma aborted_over: "stream_inv st \<Longrightarrow> stream_over me (fst (handle_abort st me))"
  unfolding stream_over_def using aborted_drains by (intro exI [of _ "in_queued (st_in st)"]) blast

subsection \<open>No operation forgets an open stream\<close>

lemma gone_step:
  assumes "gone_ok sm" "sm_fresh sm' = sm_fresh sm" "\<And>x. x \<notin> set (handles sm) \<Longrightarrow> sm_store sm' x = sm_store sm x"
    and "\<And>x. x \<in> set (handles sm) \<Longrightarrow> x \<notin> set (handles sm') \<Longrightarrow> is_dead (stream_fin_state (sm_store sm' x))"
  shows "gone_ok sm'"
  using assms unfolding gone_ok_def by metis

lemma gone_start:
  assumes "gone_ok sm" "sm_fresh sm' = Suc (sm_fresh sm)" "set (handles sm') = insert (sm_fresh sm) (set (handles sm))"
    and "\<And>x. x \<noteq> sm_fresh sm \<Longrightarrow> sm_store sm' x = sm_store sm x"
  shows "gone_ok sm'"
  using assms by (auto simp: gone_ok_def less_Suc_eq)

lemma hand_over_gone:
  assumes inv: "streams_inv sm" and s: "handle_of sm (sh_id h) = Some s" and len: "length d \<le> u32_max"
    and gone: "gone_ok sm" and op: "hand_over fexp h d s new sm now = (r, sm', ws)"
  shows "gone_ok sm'"
proof -
  note hi = hand_over_inv [OF inv s len op]
  have t: "tables_ok sm" using inv by (simp add: streams_inv_def)
  have hs: "s \<in> set (handles sm)" using handles_iff [OF t] s by blast
  show ?thesis
  proof (rule gone_step [OF gone])
    show "sm_fresh sm' = sm_fresh sm" using hi(4) by simp
    show "sm_store sm' x = sm_store sm x" if "x \<notin> set (handles sm)" for x using hi(4) that hs by auto
    fix x assume x: "x \<in> set (handles sm)" "x \<notin> set (handles sm')"
    show "is_dead (stream_fin_state (sm_store sm' x))"
    proof (cases r)
      case (Ok y)
      then obtain fin st flow ws1 where rcv: "handle_received fexp (sh_credit h) d (sh_flags h) (sm_store sm s) (sm_flow sm) s now = Ok (fin, st, flow, ws1)"
        using hi(5) by (metis prod_cases4)
      let ?sm = "sm\<lparr>sm_store := (sm_store sm)(s := st), sm_flow := flow\<rparr>"
      have same: "handle_of ?sm = handle_of sm" "handles ?sm = handles sm" by (rule handle_of_cong; simp)+
      have fin: "fin = stream_fin_state st" using rcv by (auto simp: handle_received_def)
      have dead: "is_dead fin" using op rcv x same(2) by (auto split: if_splits simp: hand_over_def Let_def)
      have t': "tables_ok ?sm" using t same by (simp add: tables_ok_def)
      have s': "handle_of ?sm (sh_id h) = Some s" using s same(1) by simp
      from sm_remove_ok [OF t' s'] obtain sm2 where sm2: "sm_remove (sh_id h) ?sm = (Ok sm2 :: (streams, error_kind) rres)"
        "set (handles sm2) = set (handles ?sm) - {s}" "sm_store sm2 = sm_store ?sm" .
      have "sm' = sm2" using op rcv dead sm2(1) by (simp add: hand_over_def)
      then show ?thesis using x sm2 dead fin same by auto
    next
      case (Err e)
      then show ?thesis using hi(3) x by simp
    qed (use hi(1) in simp)
  qed
qed

lemma receive_gone:
  assumes inv: "streams_inv sm" and len: "length d \<le> u32_max" and gone: "gone_ok sm" and op: "receive fexp h d sm now = (r, sm', ws)"
  shows "gone_ok sm'"
  using inv
proof (cases rule: receive_cases [where fexp = fexp and h = h and d = d and now = now])
  case (refused m)
  then show ?thesis using op gone by simp
next
  case (known s)
  have "hand_over fexp h d s None sm now = (r, sm', ws)" using op known(3) by simp
  then show ?thesis by (rule hand_over_gone [OF inv known(1) len gone])
next
  case (started sm1)
  have "gone_ok sm1" by (rule gone_start [OF gone started(6,14,9)])
  moreover have "hand_over fexp h d (sm_fresh sm) (Some (duplex_new (sh_id h), sm_fresh sm)) sm1 now = (r, sm', ws)"
    using op started(12) by simp
  ultimately show ?thesis by (rule hand_over_gone [OF started(4,5) len])
qed

lemma select_store:
  "select_next fexp order sm now = (r, sm', ws) \<Longrightarrow> x \<notin> fst ` set (sm_updates sm)
    \<Longrightarrow> sm_store sm' x = sm_store sm x"
proof (induction order arbitrary: sm ws)
  case (Cons s order)
  show ?case
  proof (cases "map_of (sm_updates sm) s")
    case None
    then show ?thesis using Cons by auto
  next
    case (Some this)
    obtain r1 this' st flow ws1 where poll: "poll_progress fexp this (sm_store sm s) (sm_flow sm) s now = (r1, this', st, flow, ws1)"
      by (metis prod_cases5)
    let ?sm = "sm\<lparr>sm_store := (sm_store sm)(s := st), sm_flow := flow, sm_updates := AList.update s this' (sm_updates sm)\<rparr>"
    have mem: "s \<in> fst ` set (sm_updates sm)" using map_of_SomeD [OF Some] by force
    have keys: "fst ` set (sm_updates ?sm) = fst ` set (sm_updates sm)"
      using arg_cong [OF map_fst_update [OF mem, of this'], of set] by simp
    have x: "sm_store ?sm x = sm_store sm x" using mem Cons.prems(2) by auto
    show ?thesis
    proof (cases r1)
      case Pending
      obtain ws2 where "select_next fexp order ?sm now = (r, sm', ws2)"
        using Cons.prems(1) Some poll Pending by (auto split: prod.splits)
      from Cons.IH [OF this] keys Cons.prems(2) x show ?thesis by simp
    next
      case (Ready pr)
      then show ?thesis using Cons.prems(1) Some poll x by (auto simp: Let_def split: prod.splits control_flow.splits)
    qed
  qed
qed simp

lemma poll_update_gone:
  assumes inv: "streams_inv sm" and gone: "gone_ok sm" and op: "poll_update fexp order sm now = (r, sm', ws)"
  shows "gone_ok sm'"
proof -
  obtain q sm1 ws1 where sel: "select_next fexp order sm now = (q, sm1, ws1)" by (metis prod_cases3)
  note si = select_inv [OF inv sel]
  have t: "tables_ok sm" "tasks_ok sm" using inv by (simp_all add: streams_inv_def)
  have t1: "tables_ok sm1"
  proof (cases q)
    case (Ready uf)
    then show ?thesis using si(2) [of "fst uf" "snd uf"] by (auto simp: chosen_def streams_inv_def split: if_splits)
  qed (use si(1) in \<open>simp add: streams_inv_def\<close>)
  have same: "set (handles sm1) = set (handles sm)" using handles_iff [OF t(1)] handles_iff [OF t1] si(4) by auto
  have "x \<notin> fst ` set (sm_updates sm)" if "x \<notin> set (handles sm)" for x using that t(2) by (auto simp: tasks_ok_def)
  then have gone1: "gone_ok sm1" using select_store [OF sel] si(3) same by (intro gone_step [OF gone]) auto
  show ?thesis
  proof (cases "\<exists>u fin. q = Ready (u, fin) \<and> is_dead fin")
    case False
    then show ?thesis using op sel gone1 by (auto simp: poll_update_def split: poll.splits prod.splits if_splits)
  next
    case True
    then obtain u fin where q: "q = Ready (u, fin)" "is_dead fin" by blast
    then obtain s where s: "handle_of sm1 (su_id u) = Some s" "fin = stream_fin_state (sm_store sm1 s)" using si(2) by (auto simp: chosen_def)
    from sm_remove_ok [OF t1 s(1)] obtain sm2 where sm2: "sm_remove (su_id u) sm1 = (Ok sm2 :: (streams, error_kind) rres)"
      "set (handles sm2) = set (handles sm1) - {s}" "sm_store sm2 = sm_store sm1" "sm_fresh sm2 = sm_fresh sm1" .
    have "sm' = sm2" using op sel q sm2(1) by (simp add: poll_update_def)
    then show ?thesis using sm2 s(2) q(2) by (intro gone_step [OF gone1]) auto
  qed
qed

lemma open_outbound_gone:
  assumes "gone_ok sm" "open_outbound key sm now = (r, sm')"
  shows "gone_ok sm'"
proof (cases r)
  case None
  then show ?thesis using assms open_None by blast
next
  case (Some dx)
  show ?thesis by (rule open_outbound_Some [OF assms(2) [unfolded Some]], rule gone_start [OF assms(1)]) (auto simp: handles_def)
qed

lemma app_gone:
  assumes "gone_ok sm" "app_step s (sm_store sm s) st"
  shows "gone_ok (sm\<lparr>sm_store := (sm_store sm)(s := st)\<rparr>)"
proof -
  have "handles (sm\<lparr>sm_store := (sm_store sm)(s := st)\<rparr>) = handles sm" by (rule handle_of_cong) simp_all
  then show ?thesis using assms app_step_dead by (auto simp: gone_ok_def)
qed

lemma streams_new_gone: "gone_ok (streams_new role config store)"
  by (simp add: gone_ok_def streams_new_def)

subsection \<open>Dropping the streams\<close>

lemma streams_over:
  assumes "tables_ok sm" "store_ok sm" "gone_ok sm" "streams_drop sm = (store, ws)" "s < sm_fresh sm"
  shows "stream_over s (store s)"
proof -
  have d: "distinct (handles sm)" using assms(1) by (simp add: tables_ok_def)
  have store: "store = (\<lambda>s. if s \<in> set (handles sm) then fst (handle_abort (sm_store sm s) s) else sm_store sm s)"
    using abort_all_store [OF d, of "sm_store sm"] assms(4) by (simp add: streams_drop_def)
  show ?thesis
  proof (cases "s \<in> set (handles sm)")
    case True
    then show ?thesis using aborted_over assms(2,5) by (simp add: store store_ok_def)
  next
    case False
    then show ?thesis using dead_over assms(3,5) by (simp add: store gone_ok_def)
  qed
qed

subsection \<open>Tasks that wait\<close>

text \<open>Of the first \<open>n\<close> streams, every task that waits goes on waiting or is woken.\<close>

definition store_wakes :: "sref \<Rightarrow> (sref \<Rightarrow> stream_state) \<Rightarrow> (sref \<Rightarrow> stream_state) \<Rightarrow> wake list \<Rightarrow> bool" where
  "store_wakes n store store' ws \<longleftrightarrow> (\<forall>s < n. wakes_tasks (store s) (store' s) ws)"

lemma store_wakes_trans:
  assumes "store_wakes n store store1 ws1" "store_wakes n' store1 store2 ws2" "n \<le> n'" "set ws1 \<union> set ws2 \<subseteq> set ws"
  shows "store_wakes n store store2 ws"
  unfolding store_wakes_def
proof (intro allI impI)
  fix s assume "s < n"
  then have "wakes_tasks (store s) (store1 s) ws1" "wakes_tasks (store1 s) (store2 s) ws2" using assms(1-3) by (simp_all add: store_wakes_def)
  then show "wakes_tasks (store s) (store2 s) ws" using assms(4) unfolding wakes_tasks_def by blast
qed

lemma store_wakes_mono: "store_wakes n store store' ws \<Longrightarrow> set ws \<subseteq> set ws' \<Longrightarrow> store_wakes n store store' ws'"
  unfolding store_wakes_def wakes_tasks_def by blast

lemma store_wakes_same: "(\<And>s. s < n \<Longrightarrow> store' s = store s) \<Longrightarrow> store_wakes n store store' ws"
  by (simp add: store_wakes_def wakes_tasks_def)

lemma store_wakes_one:
  assumes "notifies s (store s) (store' s) ws" "\<And>x. x \<noteq> s \<Longrightarrow> store' x = store x"
  shows "store_wakes n store store' ws"
  unfolding store_wakes_def
proof (intro allI impI)
  fix x
  show "wakes_tasks (store x) (store' x) ws"
    using notifies_wakes(2) [OF assms(1)] assms(2) [of x] by (cases "x = s") (simp_all add: wakes_tasks_def)
qed

lemma handle_left_notifies:
  assumes slots: "slots_ok st" and op: "handle_left fexp credit d flags st flow me now = (st', ws)"
  shows "notifies me st st' ws"
proof (cases "handle_credit fexp credit st flow me now")
  case (Ok x)
  then obtain st1 flow1 ws1 where c: "handle_credit fexp credit st flow me now = Ok (st1, flow1, ws1)" by (metis prod_cases3)
  note n1 = handle_credit_notifies(1) [OF slots c]
  note s1 = notifies_wakes(3) [OF n1]
  show ?thesis
  proof (cases "handle_data d st1 flow1")
    case (Ok y)
    then obtain st2 flow2 ws2 where d: "handle_data d st1 flow1 = Ok (st2, flow2, ws2)" by (metis prod_cases3)
    note n2 = handle_data_notifies [OF s1 d, of me]
    note s2 = notifies_wakes(3) [OF n2]
    show ?thesis
    proof (cases "handle_fin_write (fin_write flags) st2 flow2 me")
      case (Ok z)
      then obtain st3 flow3 ws3 where f: "handle_fin_write (fin_write flags) st2 flow2 me = Ok (st3, flow3, ws3)" by (metis prod_cases3)
      from notifies_trans [OF n1 notifies_trans [OF n2 handle_fin_write_notifies [OF s2 f]]] show ?thesis
        using op c d f by (simp add: handle_left_def)
    qed (use op c d notifies_trans [OF n1 n2] in \<open>simp_all add: handle_left_def\<close>)
  qed (use op c n1 in \<open>simp_all add: handle_left_def\<close>)
qed (use op slots in \<open>simp_all add: handle_left_def notifies_def slots_ok_def in_notifies_refl out_notifies_same\<close>)

lemma receive_wakes:
  assumes inv: "streams_inv sm" and len: "length d \<le> u32_max" and op: "receive fexp h d sm now = (r, sm', ws)"
  shows "store_wakes (sm_fresh sm) (sm_store sm) (sm_store sm') ws"
  using inv
proof (cases rule: receive_cases [where fexp = fexp and h = h and d = d and now = now])
  case (refused m)
  then show ?thesis using op store_wakes_same by simp
next
  case (known s)
  have ho: "hand_over fexp h d s None sm now = (r, sm', ws)" using op known(3) by simp
  note hi = hand_over_inv [OF inv known(1) len ho]
  have slots: "slots_ok (sm_store sm s)" by (rule slots_ok [OF handed_stream_ok(2) [OF inv known(1)]])
  have "notifies s (sm_store sm s) (sm_store sm' s) ws"
  proof (cases r)
    case (Ok x)
    from hand_over_Ok [OF ho [unfolded this]] show ?thesis using handle_received_notifies(1) [OF slots] by blast
  next
    case (Err e)
    then obtain m where m: "handle_received fexp (sh_credit h) d (sh_flags h) (sm_store sm s) (sm_flow sm) s now = Err m" using hi(3) by blast
    obtain st ws1 where left: "handle_left fexp (sh_credit h) d (sh_flags h) (sm_store sm s) (sm_flow sm) s now = (st, ws1)" by fastforce
    have "sm_store sm' s = st" "ws = ws1" using ho m left by (auto simp: hand_over_def)
    then show ?thesis using handle_left_notifies [OF slots left] by simp
  qed (use hi(1) in simp)
  then show ?thesis using hi(4) by (intro store_wakes_one) blast+
next
  case (started sm1)
  have "hand_over fexp h d (sm_fresh sm) (Some (duplex_new (sh_id h), sm_fresh sm)) sm1 now = (r, sm', ws)" using op started(12) by simp
  from hand_over_inv(4) [OF started(4,5) len this] started(9) show ?thesis by (intro store_wakes_same) auto
qed

lemma select_wakes:
  "streams_inv sm \<Longrightarrow> select_next fexp order sm now = (r, sm', ws) \<Longrightarrow> store_wakes (sm_fresh sm) (sm_store sm) (sm_store sm') ws"
proof (induction order arbitrary: sm ws)
  case Nil
  then show ?case using store_wakes_same by simp
next
  case (Cons s order)
  show ?case
  proof (cases "map_of (sm_updates sm) s")
    case None
    then show ?thesis using Cons.IH [OF Cons.prems(1), of ws] Cons.prems(2) by simp
  next
    case (Some this)
    obtain r1 this' st flow ws1 where poll: "poll_progress fexp this (sm_store sm s) (sm_flow sm) s now = (r1, this', st, flow, ws1)"
      by (metis prod_cases5)
    define sm1 where sm1: "sm1 = sm\<lparr>sm_store := (sm_store sm)(s := st), sm_flow := flow, sm_updates := AList.update s this' (sm_updates sm)\<rparr>"
    have "stream_inv (sm_store sm s)" by (rule handed_stream_ok(2) [OF Cons.prems(1) poll_task(1) [OF Cons.prems(1) Some poll sm1]])
    from poll_progress_notifies [OF this poll] have one: "store_wakes n (sm_store sm) (sm_store sm1) ws1" for n
      by (intro store_wakes_one [of s]) (simp_all add: sm1)
    show ?thesis
    proof (cases r1)
      case Pending
      obtain ws2 where rest: "select_next fexp order sm1 now = (r, sm', ws2)" "ws = ws1 @ ws2"
        using Cons.prems(2) Some poll Pending by (auto simp: sm1 split: prod.splits)
      note inv1 = poll_task_waits [OF Cons.prems(1) Some poll [unfolded Pending] sm1]
      from store_wakes_trans [OF one Cons.IH [OF inv1 rest(1)]] show ?thesis by (simp add: rest(2) sm1)
    next
      case (Ready pr)
      then have "sm_store sm' = sm_store sm1" "set ws1 \<subseteq> set ws"
        using Cons.prems(2) Some poll by (auto simp: sm1 Let_def split: prod.splits control_flow.splits)
      then show ?thesis using store_wakes_mono [OF one] by simp
    qed
  qed
qed

lemma poll_update_wakes:
  assumes inv: "streams_inv sm" and op: "poll_update fexp order sm now = (r, sm', ws)"
  shows "store_wakes (sm_fresh sm) (sm_store sm) (sm_store sm') ws"
proof -
  obtain q sm1 ws1 where sel: "select_next fexp order sm now = (q, sm1, ws1)" by (metis prod_cases3)
  have "sm_store sm2 = sm_store sm1" if "sm_remove i sm1 = (Ok sm2 :: (_, error_kind) rres)" for i sm2
    using that by (auto simp: sm_remove_def split: if_splits)
  then have "sm_store sm' = sm_store sm1" "ws = ws1"
    using op sel by (auto simp: poll_update_def split: poll.splits prod.splits if_splits rres.splits)
  then show ?thesis using select_wakes [OF inv sel] by simp
qed

lemma abort_all_wakes:
  "distinct ss \<Longrightarrow> s \<in> set ss \<Longrightarrow> set (snd (handle_abort (store s) s)) \<subseteq> set (snd (abort_all ss store))"
proof (induction ss arbitrary: store)
  case (Cons x ss)
  obtain st ws where a: "handle_abort (store x) x = (st, ws)" by fastforce
  show ?case
  proof (cases "s = x")
    case False
    then have "set (snd (handle_abort ((store(x := st)) s) s)) \<subseteq> set (snd (abort_all ss (store(x := st))))"
      using Cons by (intro Cons.IH) simp_all
    then show ?thesis using False a by (auto simp: split_beta Let_def)
  qed (simp add: a split_beta Let_def)
qed simp

lemma dead_not_parked: "is_dead (stream_fin_state st) \<Longrightarrow> parked st = {}"
  by (auto simp: is_dead_def stream_fin_state_def fin_and_def in_fin_state_def out_fin_state_def fin_default_def parked_def in_reader_def
      out_writer_def split: inbound_state.splits outbound_state.splits)

text \<open>When the streams are dropped every task that waits is woken, and none waits any more.\<close>

lemma streams_drop_wakes:
  assumes "tables_ok sm" "store_ok sm" "gone_ok sm" "streams_drop sm = (store, ws)" "s < sm_fresh sm"
  shows "wakes_tasks (sm_store sm s) (store s) ws" "parked (store s) = {}"
proof -
  have d: "distinct (handles sm)" using assms(1) by (simp add: tables_ok_def)
  have store: "store = (\<lambda>s. if s \<in> set (handles sm) then fst (handle_abort (sm_store sm s) s) else sm_store sm s)"
    using abort_all_store [OF d, of "sm_store sm"] assms(4) by (simp add: streams_drop_def)
  have "wakes_tasks (sm_store sm s) (store s) ws \<and> parked (store s) = {}"
  proof (cases "s \<in> set (handles sm)")
    case True
    obtain st ws1 where a: "handle_abort (sm_store sm s) s = (st, ws1)" by fastforce
    have "slots_ok (sm_store sm s)" using assms(2,5) slots_ok by (simp add: store_ok_def)
    note n = handle_abort_notifies [OF this a]
    have "set ws1 \<subseteq> set ws" using abort_all_wakes [OF d True, of "sm_store sm"] a assms(4) by (simp add: streams_drop_def)
    then show ?thesis using True a n(2) notifies_wakes(2) [OF n(1)] by (auto simp: store wakes_tasks_def)
  next
    case False
    then show ?thesis using dead_not_parked assms(3,5) by (simp add: store gone_ok_def wakes_tasks_def)
  qed
  then show "wakes_tasks (sm_store sm s) (store s) ws" "parked (store s) = {}" by blast+
qed

subsection \<open>The properties\<close>

lemma streams_reach_gone:
  assumes "streams_step\<^sup>*\<^sup>* (streams_new role config store) sm" "config_typed config"
  shows "gone_ok sm"
  using assms(1)
proof (induction rule: rtranclp_induct)
  case base
  then show ?case by (rule streams_new_gone)
next
  case (step sm1 sm2)
  have inv: "streams_inv sm1" using streams_reach_inv [OF step(1) assms(2)] by simp
  from step(2) show ?case
  proof cases
    case (opens key now r)
    then show ?thesis using open_outbound_gone [OF step.IH] by blast
  next
    case (receives d fexp h now new ws)
    then show ?thesis using receive_gone [OF inv _ step.IH] by blast
  next
    case (sends fexp order now r ws)
    then show ?thesis using poll_update_gone [OF inv step.IH] by blast
  next
    case (measures_rtt t t' x)
    have "handles (sm1\<lparr>sm_flow := (sm_flow sm1)\<lparr>cf_srtt := x\<rparr>\<rparr>) = handles sm1" by (rule handle_of_cong) simp_all
    then show ?thesis using measures_rtt step.IH by (simp add: gone_ok_def)
  next
    case (app s st)
    then show ?thesis using app_gone [OF step.IH] by simp
  qed
qed

text \<open>
  C12. In every history of the streams of a connection, however the peer, the application and the
  scheduler behave: the limits on the number of streams hold in both directions; neither pool
  exceeds its configured size, and each counts exactly what the windows of the streams borrow; every
  stream keeps its invariant and the windows and frame limit of the configuration;
  the streams that are in the tables are exactly those that are not closed on both sides, each known under one ID; and
  exactly those of them that have not sent both \<^verbatim>\<open>FIN\<close>s have a task, with that ID.
\<close>

theorem streams_safe:
  assumes "streams_step\<^sup>*\<^sup>* (streams_new role config store) sm" and "config_typed config"
  shows "outbound_count sm \<le> unat (max_outbound_streams config) \<and> inbound_count sm \<le> unat (max_inbound_streams config)
    \<and> p_used (rx_pool (sm_flow sm)) \<le> unat (local_recv_pool config) \<and> p_used (tx_pool (sm_flow sm)) \<le> unat (remote_recv_pool config)
    \<and> p_used (rx_pool (sm_flow sm)) = (\<Sum>s < sm_fresh sm. borrowed (in_window (st_in (sm_store sm s))))
    \<and> p_used (tx_pool (sm_flow sm)) = (\<Sum>s < sm_fresh sm. borrowed (out_window (st_out (sm_store sm s))))
    \<and> (\<forall>s < sm_fresh sm. stream_inv (sm_store sm s) \<and> stream_conf config (sm_store sm s))
    \<and> (\<forall>s < sm_fresh sm. (\<exists>i. handle_of sm i = Some s) \<longleftrightarrow> \<not> is_dead (stream_fin_state (sm_store sm s)))
    \<and> (\<forall>i s. handle_of sm i = Some s \<longrightarrow> s < sm_fresh sm \<and> (\<forall>j. handle_of sm j = Some s \<longrightarrow> j = i))
    \<and> (\<forall>s. map_of (sm_updates sm) s \<noteq> None \<longleftrightarrow> (\<exists>i. handle_of sm i = Some s) \<and> \<not> sent (stream_fin_state (sm_store sm s)))
    \<and> (\<forall>s up. map_of (sm_updates sm) s = Some up \<longrightarrow> handle_of sm (up_id up) = Some s)"
proof -
  have inv: "streams_inv sm" "sm_config sm = config" using streams_reach_inv [OF assms] by simp_all
  have t: "tables_ok sm" "limits_ok sm" "store_ok sm" "pools_ok sm" "tasks_ok sm" using inv(1) by (simp_all add: streams_inv_def)
  note h = handles_iff [OF t(1)] and gone = streams_reach_gone [OF assms]
  have "(\<exists>i. handle_of sm i = Some s) \<longleftrightarrow> \<not> is_dead (stream_fin_state (sm_store sm s))" if "s < sm_fresh sm" for s
    using that t(5) gone h by (auto simp: tasks_ok_def gone_ok_def)
  moreover have "s < sm_fresh sm \<and> (\<forall>j. handle_of sm j = Some s \<longrightarrow> j = i)" if "handle_of sm i = Some s" for i s
  proof -
    have "s \<in> set (handles sm)" using that h by blast
    then show ?thesis using that t(1) handle_of_inject [OF t(1)] by (auto simp: tables_ok_def)
  qed
  moreover have "map_of (sm_updates sm) s \<noteq> None \<longleftrightarrow> (\<exists>i. handle_of sm i = Some s) \<and> \<not> sent (stream_fin_state (sm_store sm s))" for s
    using t(5) h by (auto simp: tasks_ok_def map_of_eq_None_iff)
  moreover have "handle_of sm (up_id up) = Some s" if "map_of (sm_updates sm) s = Some up" for s up
    using map_of_SomeD [OF that] t(5) by (auto simp: tasks_ok_def)
  ultimately show ?thesis using t(2-4) inv(2)
    by (simp add: limits_ok_def store_ok_def pools_ok_def flow_ok_def pool_ok_def accounts_def)
qed

theorem streams_safe_witness:
  "outbound_count (snd (open_outbound 3 demo_streams 0)) = 1 \<and> outbound_count (snd (open_outbound 3 demo_streams 0)) \<le> unat (max_outbound_streams demo_config)"
proof -
  have "streams_step demo_streams (snd (open_outbound 3 demo_streams 0))"
    by (rule streams_step.opens [of 3 _ 0 "fst (open_outbound 3 demo_streams 0)"]) (simp_all add: demo_streams_def streams_new_def)
  then have "streams_step\<^sup>*\<^sup>* (streams_new Server demo_config (\<lambda>_. stream_new demo_config 0)) (snd (open_outbound 3 demo_streams 0))"
    by (simp add: demo_streams_def)
  from streams_safe [OF this demo_typed] show ?thesis
    by (simp add: open_outbound_def demo_streams_def streams_new_def outbound_count_def demo_config_def start_stream_def
        from_slab_idx_eq Let_def)
qed

end
