(* ===== verification/Connection.thy ===== *)
theory Connection
  imports Downgrade Streams_End
begin

text \<open>
  The connection (\<^verbatim>\<open>src/connection/state.rs\<close> and \<^verbatim>\<open>src/connection.rs\<close>): the states it goes through, and the operations
  that the user calls. When a connection ends, its streams are dropped; the states \<open>ConnPoisoned\<close>
  and \<open>ConnDowngraded\<close> keep what the application still sees of them, the store of the streams.

  The step relation \<open>conn_step\<close> says what can happen to a connection: the user polls it or opens
  a stream, the application uses its streams, and the transport changes on its own. The
  invariant \<open>conn_inv\<close> holds in all states that are reached, and the theorems say what polling a
  connection does, that failures are final, and that a downgrade gives a clean transport back.
\<close>

section \<open>Definitions\<close>

subsection \<open>The state\<close>

datatype 'io conn_state =
    ConnActive "'io active"
  | ConnPoisoned "sref \<Rightarrow> stream_state"
  | ConnDowngraded "sref \<Rightarrow> stream_state"

fun active_mut :: "'io conn_state \<Rightarrow> ('io active, error_kind) rres" where
  "active_mut (ConnActive a) = Ok a"
| "active_mut (ConnPoisoned _) = Err Poisoned"
| "active_mut (ConnDowngraded _) = Err AlreadyDowngraded"

fun state_downgrade :: "bool \<Rightarrow> 'io conn_state \<Rightarrow> ('io downgraded, error_kind) rres \<times> 'io conn_state \<times> wake list" where
  "state_downgrade was_received (ConnActive a) =
     (let (c, store, ws) = into_codec a in (Ok (downgraded_new c was_received), ConnDowngraded store, ws))"
| "state_downgrade was_received (ConnPoisoned store) = (Err Poisoned, ConnPoisoned store, [])"
| "state_downgrade was_received (ConnDowngraded store) = (Err AlreadyDowngraded, ConnDowngraded store, [])"

text \<open>Dropping the state, when it is replaced.\<close>

fun state_drop :: "'io conn_state \<Rightarrow> (sref \<Rightarrow> stream_state) \<times> wake list" where
  "state_drop (ConnActive a) = streams_drop (ac_streams a)"
| "state_drop (ConnPoisoned store) = (store, [])"
| "state_drop (ConnDowngraded store) = (store, [])"

subsection \<open>The connection\<close>

record 'io connection =
  cn_state :: "'io conn_state"
  cn_role :: rammux_role
  cn_config :: rammux_config

datatype 'io rammux_progress =
    ProgressDowngraded "'io downgraded"
  | ProgressInbound app_stream
  | ProgressEmpty

definition connection_new :: "runtime \<Rightarrow> instant \<Rightarrow> rammux_role \<Rightarrow> 'io \<Rightarrow> rammux_config \<Rightarrow> (sref \<Rightarrow> stream_state)
    \<Rightarrow> ('io connection, config_error) rres" where
  "connection_new rt now role io config store =
     r_bind (config_validate config) (\<lambda>_.
     r_bind (active_new rt now io role config store) (\<lambda>a.
       Ok \<lparr>cn_state = ConnActive a, cn_role = role, cn_config = config\<rparr>))"

definition INBOUND_BATCH :: nat where
  "INBOUND_BATCH = 16"

text \<open>
  The batch of inbound frames. It ends with a \<^verbatim>\<open>TERM\<close>, or with the progress so far (\<open>None\<close> for an empty
  one, the new stream for an inbound one).
\<close>

datatype batch = BatchTerm | BatchDone "app_stream option poll"

fun receive_batch :: "runtime \<Rightarrow> 'io transport \<Rightarrow> (f64 \<Rightarrow> f64) \<Rightarrow> instant \<Rightarrow> nat \<Rightarrow> app_stream option poll \<Rightarrow> 'io active
    \<Rightarrow> (batch, error_kind) rres \<times> 'io active \<times> wake list" where
  "receive_batch rt tr fexp now 0 progress a = (Ok (BatchDone progress), a, [])"
| "receive_batch rt tr fexp now (Suc n) progress a =
     (case poll_receive rt tr fexp now a of
        (Pending, a, ws) \<Rightarrow> (Ok (BatchDone progress), a, ws)
      | (Ready (Ok (ReceivedFrame None)), a, ws) \<Rightarrow>
          (let (r, a, ws') = receive_batch rt tr fexp now n (Ready None) a in (r, a, ws @ ws'))
      | (Ready (Ok (ReceivedFrame (Some dx))), a, ws) \<Rightarrow> (Ok (BatchDone (Ready (Some dx))), a, ws)
      | (Ready (Ok ReceivedTerm), a, ws) \<Rightarrow> (Ok BatchTerm, a, ws)
      | (Ready (Err e), a, ws) \<Rightarrow> (Err e, a, ws)
      | (Ready Panic, a, ws) \<Rightarrow> (Panic, a, ws))"

text \<open>A new stream that cannot be returned because of an error is dropped.\<close>

fun progress_drop :: "app_stream option poll \<Rightarrow> 'io active \<Rightarrow> 'io active \<times> wake list" where
  "progress_drop (Ready (Some (dx, s))) a =
     (let sm = ac_streams a; (st, ws) = duplex_drop dx (sm_store sm s) s
      in (a\<lparr>ac_streams := sm\<lparr>sm_store := (sm_store sm)(s := st)\<rparr>\<rparr>, ws))"
| "progress_drop _ a = (a, [])"

fun progress_of :: "app_stream option poll \<Rightarrow> ('io rammux_progress, error_kind) rres poll" where
  "progress_of Pending = Pending"
| "progress_of (Ready None) = Ready (Ok ProgressEmpty)"
| "progress_of (Ready (Some dx)) = Ready (Ok (ProgressInbound dx))"

type_synonym ('io, 'e) progress_result = "('io rammux_progress, 'e) rres poll \<times> 'io connection \<times> wake list"

definition poll_progress_inner :: "runtime \<Rightarrow> 'io transport \<Rightarrow> (f64 \<Rightarrow> f64) \<Rightarrow> instant \<Rightarrow> sref list list \<Rightarrow> 'io connection
    \<Rightarrow> ('io, error_kind) progress_result option" where
  "poll_progress_inner rt tr fexp now orders conn =
     (case active_mut (cn_state conn) of
        Err e \<Rightarrow> Some (Ready (Err e), conn, [])
      | Panic \<Rightarrow> Some (Ready Panic, conn, [])
      | Ok a \<Rightarrow>
          (case receive_batch rt tr fexp now INBOUND_BATCH Pending a of
             (Err e, a, ws) \<Rightarrow> Some (Ready (Err e), conn\<lparr>cn_state := ConnActive a\<rparr>, ws)
           | (Panic, a, ws) \<Rightarrow> Some (Ready Panic, conn\<lparr>cn_state := ConnActive a\<rparr>, ws)
           | (Ok BatchTerm, a, ws) \<Rightarrow>
               (let (r, st, ws') = state_downgrade True (ConnActive a)
                in Some (Ready (r_bind r (\<lambda>d. Ok (ProgressDowngraded d))), conn\<lparr>cn_state := st\<rparr>, ws @ ws'))
           | (Ok (BatchDone progress), a, ws) \<Rightarrow>
               (case poll_send rt tr fexp now orders a of
                  None \<Rightarrow> None
                | Some (Ready (Err e), a, ws') \<Rightarrow>
                    (let (a, ws'') = progress_drop progress a
                     in Some (Ready (Err e), conn\<lparr>cn_state := ConnActive a\<rparr>, ws @ ws' @ ws''))
                | Some (Ready Panic, a, ws') \<Rightarrow> Some (Ready Panic, conn\<lparr>cn_state := ConnActive a\<rparr>, ws @ ws')
                | Some (_, a, ws') \<Rightarrow> Some (progress_of progress, conn\<lparr>cn_state := ConnActive a\<rparr>, ws @ ws'))))"

definition poll_progress_conn :: "runtime \<Rightarrow> 'io transport \<Rightarrow> (f64 \<Rightarrow> f64) \<Rightarrow> instant \<Rightarrow> sref list list \<Rightarrow> 'io connection
    \<Rightarrow> ('io, rammux_error) progress_result option" where
  "poll_progress_conn rt tr fexp now orders conn =
     (case poll_progress_inner rt tr fexp now orders conn of
        None \<Rightarrow> None
      | Some (Pending, conn, ws) \<Rightarrow> Some (Pending, conn, ws)
      | Some (Ready r, conn, ws) \<Rightarrow>
          (let (conn, ws) =
             (case r of
                Err e \<Rightarrow>
                  if is_misuse e then (conn, ws)
                  else (let (store, ws') = state_drop (cn_state conn) in (conn\<lparr>cn_state := ConnPoisoned store\<rparr>, ws @ ws'))
              | _ \<Rightarrow> (conn, ws))
           in Some (Ready (map_err RammuxError r), conn, ws)))"

definition try_start_outbound :: "nat \<Rightarrow> 'io connection \<Rightarrow> instant \<Rightarrow> (app_stream option, rammux_error) rres \<times> 'io connection" where
  "try_start_outbound vacant_key conn now =
     (case active_mut (cn_state conn) of
        Ok a \<Rightarrow> (let (r, a) = active_open_outbound vacant_key a now in (Ok r, conn\<lparr>cn_state := ConnActive a\<rparr>))
      | Err e \<Rightarrow> (Err (RammuxError e), conn)
      | Panic \<Rightarrow> (Panic, conn))"

text \<open>Starting the downgrade consumes the connection; what is left is the store of its streams.\<close>

definition conn_downgrade :: "'io connection \<Rightarrow> ('io downgraded, rammux_error) rres \<times> (sref \<Rightarrow> stream_state) \<times> wake list" where
  "conn_downgrade conn =
     (let (r, st, ws) = state_downgrade False (cn_state conn); (store, ws') = state_drop st
      in (map_err RammuxError r, store, ws @ ws'))"

definition stats_default :: rammux_stats where
  "stats_default = \<lparr>inbound_streams = 0, outbound_streams = 0, stats_srtt = None, pool_tx_used = 0, pool_rx_used = 0, turn_queue_len = 0\<rparr>"

definition conn_stats :: "'io connection \<Rightarrow> (rammux_stats, 'e) rres" where
  "conn_stats conn = (case active_mut (cn_state conn) of Ok a \<Rightarrow> active_stats a | _ \<Rightarrow> Ok stats_default)"

section \<open>Specification\<close>

text \<open>
  A connection that is active has decoded the frames \<open>ds\<close>, none of them a \<^verbatim>\<open>TERM\<close>, and handed the frames
  \<open>fs\<close> to its codec.
\<close>

definition running_inv :: "('io \<Rightarrow> u8 list) \<Rightarrow> ('io \<Rightarrow> u8 list) \<Rightarrow> rammux_role \<Rightarrow> rammux_config \<Rightarrow> 'io active
    \<Rightarrow> decoded_frame list \<Rightarrow> out_frame list \<Rightarrow> bool" where
  "running_inv taken written role config a ds fs \<longleftrightarrow> active_inv taken written a ds fs \<and> Terminate \<notin> set ds
     \<and> sm_config (ac_streams a) = config \<and> sm_role (ac_streams a) = role \<and> pings_ok (ac_pings a)
     \<and> gone_ok (ac_streams a)"

definition conn_inv :: "('io \<Rightarrow> u8 list) \<Rightarrow> ('io \<Rightarrow> u8 list) \<Rightarrow> 'io connection \<Rightarrow> decoded_frame list \<Rightarrow> out_frame list \<Rightarrow> bool" where
  "conn_inv taken written conn ds fs \<longleftrightarrow>
     (\<forall>a. cn_state conn = ConnActive a \<longrightarrow> running_inv taken written (cn_role conn) (cn_config conn) a ds fs)"

section \<open>Lemmas\<close>

subsection \<open>The exchange of pings keeps its settings\<close>

lemma pings_ok_same:
  "schedule p' = schedule p \<Longrightarrow> pings_ok p \<Longrightarrow> pings_ok p'"
  by (simp add: pings_ok_def)

lemma pings_ok_receive: "pings_ok p \<Longrightarrow> pings_ok (receive_ping f p)"
  by (auto simp: receive_ping_def received_ping_def pings_ok_def split: option.splits)

lemma poll_receive_pings:
  assumes "poll_receive rt tr fexp now a = (r, a', ws)" "pings_ok (ac_pings a)"
  shows "pings_ok (ac_pings a')"
proof -
  have "pings_ok (ac_pings a2)" if "receive_frame fexp now f (a\<lparr>ac_codec := c\<rparr>) = (r2, a2, ws2)" for f c r2 a2 ws2
    using that assms(2) pings_ok_receive by (auto simp: receive_frame_def Let_def split: rres.splits option.splits prod.splits)
  then show ?thesis using assms
    by (auto simp: poll_receive_def Let_def split: prod.splits poll.splits option.splits rres.splits decoded_frame.splits)
qed

lemma take_frame_part_pings:
  assumes "take_frame_part fires limit p now = Ok (pong, ping, p')" "pings_ok p"
  shows "pings_ok (data_sent p' n)" "pings_ok p'"
  using assms
  by (auto simp: take_frame_part_def schedule_sent_def pings_ok_def data_sent_def schedule_data_sent_def Let_def split: if_splits)

lemma poll_send_pings:
  "poll_send rt tr fexp now orders a = Some (r, a', ws) \<Longrightarrow> pings_ok (ac_pings a) \<Longrightarrow> pings_ok (ac_pings a')"
proof (induction orders arbitrary: a ws)
  case (Cons order orders)
  obtain q c where ready: "codec_poll_ready tr now (ac_codec a) = (q, c)" by fastforce
  obtain u sm ws1 where upd: "poll_update fexp order (ac_streams a) now = (u, sm, ws1)" by (metis prod_cases3)
  show ?case
  proof (cases "q = Ready (Ok ()) \<and> (\<exists>part. take_frame_part (rt_fires rt) (rt_limit rt) (ac_pings a) now = (Ok part :: (_, error_kind) rres))")
    case False
    then show ?thesis using Cons.prems ready by (auto simp: poll_send.simps(2) split: poll.splits rres.splits)
  next
    case True
    then obtain pong ping p where part: "take_frame_part (rt_fires rt) (rt_limit rt) (ac_pings a) now = (Ok (pong, ping, p) :: (_, error_kind) rres)"
      by (metis prod_cases3)
    note pk = take_frame_part_pings [OF part Cons.prems(2)]
    have IH: "pings_ok (ac_pings a')" if "poll_send rt tr fexp now orders (a\<lparr>ac_streams := sm, ac_pings := data_sent p n, ac_codec := c1\<rparr>) = Some (r, a', ws')" for n c1 ws'
      using Cons.IH [OF that] pk by simp
    show ?thesis using Cons.prems(1) ready upd part pk IH True
      by (auto simp: poll_send.simps(2) Let_def split: poll.splits rres.splits if_splits prod.splits)
  qed
qed simp

subsection \<open>Open streams are not forgotten\<close>

abbreviation streams_wake :: "'io active \<Rightarrow> 'io active \<Rightarrow> wake list \<Rightarrow> bool" where
  "streams_wake a a' ws \<equiv> store_wakes (sm_fresh (ac_streams a)) (sm_store (ac_streams a)) (sm_store (ac_streams a')) ws"

lemma receive_new:
  assumes "streams_inv sm" "length d \<le> u32_max" "receive fexp h d sm now = (Ok (Some (dx, s)), sm', ws)"
  shows "s = sm_fresh sm"
  using assms(1)
proof (cases rule: receive_cases [where fexp = fexp and h = h and d = d and now = now])
  case (refused m)
  then show ?thesis using assms(3) by (simp add: violation_def)
next
  case (known x)
  have "hand_over fexp h d x None sm now = (Ok (Some (dx, s)), sm', ws)" using known(3) assms(3) by simp
  from hand_over_inv(2) [OF assms(1) known(1) assms(2) this refl] show ?thesis by simp
next
  case (started sm1)
  have "hand_over fexp h d (sm_fresh sm) (Some (duplex_new (sh_id h), sm_fresh sm)) sm1 now = (Ok (Some (dx, s)), sm', ws)"
    using started(12) assms(3) by simp
  from hand_over_inv(2) [OF started(4,5) assms(2) this refl] show ?thesis by simp
qed

lemma receive_frame_gone:
  assumes inv: "streams_inv (ac_streams a)" and len: "length (if_data f) \<le> u32_max" and gone: "gone_ok (ac_streams a)"
    and op: "receive_frame fexp now f a = (r, a', ws)"
  shows "gone_ok (ac_streams a') \<and> sm_fresh (ac_streams a) \<le> sm_fresh (ac_streams a')"
    "streams_wake a a' ws" "r = Ok (ReceivedFrame (Some (dx, s))) \<Longrightarrow> s = sm_fresh (ac_streams a)"
proof -
  from receive_pong_ok [OF inv, of "ac_codec a" f] obtain sm where sm: "receive_pong (ac_codec a) f (ac_streams a) = Ok sm"
    "streams_inv sm" "sm_store sm = sm_store (ac_streams a)" "sm_fresh sm = sm_fresh (ac_streams a)" .
  have "handles sm = handles (ac_streams a)" using sm(1) by (auto simp: receive_pong_def handles_def Let_def split: option.splits)
  then have gone': "gone_ok sm" using gone sm(3,4) by (simp add: gone_ok_def)
  have "(gone_ok (ac_streams a') \<and> sm_fresh (ac_streams a) \<le> sm_fresh (ac_streams a')) \<and> streams_wake a a' ws
    \<and> (r = Ok (ReceivedFrame (Some (dx, s))) \<longrightarrow> s = sm_fresh (ac_streams a))"
  proof (cases "h_stream (if_header f)")
    case None
    then show ?thesis using op sm gone' by (auto simp: receive_frame_def intro: store_wakes_same)
  next
    case (Some part)
    obtain r1 sm1 ws1 where rcv: "receive fexp part (if_data f) sm now = (r1, sm1, ws1)" by (metis prod_cases3)
    have a': "ac_streams a' = sm1" "ws = ws1" "r = Ok (ReceivedFrame (Some (dx, s))) \<longrightarrow> r1 = Ok (Some (dx, s))"
      using op sm(1) Some rcv by (auto simp: receive_frame_def split: rres.splits)
    have "s = sm_fresh sm" if "r1 = Ok (Some (dx, s))" using receive_new [OF sm(2) len rcv [unfolded that]] .
    then show ?thesis using receive_gone [OF sm(2) len gone' rcv] receive_inv(6) [OF sm(2) len rcv] receive_wakes [OF sm(2) len rcv] sm(3,4) a' by simp
  qed
  then show "gone_ok (ac_streams a') \<and> sm_fresh (ac_streams a) \<le> sm_fresh (ac_streams a')" "streams_wake a a' ws"
    "r = Ok (ReceivedFrame (Some (dx, s))) \<Longrightarrow> s = sm_fresh (ac_streams a)" by blast+
qed

lemma poll_receive_gone:
  assumes tr: "transport_ok tr taken written" and lim: "now + never \<le> rt_limit rt" and inv: "active_inv taken written a ds fs"
    and gone: "gone_ok (ac_streams a)" and op: "poll_receive rt tr fexp now a = (r, a', ws)"
  shows "gone_ok (ac_streams a') \<and> sm_fresh (ac_streams a) \<le> sm_fresh (ac_streams a')"
    "streams_wake a a' ws" "r = Ready (Ok (ReceivedFrame (Some (dx, s)))) \<Longrightarrow> s = sm_fresh (ac_streams a)"
proof -
  obtain q c where poll: "codec_poll_next rt tr now (ac_codec a) = (q, c)" by fastforce
  have "(gone_ok (ac_streams a') \<and> sm_fresh (ac_streams a) \<le> sm_fresh (ac_streams a')) \<and> streams_wake a a' ws
    \<and> (r = Ready (Ok (ReceivedFrame (Some (dx, s)))) \<longrightarrow> s = sm_fresh (ac_streams a))"
  proof (cases "\<exists>f. q = Ready (Some (Ok (Frame f)))")
    case True
    then obtain f where f: "q = Ready (Some (Ok (Frame f)))" by blast
    obtain r2 a2 ws2 where rf: "receive_frame fexp now f (a\<lparr>ac_codec := c\<rparr>) = (r2, a2, ws2)" by (metis prod_cases3)
    have "codec_in taken (ac_codec a) ds" and si: "streams_inv (ac_streams a)" using inv by (simp_all add: active_inv_def)
    then have "length (if_data f) \<le> u32_max" using codec_in_read(5) [OF tr _ lim poll f] df_valid_data by blast
    from receive_frame_gone [OF _ this _ rf] have "(gone_ok (ac_streams a2) \<and> sm_fresh (ac_streams a) \<le> sm_fresh (ac_streams a2)) \<and> streams_wake a a2 ws2
      \<and> (r2 = Ok (ReceivedFrame (Some (dx, s))) \<longrightarrow> s = sm_fresh (ac_streams a))" using si gone by simp
    then show ?thesis using op poll f rf by (auto simp: poll_receive_def)
  next
    case False
    then have "ac_streams a' = ac_streams a" "r \<noteq> Ready (Ok (ReceivedFrame (Some (dx, s))))"
      using op poll by (auto simp: poll_receive_def Let_def split: poll.splits option.splits rres.splits decoded_frame.splits)
    then show ?thesis using gone store_wakes_same by simp
  qed
  then show "gone_ok (ac_streams a') \<and> sm_fresh (ac_streams a) \<le> sm_fresh (ac_streams a')" "streams_wake a a' ws"
    "r = Ready (Ok (ReceivedFrame (Some (dx, s)))) \<Longrightarrow> s = sm_fresh (ac_streams a)" by blast+
qed

lemma poll_send_gone:
  "poll_send rt tr fexp now orders a = Some (r, a', ws) \<Longrightarrow> streams_inv (ac_streams a) \<Longrightarrow> gone_ok (ac_streams a)
    \<Longrightarrow> gone_ok (ac_streams a') \<and> sm_fresh (ac_streams a') = sm_fresh (ac_streams a) \<and> streams_wake a a' ws"
proof (induction orders arbitrary: a ws)
  case (Cons order orders)
  obtain u sm ws1 where upd: "poll_update fexp order (ac_streams a) now = (u, sm, ws1)" by (metis prod_cases3)
  have sm: "streams_inv sm" "gone_ok sm" "sm_fresh sm = sm_fresh (ac_streams a)"
    using poll_update_inv(1,5) [OF Cons.prems(2) upd] poll_update_gone [OF Cons.prems(2,3) upd] by simp_all
  have wakes: "store_wakes (sm_fresh (ac_streams a)) (sm_store (ac_streams a)) (sm_store sm) ws1" by (rule poll_update_wakes [OF Cons.prems(2) upd])
  have IH: "gone_ok (ac_streams a') \<and> sm_fresh (ac_streams a') = sm_fresh (ac_streams a) \<and> streams_wake a a' (ws1 @ ws')"
    if "poll_send rt tr fexp now orders (a\<lparr>ac_streams := sm, ac_pings := p, ac_codec := c1\<rparr>) = Some (r, a', ws')" for p c1 ws'
    using Cons.IH [OF that] sm store_wakes_trans [OF wakes, of "sm_fresh sm" "sm_store (ac_streams a')" ws' "ws1 @ ws'"] by simp
  show ?case using Cons.prems(1,3) upd sm wakes IH
    by (auto simp: poll_send.simps(2) Let_def intro: store_wakes_same split: poll.splits rres.splits if_splits prod.splits)
qed simp

lemma progress_drop_ok:
  assumes "tables_ok (ac_streams a)" "store_ok (ac_streams a)" "gone_ok (ac_streams a)" "progress_drop progress a = (a', ws)"
  shows "tables_ok (ac_streams a') \<and> store_ok (ac_streams a') \<and> gone_ok (ac_streams a') \<and> sm_fresh (ac_streams a') = sm_fresh (ac_streams a)
    \<and> (\<forall>x. (\<forall>dx. progress \<noteq> Ready (Some (dx, x))) \<longrightarrow> sm_store (ac_streams a') x = sm_store (ac_streams a) x)"
proof (cases "\<exists>dx s. progress = Ready (Some (dx, s))")
  case False
  then have "a' = a" using assms(4) by (cases "(progress, a)" rule: progress_drop.cases) auto
  then show ?thesis using assms by simp
next
  case True
  then obtain dx s where p: "progress = Ready (Some (dx, s))" by blast
  let ?sm = "ac_streams a"
  define st1 where "st1 = fst (sink_drop (dx_sink dx) (sm_store ?sm s) s)"
  define st2 where "st2 = fst (stream_drop (dx_stream dx) st1 s)"
  have a': "ac_streams a' = ?sm\<lparr>sm_store := (sm_store ?sm)(s := st2)\<rparr>"
    using assms(4) p by (auto simp: duplex_drop_def st1_def st2_def split_beta Let_def)
  have steps: "app_step s (sm_store ?sm s) st1" "app_step s st1 st2"
    unfolding st1_def st2_def by (rule app_step.drop_sink, rule app_step.drop_stream)
  have h: "handles (ac_streams a') = handles ?sm" unfolding a' by (rule handle_of_cong) simp_all
  have keep: "stream_inv st2 \<and> stream_conf (sm_config ?sm) st2" if "s < sm_fresh ?sm"
    using that assms(2) app_step_keeps [OF steps(1)] app_step_keeps [OF steps(2)] stream_conf_keeps
    unfolding store_ok_def by metis
  have "store_ok (ac_streams a')" using assms(2) keep by (auto simp: store_ok_def a')
  moreover have "is_dead (stream_fin_state st2)" if "is_dead (stream_fin_state (sm_store ?sm s))"
    using that app_step_dead steps by blast
  then have "gone_ok (ac_streams a')" using assms(3) h by (auto simp: gone_ok_def a')
  ultimately show ?thesis using assms(1) h p by (simp add: tables_ok_def a')
qed

subsection \<open>The batch of inbound frames\<close>

definition batch_ok :: "('io \<Rightarrow> u8 list) \<Rightarrow> ('io \<Rightarrow> u8 list) \<Rightarrow> rammux_role \<Rightarrow> rammux_config \<Rightarrow> decoded_frame list \<Rightarrow> out_frame list
    \<Rightarrow> (batch, error_kind) rres \<Rightarrow> 'io active \<Rightarrow> bool" where
  "batch_ok taken written role config ds fs r a' \<longleftrightarrow> (case r of
      Panic \<Rightarrow> False
    | Err e \<Rightarrow> \<not> is_misuse e \<and> tables_ok (ac_streams a') \<and> store_ok (ac_streams a') \<and> gone_ok (ac_streams a')
    | Ok (BatchDone _) \<Rightarrow> \<exists>ds'. running_inv taken written role config a' (ds @ ds') fs
    | Ok BatchTerm \<Rightarrow> \<exists>ds'. reader_inv taken True (ac_codec a') (ds @ ds') \<and> codec_out written (ac_codec a') fs
        \<and> tables_ok (ac_streams a') \<and> store_ok (ac_streams a') \<and> gone_ok (ac_streams a'))"

lemma batch_ok_more:
  "batch_ok taken written role config (ds @ ds0) fs r a' \<Longrightarrow> batch_ok taken written role config ds fs r a'"
  by (auto simp: batch_ok_def split: rres.splits batch.splits)

lemma receive_batch_ok:
  assumes tr: "transport_ok tr taken written" and lim: "now + never \<le> rt_limit rt"
  shows "receive_batch rt tr fexp now n progress a = (r, a', ws) \<Longrightarrow> running_inv taken written role config a ds fs
    \<Longrightarrow> batch_ok taken written role config ds fs r a' \<and> sm_fresh (ac_streams a) \<le> sm_fresh (ac_streams a') \<and> streams_wake a a' ws
      \<and> (r = Ok (BatchDone (Ready (Some (dx, s)))) \<longrightarrow> progress = Ready (Some (dx, s)) \<or> sm_fresh (ac_streams a) \<le> s)"
proof (induction n arbitrary: progress a ds ws)
  case 0
  then show ?case by (auto simp: batch_ok_def intro!: exI [of _ "[]"] store_wakes_same)
next
  case (Suc n)
  have inv: "active_inv taken written a ds fs" "Terminate \<notin> set ds" "sm_config (ac_streams a) = config" "sm_role (ac_streams a) = role"
    "pings_ok (ac_pings a)" "gone_ok (ac_streams a)" using Suc.prems(2) by (simp_all add: running_inv_def)
  obtain q a1 ws1 where poll: "poll_receive rt tr fexp now a = (q, a1, ws1)" by (metis prod_cases3)
  note p = poll_receive_ok [OF tr lim inv(1) poll] and pk = poll_receive_pings [OF poll inv(5)]
    and gone = poll_receive_gone(1) [OF tr lim inv(1,6) poll] and wakes = poll_receive_gone(2) [OF tr lim inv(1,6) poll]
    and new = poll_receive_gone(3) [OF tr lim inv(1,6) poll, of dx s]
  consider (pending) "q = Pending" | (frame) new where "q = Ready (Ok (ReceivedFrame new))" | (ended) "q = Ready (Ok ReceivedTerm)"
    | (err) e where "q = Ready (Err e)" using p(1) by (metis poll.exhaust received.exhaust rres.exhaust)
  then show ?case
  proof cases
    case pending
    then have "r = Ok (BatchDone progress)" "a' = a1" using Suc.prems(1) poll by simp_all
    moreover have "running_inv taken written role config a1 (ds @ []) fs" using pending p inv pk gone by (simp add: running_inv_def)
    ultimately show ?thesis using gone wakes Suc.prems(1) poll pending unfolding batch_ok_def by (auto intro!: exI [of _ "[]"])
  next
    case (frame new)
    then obtain f where f: "active_inv taken written a1 (ds @ [Frame f]) fs" using p(3) by blast
    then have run: "running_inv taken written role config a1 (ds @ [Frame f]) fs" using inv p(6,7) pk gone by (simp add: running_inv_def)
    show ?thesis
    proof (cases new)
      case None
      obtain ws2 where rest: "receive_batch rt tr fexp now n (Ready None) a1 = (r, a', ws2)" "ws = ws1 @ ws2"
        using Suc.prems(1) poll frame None by (auto split: prod.splits)
      note IH = Suc.IH [OF rest(1) run]
      have "streams_wake a a' ws" using store_wakes_trans [OF wakes, of "sm_fresh (ac_streams a1)" "sm_store (ac_streams a')" ws2 ws] IH gone rest(2) by simp
      then show ?thesis using IH batch_ok_more gone by fastforce
    next
      case (Some dx)
      then have "r = Ok (BatchDone (Ready (Some dx)))" "a' = a1" using Suc.prems(1) poll frame by simp_all
      then show ?thesis using run gone wakes new Suc.prems(1) poll frame Some by (auto simp: batch_ok_def)
    qed
  next
    case ended
    then have r: "r = Ok BatchTerm" "a' = a1" using Suc.prems(1) poll by simp_all
    have "reader_inv taken True (ac_codec a1) (ds @ [])" "codec_out written (ac_codec a1) fs" "streams_inv (ac_streams a1)"
      using p(4) [OF ended] inv(2) by (simp_all add: reader_inv_def term_in_def active_inv_def)
    then show ?thesis using gone wakes Suc.prems(1) poll ended unfolding r batch_ok_def by (auto simp: streams_inv_def intro!: exI [of _ "[]"])
  next
    case (err e)
    then show ?thesis using Suc.prems(1) poll p(5) [OF err] gone wakes by (auto simp: batch_ok_def)
  qed
qed

subsection \<open>Polling\<close>

definition all_over :: "'io active \<Rightarrow> (sref \<Rightarrow> stream_state) \<Rightarrow> bool" where
  "all_over a store \<longleftrightarrow> (\<forall>s < sm_fresh (ac_streams a). stream_over s (store s))"

definition all_woken :: "'io active \<Rightarrow> wake list \<Rightarrow> bool" where
  "all_woken a ws \<longleftrightarrow> (\<forall>s < sm_fresh (ac_streams a). \<forall>w \<in> parked (sm_store (ac_streams a) s). WakeTask w \<in> set ws)"

text \<open>
  What polling an active connection does: it goes on, or it ends because the peer sent \<^verbatim>\<open>TERM\<close>, or it fails.
\<close>

definition goes_on :: "('io \<Rightarrow> u8 list) \<Rightarrow> ('io \<Rightarrow> u8 list) \<Rightarrow> 'io active \<Rightarrow> 'io connection \<Rightarrow> decoded_frame list \<Rightarrow> out_frame list
    \<Rightarrow> ('io, rammux_error) progress_result \<Rightarrow> bool" where
  "goes_on taken written a conn ds fs res \<longleftrightarrow> (\<exists>r ws a' ds' fs'. res = (r, conn\<lparr>cn_state := ConnActive a'\<rparr>, ws) \<and> streams_wake a a' ws
     \<and> running_inv taken written (cn_role conn) (cn_config conn) a' (ds @ ds') (fs @ fs')
     \<and> (r = Pending \<or> r = Ready (Ok ProgressEmpty) \<or> (\<exists>dx. r = Ready (Ok (ProgressInbound dx)))))"

definition terminates :: "('io \<Rightarrow> u8 list) \<Rightarrow> ('io \<Rightarrow> u8 list) \<Rightarrow> 'io active \<Rightarrow> 'io connection \<Rightarrow> decoded_frame list \<Rightarrow> out_frame list
    \<Rightarrow> ('io, rammux_error) progress_result \<Rightarrow> bool" where
  "terminates taken written a conn ds fs res \<longleftrightarrow> (\<exists>ws store d ds'.
     res = (Ready (Ok (ProgressDowngraded d)), conn\<lparr>cn_state := ConnDowngraded store\<rparr>, ws) \<and> all_woken a ws \<and> term_received d \<and> downgrade_inv taken written d (ds @ ds') fs \<and> all_over a store)"

definition fails :: "'io active \<Rightarrow> 'io connection \<Rightarrow> ('io, rammux_error) progress_result \<Rightarrow> bool" where
  "fails a conn res \<longleftrightarrow> (\<exists>ws store e. res = (Ready (Err (RammuxError e)), conn\<lparr>cn_state := ConnPoisoned store\<rparr>, ws)
     \<and> \<not> is_misuse e \<and> all_woken a ws \<and> all_over a store)"

text \<open>What dropping the streams does at the end of a poll.\<close>

lemma drop_ends:
  assumes "tables_ok (ac_streams a1)" "store_ok (ac_streams a1)" "gone_ok (ac_streams a1)" "sm_fresh (ac_streams a) \<le> sm_fresh (ac_streams a1)"
    and wakes: "streams_wake a a1 ws1" and drop: "streams_drop (ac_streams a1) = (store, ws2)"
  shows "all_over a store" "all_woken a (ws1 @ ws2)"
proof -
  show "all_over a store" using streams_over [OF assms(1-3) drop] assms(4) by (auto simp: all_over_def)
  have "WakeTask w \<in> set (ws1 @ ws2)" if s: "s < sm_fresh (ac_streams a)" and w: "w \<in> parked (sm_store (ac_streams a) s)" for s w
  proof -
    have "s < sm_fresh (ac_streams a1)" using s assms(4) by simp
    note d = streams_drop_wakes [OF assms(1-3) drop this]
    have "wakes_tasks (sm_store (ac_streams a) s) (sm_store (ac_streams a1) s) ws1" using wakes s by (simp add: store_wakes_def)
    then show ?thesis using w d by (auto simp: wakes_tasks_def)
  qed
  then show "all_woken a (ws1 @ ws2)" by (simp add: all_woken_def)
qed

lemma poisons:
  assumes "poll_progress_inner rt tr fexp now orders conn = Some (Ready (Err e), conn\<lparr>cn_state := ConnActive a1\<rparr>, ws1)" "\<not> is_misuse e"
    and "tables_ok (ac_streams a1)" "store_ok (ac_streams a1)" "gone_ok (ac_streams a1)" "sm_fresh (ac_streams a) \<le> sm_fresh (ac_streams a1)"
    and "streams_wake a a1 ws1" "poll_progress_conn rt tr fexp now orders conn = Some res"
  shows "fails a conn res"
proof -
  obtain store ws' where drop: "streams_drop (ac_streams a1) = (store, ws')" by fastforce
  show ?thesis using assms(1,2,8) drop drop_ends [OF assms(3-7) drop] by (auto simp: poll_progress_conn_def fails_def)
qed

lemma poll_progress_ends:
  assumes st: "cn_state conn = ConnActive a" and batch: "receive_batch rt tr fexp now INBOUND_BATCH Pending a = (Ok BatchTerm, a1, ws1)"
    and t: "reader_inv taken True (ac_codec a1) (ds @ ds')" "codec_out written (ac_codec a1) fs" "tables_ok (ac_streams a1)"
      "store_ok (ac_streams a1)" "gone_ok (ac_streams a1)" "sm_fresh (ac_streams a) \<le> sm_fresh (ac_streams a1)" "streams_wake a a1 ws1"
    and op: "poll_progress_conn rt tr fexp now orders conn = Some res"
  shows "terminates taken written a conn ds fs res"
proof -
  obtain store ws2 where drop: "streams_drop (ac_streams a1) = (store, ws2)" by fastforce
  note drop_ends [OF t(3-7) drop]
  moreover have "poll_progress_inner rt tr fexp now orders conn
      = Some (Ready (Ok (ProgressDowngraded (downgraded_new (ac_codec a1) True))), conn\<lparr>cn_state := ConnDowngraded store\<rparr>, ws1 @ ws2)"
    using batch st drop by (simp add: poll_progress_inner_def into_codec_def)
  then have "res = (Ready (Ok (ProgressDowngraded (downgraded_new (ac_codec a1) True))), conn\<lparr>cn_state := ConnDowngraded store\<rparr>, ws1 @ ws2)"
    using op by (simp add: poll_progress_conn_def)
  moreover have "downgrade_inv taken written (downgraded_new (ac_codec a1) True) (ds @ ds') fs" by (rule downgraded_new_inv [OF t(1,2)])
  moreover have "term_received (downgraded_new (ac_codec a1) True)" by (simp add: downgraded_new_def)
  ultimately show ?thesis unfolding terminates_def by blast
qed

lemma poll_progress_sends:
  assumes tr: "transport_ok tr taken written" and lim: "now + never \<le> rt_limit rt" and st: "cn_state conn = ConnActive a"
    and batch: "receive_batch rt tr fexp now INBOUND_BATCH Pending a = (Ok (BatchDone progress), a1, ws1)"
    and run: "running_inv taken written (cn_role conn) (cn_config conn) a1 (ds @ ds') fs"
    and fresh: "sm_fresh (ac_streams a) \<le> sm_fresh (ac_streams a1)" and wakes: "streams_wake a a1 ws1"
    and new: "\<forall>dx s. progress = Ready (Some (dx, s)) \<longrightarrow> sm_fresh (ac_streams a) \<le> s"
    and op: "poll_progress_conn rt tr fexp now orders conn = Some res"
  shows "goes_on taken written a conn ds fs res \<or> fails a conn res"
proof -
  have ai: "active_inv taken written a1 (ds @ ds') fs" "streams_inv (ac_streams a1)" "gone_ok (ac_streams a1)" "pings_ok (ac_pings a1)"
    using run unfolding running_inv_def active_inv_def by blast+
  obtain q a2 ws2 where send: "poll_send rt tr fexp now orders a1 = Some (q, a2, ws2)"
    using op batch st by (auto simp: poll_progress_conn_def poll_progress_inner_def split: option.splits)
  note ps = poll_send_ok [OF tr lim ai(1) send] and gone = poll_send_gone [OF send ai(2,3)]
  obtain fs' where fs': "active_inv taken written a2 (ds @ ds') (fs @ fs')" using ps by blast
  then have si: "tables_ok (ac_streams a2)" "store_ok (ac_streams a2)" by (simp_all add: active_inv_def streams_inv_def)
  have wakes2: "streams_wake a a2 (ws1 @ ws2)"
    using store_wakes_trans [OF wakes, of "sm_fresh (ac_streams a1)" "sm_store (ac_streams a2)" ws2 "ws1 @ ws2"] gone fresh by simp
  show ?thesis
  proof (cases q)
    case Pending
    have "running_inv taken written (cn_role conn) (cn_config conn) a2 (ds @ ds') (fs @ fs')"
      using fs' run ps gone poll_send_pings [OF send ai(4)] by (simp add: running_inv_def)
    moreover have inner: "poll_progress_inner rt tr fexp now orders conn = Some (progress_of progress, conn\<lparr>cn_state := ConnActive a2\<rparr>, ws1 @ ws2)"
      using batch st send Pending by (simp add: poll_progress_inner_def)
    have "\<exists>r. res = (r, conn\<lparr>cn_state := ConnActive a2\<rparr>, ws1 @ ws2)
        \<and> (r = Pending \<or> r = Ready (Ok ProgressEmpty) \<or> (\<exists>dx. r = Ready (Ok (ProgressInbound dx))))"
      using op inner by (cases progress rule: progress_of.cases) (auto simp: poll_progress_conn_def)
    ultimately show ?thesis unfolding goes_on_def using wakes2 by blast
  next
    case (Ready q')
    then obtain e where e: "q = Ready (Err (Io e))" using ps by auto
    obtain a3 ws3 where drop: "progress_drop progress a2 = (a3, ws3)" by fastforce
    have "poll_progress_inner rt tr fexp now orders conn = Some (Ready (Err (Io e)), conn\<lparr>cn_state := ConnActive a3\<rparr>, ws1 @ ws2 @ ws3)"
      using batch st send e drop by (simp add: poll_progress_inner_def)
    moreover have "\<not> is_misuse (Io e)" by simp
    moreover have "tables_ok (ac_streams a3)" "store_ok (ac_streams a3)" "gone_ok (ac_streams a3)"
      "sm_fresh (ac_streams a) \<le> sm_fresh (ac_streams a3)"
      using progress_drop_ok [OF si _ drop] gone fresh by simp_all
    moreover have "sm_store (ac_streams a3) s = sm_store (ac_streams a2) s" if "s < sm_fresh (ac_streams a)" for s
      using progress_drop_ok [OF si _ drop] gone new that by (meson leD)
    then have "streams_wake a a3 (ws1 @ ws2 @ ws3)" using wakes2 by (auto simp: store_wakes_def wakes_tasks_def)
    ultimately have "fails a conn res" using op by (rule poisons)
    then show ?thesis by blast
  qed
qed

lemma poll_progress_active:
  assumes tr: "transport_ok tr taken written" and lim: "now + never \<le> rt_limit rt"
    and inv: "running_inv taken written (cn_role conn) (cn_config conn) a ds fs" and st: "cn_state conn = ConnActive a"
    and op: "poll_progress_conn rt tr fexp now orders conn = Some res"
  shows "goes_on taken written a conn ds fs res \<or> terminates taken written a conn ds fs res \<or> fails a conn res"
proof -
  obtain b a1 ws1 where batch: "receive_batch rt tr fexp now INBOUND_BATCH Pending a = (b, a1, ws1)" by (metis prod_cases3)
  note rb = receive_batch_ok [OF tr lim batch inv]
  have "b \<noteq> Panic" using rb by (auto simp: batch_ok_def)
  then consider (err) e where "b = Err e" | (ended) "b = Ok BatchTerm" | (fin) progress where "b = Ok (BatchDone progress)"
    by (metis batch.exhaust rres.exhaust)
  then show ?thesis
  proof cases
    case (err e)
    have "poll_progress_inner rt tr fexp now orders conn = Some (Ready (Err e), conn\<lparr>cn_state := ConnActive a1\<rparr>, ws1)"
      using batch err st by (simp add: poll_progress_inner_def)
    moreover have "\<not> is_misuse e" "tables_ok (ac_streams a1)" "store_ok (ac_streams a1)" "gone_ok (ac_streams a1)"
      "sm_fresh (ac_streams a) \<le> sm_fresh (ac_streams a1)" "streams_wake a a1 ws1" using rb err by (simp_all add: batch_ok_def)
    ultimately have "fails a conn res" using op by (rule poisons)
    then show ?thesis by blast
  next
    case ended
    then show ?thesis using rb poll_progress_ends [OF st batch [unfolded ended] _ _ _ _ _ _ _ op] by (auto simp: batch_ok_def)
  next
    case (fin progress)
    then obtain ds' where "running_inv taken written (cn_role conn) (cn_config conn) a1 (ds @ ds') fs"
      "sm_fresh (ac_streams a) \<le> sm_fresh (ac_streams a1)" "streams_wake a a1 ws1" using rb by (auto simp: batch_ok_def)
    moreover have "\<forall>dx s. progress = Ready (Some (dx, s)) \<longrightarrow> sm_fresh (ac_streams a) \<le> s"
      using receive_batch_ok [OF tr lim batch inv] fin by blast
    ultimately show ?thesis using poll_progress_sends [OF tr lim st batch [unfolded fin] _ _ _ _ op] by blast
  qed
qed

subsection \<open>Histories of a connection\<close>

inductive conn_step :: "runtime \<Rightarrow> 'io transport \<Rightarrow> ('io \<Rightarrow> u8 list) \<Rightarrow> ('io \<Rightarrow> u8 list) \<Rightarrow> 'io connection \<Rightarrow> 'io connection \<Rightarrow> bool"
  for rt tr taken written where
  polls: "now + never \<le> rt_limit rt \<Longrightarrow> poll_progress_conn rt tr fexp now orders conn = Some (r, conn', ws)
    \<Longrightarrow> conn_step rt tr taken written conn conn'"
| opens: "(\<And>a. cn_state conn = ConnActive a \<Longrightarrow> key \<notin> fst ` set (sm_outbound (ac_streams a)))
    \<Longrightarrow> try_start_outbound key conn now = (r, conn') \<Longrightarrow> conn_step rt tr taken written conn conn'"
| uses: "cn_state conn = ConnActive a \<Longrightarrow> s < sm_fresh (ac_streams a) \<Longrightarrow> app_step s (sm_store (ac_streams a) s) st
    \<Longrightarrow> conn_step rt tr taken written conn (conn\<lparr>cn_state := ConnActive (a\<lparr>ac_streams :=
          (ac_streams a)\<lparr>sm_store := (sm_store (ac_streams a))(s := st)\<rparr>\<rparr>)\<rparr>)"
| moves: "cn_state conn = ConnActive a \<Longrightarrow> taken io = taken (cd_io (ac_codec a)) \<Longrightarrow> written io = written (cd_io (ac_codec a))
    \<Longrightarrow> conn_step rt tr taken written conn (conn\<lparr>cn_state := ConnActive (a\<lparr>ac_codec := (ac_codec a)\<lparr>cd_io := io\<rparr>\<rparr>)\<rparr>)"

lemma connection_new_inv:
  assumes "connection_new rt now role io config store = Ok conn" "config_typed config" "taken io = []" "written io = []"
  shows "conn_inv taken written conn [] []" "cn_role conn = role" "cn_config conn = config"
proof -
  obtain a where a: "config_validate config = Ok ()" "active_new rt now io role config store = (Ok a :: (_, config_error) rres)"
    "conn = \<lparr>cn_state = ConnActive a, cn_role = role, cn_config = config\<rparr>"
    using assms(1) by (auto simp: connection_new_def)
  then obtain at' where a': "a = \<lparr>ac_codec = \<lparr>cd_io = io, cd_pending = None, cd_decoder = decoder_default, cd_frame_limit = frame_limit config,
           cd_clock = clock_new now, cd_sleep_at = at', cd_timeout = inbound_frame_timeout config\<rparr>,
       ac_streams = streams_new role config store, ac_pings = pings_new now (ping_interval config) (ping_bytes config)\<rparr>"
    by (auto simp: active_new_def codec_new_def)
  have "pings_ok (ac_pings a)" using a(1) assms(2)
    by (simp add: a' pings_ok_def pings_new_def schedule_new_def config_typed_def config_validate_Ok_iff)
  moreover have "active_inv taken written a [] []"
    using streams_new_inv [OF assms(2)] assms(3,4) dec_rep_default
    by (auto simp: a' active_inv_def codec_in_def codec_out_def frames_ok_def owed_def streams_new_def)
  moreover have "sm_config (ac_streams a) = config" "sm_role (ac_streams a) = role" by (simp_all add: a' streams_new_def)
  ultimately show "conn_inv taken written conn [] []"
    using streams_new_gone by (simp add: conn_inv_def a(3) running_inv_def a' del: active.simps(1))
  show "cn_role conn = role" "cn_config conn = config" by (simp_all add: a(3))
qed

lemma active_inv_streams:
  "active_inv taken written a ds fs \<Longrightarrow> streams_inv sm \<Longrightarrow> sm_config sm = sm_config (ac_streams a)
    \<Longrightarrow> active_inv taken written (a\<lparr>ac_streams := sm\<rparr>) ds fs"
  by (simp add: active_inv_def)

lemma conn_step_inv:
  assumes step: "conn_step rt tr taken written conn conn'" and tr: "transport_ok tr taken written" and inv: "conn_inv taken written conn ds fs"
  shows "\<exists>ds' fs'. conn_inv taken written conn' (ds @ ds') (fs @ fs') \<and> cn_role conn' = cn_role conn \<and> cn_config conn' = cn_config conn"
  using step
proof cases
  case (polls now fexp orders r ws)
  show ?thesis
  proof (cases "cn_state conn")
    case (ConnActive a)
    then have run: "running_inv taken written (cn_role conn) (cn_config conn) a ds fs" using inv by (simp add: conn_inv_def)
    from poll_progress_active [OF tr polls(1) run ConnActive polls(2)] show ?thesis
      by (fastforce simp: goes_on_def terminates_def fails_def conn_inv_def)
  qed (use polls(2) in \<open>auto simp: poll_progress_conn_def poll_progress_inner_def conn_inv_def\<close>)
next
  case (opens key now r)
  show ?thesis
  proof (cases "cn_state conn")
    case (ConnActive a)
    then have run: "active_inv taken written a ds fs" "running_inv taken written (cn_role conn) (cn_config conn) a ds fs"
      using inv by (simp_all add: conn_inv_def running_inv_def)
    then have si: "streams_inv (ac_streams a)" by (simp add: active_inv_def)
    obtain dx sm where op: "open_outbound key (ac_streams a) now = (dx, sm)" by fastforce
    have step: "streams_step (ac_streams a) sm" using opens(1) [OF ConnActive] op by (rule streams_step.opens)
    have conn': "conn' = conn\<lparr>cn_state := ConnActive (a\<lparr>ac_streams := sm\<rparr>)\<rparr>"
      using opens(2) ConnActive op by (auto simp: try_start_outbound_def active_open_outbound_def)
    have "running_inv taken written (cn_role conn) (cn_config conn) (a\<lparr>ac_streams := sm\<rparr>) ds fs"
      using run streams_step_inv [OF step si] active_inv_streams [OF run(1), of sm] open_outbound_gone [OF _ op] by (simp add: running_inv_def)
    then show ?thesis by (intro exI [of _ "[]"]) (simp add: conn' conn_inv_def)
  qed (use opens(2) in \<open>auto simp: try_start_outbound_def conn_inv_def\<close>)
next
  case (uses a s st)
  let ?sm = "(ac_streams a)\<lparr>sm_store := (sm_store (ac_streams a))(s := st)\<rparr>"
  have run: "active_inv taken written a ds fs" "running_inv taken written (cn_role conn) (cn_config conn) a ds fs"
    using inv uses(2) by (simp_all add: conn_inv_def running_inv_def)
  then have "streams_inv ?sm" using app_inv [OF _ uses(3,4)] by (simp add: active_inv_def)
  then have "running_inv taken written (cn_role conn) (cn_config conn) (a\<lparr>ac_streams := ?sm\<rparr>) ds fs"
    using run active_inv_streams [OF run(1), of ?sm] app_gone [OF _ uses(4)] by (simp add: running_inv_def)
  then show ?thesis by (intro exI [of _ "[]"]) (simp add: uses(1) conn_inv_def)
next
  case (moves a io)
  have run: "running_inv taken written (cn_role conn) (cn_config conn) a ds fs" using inv moves(2) by (simp add: conn_inv_def)
  then have "running_inv taken written (cn_role conn) (cn_config conn) (a\<lparr>ac_codec := (ac_codec a)\<lparr>cd_io := io\<rparr>\<rparr>) ds fs"
    using moves(3,4) by (auto simp: running_inv_def active_inv_def codec_in_def codec_out_def)
  then show ?thesis by (intro exI [of _ "[]"]) (simp add: moves(1) conn_inv_def)
qed

lemma conn_reach_inv:
  assumes tr: "transport_ok tr taken written" and new: "connection_new rt now role io config store = Ok conn0"
    and "config_typed config" "taken io = []" "written io = []" "(conn_step rt tr taken written)\<^sup>*\<^sup>* conn0 conn"
  shows "\<exists>ds fs. conn_inv taken written conn ds fs \<and> cn_role conn = role \<and> cn_config conn = config"
  using assms(6)
proof (induction rule: rtranclp_induct)
  case base
  then show ?case using connection_new_inv [where taken = taken and written = written, OF new assms(3-5)] by blast
next
  case (step conn1 conn2)
  then show ?case using conn_step_inv [OF step(2) tr] by metis
qed

definition reachable_conn :: "runtime \<Rightarrow> 'io transport \<Rightarrow> ('io \<Rightarrow> u8 list) \<Rightarrow> ('io \<Rightarrow> u8 list) \<Rightarrow> rammux_role \<Rightarrow> rammux_config
    \<Rightarrow> 'io connection \<Rightarrow> bool" where
  "reachable_conn rt tr taken written role config conn \<longleftrightarrow> (\<exists>now io store conn0.
     connection_new rt now role io config store = Ok conn0 \<and> config_typed config \<and> taken io = [] \<and> written io = []
     \<and> (conn_step rt tr taken written)\<^sup>*\<^sup>* conn0 conn)"

lemma reachable_inv:
  assumes "transport_ok tr taken written" "reachable_conn rt tr taken written role config conn"
  obtains ds fs where "conn_inv taken written conn ds fs" "cn_role conn = role" "cn_config conn = config"
  using assms conn_reach_inv [OF assms(1)] unfolding reachable_conn_def by metis

lemma reachable_running:
  assumes "transport_ok tr taken written" "reachable_conn rt tr taken written role config conn" "cn_state conn = ConnActive a"
  obtains ds fs where "running_inv taken written role config a ds fs"
proof -
  from reachable_inv [OF assms(1,2)] obtain ds fs where
    "conn_inv taken written conn ds fs" "cn_role conn = role" "cn_config conn = config" .
  then show thesis using assms(3) by (intro that [of ds fs]) (simp add: conn_inv_def)
qed

lemma progress_total:
  assumes tr: "transport_ok tr taken written" and fires: "timer_ok (rt_fires rt)" and lim: "now + never \<le> rt_limit rt"
    and reach: "reachable_conn rt tr taken written role config conn"
  shows "\<exists>n. \<forall>orders. n \<le> length orders \<longrightarrow> (\<exists>r conn' ws. poll_progress_conn rt tr fexp now orders conn = Some (r, conn', ws))"
proof (cases "cn_state conn")
  case (ConnActive a)
  from reachable_running [OF tr reach ConnActive] obtain ds fs where run: "running_inv taken written role config a ds fs" .
  obtain b a1 ws1 where batch: "receive_batch rt tr fexp now INBOUND_BATCH Pending a = (b, a1, ws1)" by (metis prod_cases3)
  note rb = receive_batch_ok [OF tr lim batch run]
  have "\<exists>r conn' ws. poll_progress_conn rt tr fexp now orders conn = Some (r, conn', ws)"
    if len: "2 * work (ac_streams a1) + 2 \<le> length orders" for orders
  proof -
    have "\<exists>res. poll_send rt tr fexp now orders a1 = Some res" if "b = Ok (BatchDone progress)" for progress
    proof -
      obtain ds' where run1: "running_inv taken written role config a1 (ds @ ds') fs" using rb \<open>b = Ok (BatchDone progress)\<close> by (auto simp: batch_ok_def)
      have si: "streams_inv (ac_streams a1)" "pings_ok (ac_pings a1)" using run1 unfolding running_inv_def active_inv_def by blast+
      show ?thesis by (rule poll_send_returns [OF lim fires si _ codec_ready_idle]) (use len in auto)
    qed
    then have "\<exists>r conn' ws. poll_progress_inner rt tr fexp now orders conn = Some (r, conn', ws)"
      using batch ConnActive by (auto simp: poll_progress_inner_def into_codec_def split: rres.splits batch.splits poll.splits prod.splits)
    then show ?thesis by (auto simp: poll_progress_conn_def Let_def split: poll.splits prod.splits)
  qed
  then show ?thesis by blast
qed (auto simp: poll_progress_conn_def poll_progress_inner_def)

lemma conn_downgrade_inv:
  assumes "transport_ok tr taken written" "reachable_conn rt tr taken written role config conn" "conn_downgrade conn = (Ok d, store, ws)"
  obtains a ds fs where "cn_state conn = ConnActive a" "downgrade_inv taken written d ds fs" "frames_ok config fs" "all_over a store"
    "\<not> term_received d"
proof -
  obtain a where a: "cn_state conn = ConnActive a"
    using assms(3) by (cases "cn_state conn") (auto simp: conn_downgrade_def)
  from reachable_running [OF assms(1,2) a] obtain ds fs where run: "running_inv taken written role config a ds fs" .
  obtain ws1 where drop: "streams_drop (ac_streams a) = (store, ws1)" and d: "d = downgraded_new (ac_codec a) False"
    using assms(3) a by (auto simp: conn_downgrade_def into_codec_def split: prod.splits)
  have i: "codec_in taken (ac_codec a) ds" "codec_out written (ac_codec a) fs" "Terminate \<notin> set ds" "frames_ok config fs"
    "tables_ok (ac_streams a)" "store_ok (ac_streams a)" "gone_ok (ac_streams a)"
    using run by (auto simp: running_inv_def active_inv_def streams_inv_def)
  have "reader_inv taken False (ac_codec a) ds" using i by (simp add: reader_inv_def term_in_def)
  from downgraded_new_inv [OF this i(2)] have "downgrade_inv taken written d ds fs" by (simp add: d)
  moreover have "all_over a store" using streams_over [OF i(5-7) drop] by (simp add: all_over_def)
  ultimately show thesis using i(4) a by (intro that) (simp_all add: d downgraded_new_def)
qed

subsection \<open>The properties\<close>

text \<open>
  C10. What polling a connection does, in every state that it can reach, whatever the peer, the application,
  the transport and the scheduler do. It never panics. A connection that failed or was downgraded reports
  this misuse and does not change. An active connection goes on, possibly with a new stream or an
  empty progress, and every task of the application that waits for a stream goes on waiting or is woken; or it ends because the peer
  sent \<^verbatim>\<open>TERM\<close>; or it fails with an error that is not a misuse, and is poisoned. When it ends in either way, every task
  that waited for a stream is woken, and every stream that the application ever got is over: what arrived can
  still be read, then comes the end of the stream, and writing fails.
\<close>

theorem progress_outcome:
  assumes "transport_ok tr taken written" and "now + never \<le> rt_limit rt"
    and "reachable_conn rt tr taken written role config conn" and "poll_progress_conn rt tr fexp now orders conn = Some (r, conn', ws)"
  shows "case cn_state conn of
      ConnPoisoned _ \<Rightarrow> r = Ready (Err (RammuxError Poisoned)) \<and> conn' = conn
    | ConnDowngraded _ \<Rightarrow> r = Ready (Err (RammuxError AlreadyDowngraded)) \<and> conn' = conn
    | ConnActive a \<Rightarrow>
        (\<exists>a'. conn' = conn\<lparr>cn_state := ConnActive a'\<rparr>
           \<and> (r = Pending \<or> r = Ready (Ok ProgressEmpty) \<or> (\<exists>dx. r = Ready (Ok (ProgressInbound dx))))
           \<and> (\<forall>s < sm_fresh (ac_streams a). wakes_tasks (sm_store (ac_streams a) s) (sm_store (ac_streams a') s) ws))
        \<or> (\<exists>store. (conn' = conn\<lparr>cn_state := ConnDowngraded store\<rparr> \<and> (\<exists>d. r = Ready (Ok (ProgressDowngraded d)) \<and> term_received d)
               \<or> conn' = conn\<lparr>cn_state := ConnPoisoned store\<rparr> \<and> (\<exists>e. r = Ready (Err (RammuxError e)) \<and> \<not> is_user (RammuxError e)))
           \<and> (\<forall>s < sm_fresh (ac_streams a). stream_over s (store s)
               \<and> (\<forall>w \<in> parked (sm_store (ac_streams a) s). WakeTask w \<in> set ws)))"
proof (cases "cn_state conn")
  case (ConnActive a)
  from reachable_inv [OF assms(1,3)] obtain ds fs where inv: "conn_inv taken written conn ds fs" .
  then have run: "running_inv taken written (cn_role conn) (cn_config conn) a ds fs" using ConnActive by (simp add: conn_inv_def)
  from poll_progress_active [OF assms(1,2) run ConnActive assms(4)] show ?thesis
    unfolding ConnActive conn_state.simps goes_on_def terminates_def fails_def all_over_def all_woken_def store_wakes_def is_user.simps prod.inject
    by blast
qed (use assms(4) in \<open>auto simp: poll_progress_conn_def poll_progress_inner_def\<close>)

lemma demo_new:
  obtains conn a where "connection_new demo_rt 1 Server demo_pipes demo_config (\<lambda>_. stream_new demo_config 0) = Ok conn"
    "cn_state conn = ConnActive a" "cd_io (ac_codec a) = demo_pipes" "reachable_conn demo_rt pipe_transport pd_taken pd_written Server demo_config conn"
proof -
  obtain conn a where new: "connection_new demo_rt 1 Server demo_pipes demo_config (\<lambda>_. stream_new demo_config 0) = Ok conn"
    "cn_state conn = ConnActive a" "cd_io (ac_codec a) = demo_pipes"
    by (simp add: connection_new_def active_new_def codec_new_def demo_rt_def deadline_eq config_validate_def demo_config_def config_new_def from_secs_def from_micros_def max_streams_per_side_def)
  have "pd_taken demo_pipes = []" "pd_written demo_pipes = []" by (simp_all add: demo_pipes_def)
  then have "reachable_conn demo_rt pipe_transport pd_taken pd_written Server demo_config conn"
    unfolding reachable_conn_def using new(1) demo_typed by blast
  then show thesis using that new by blast
qed

theorem progress_outcome_witness:
  "\<exists>conn orders r conn' ws. poll_progress_conn demo_rt pipe_transport (\<lambda>_. 1) 1 orders conn = Some (r, conn', ws)
    \<and> (\<exists>a. cn_state conn = ConnActive a) \<and> r \<noteq> Ready Panic"
proof -
  from demo_new obtain conn a where reach: "reachable_conn demo_rt pipe_transport pd_taken pd_written Server demo_config conn"
    and a: "cn_state conn = ConnActive a" .
  from progress_total [OF pipe_transport_ok demo_timer demo_limit reach] obtain n where
    "\<forall>orders. n \<le> length orders \<longrightarrow> (\<exists>r conn' ws. poll_progress_conn demo_rt pipe_transport (\<lambda>_. 1) 1 orders conn = Some (r, conn', ws))" ..
  then obtain r conn' ws where run: "poll_progress_conn demo_rt pipe_transport (\<lambda>_. 1) 1 (replicate n []) conn = Some (r, conn', ws)"
    by (metis length_replicate order_refl)
  from progress_outcome [OF pipe_transport_ok demo_limit reach run] a have "r \<noteq> Ready Panic" by auto
  then show ?thesis using run a by blast
qed

text \<open>
  C14. A poll of a connection returns, in every state that it can reach and on every transport: for every
  state there is a number of rounds within which the loop that writes frames ends.
\<close>

theorem progress_returns:
  assumes "transport_ok tr taken written" and "timer_ok (rt_fires rt)" and "now + never \<le> rt_limit rt"
    and "reachable_conn rt tr taken written role config conn"
  shows "\<exists>n. \<forall>orders. n \<le> length orders \<longrightarrow> (\<exists>r conn' ws. poll_progress_conn rt tr fexp now orders conn = Some (r, conn', ws))"
  using assms by (rule progress_total)

theorem progress_returns_witness:
  "\<exists>conn n. (\<exists>a. cn_state conn = ConnActive a)
    \<and> (\<forall>orders. n \<le> length orders \<longrightarrow> (\<exists>res. poll_progress_conn demo_rt pipe_transport (\<lambda>_. 1) 1 orders conn = Some res))"
proof -
  from demo_new obtain conn a where reach: "reachable_conn demo_rt pipe_transport pd_taken pd_written Server demo_config conn"
    and a: "cn_state conn = ConnActive a" .
  from progress_returns [OF pipe_transport_ok demo_timer demo_limit reach, of "\<lambda>_. 1"] show ?thesis using a by metis
qed

text \<open>
  C11. A downgrade gives a clean transport back. Whether we start it or the peer does, when the
  future completes, everything that was read from the transport is frames and then exactly the \<^verbatim>\<open>TERM\<close> of the peer, so the
  next byte that is read is the first one behind it; and everything that was written is whole legal
  frames of ours and then exactly our \<^verbatim>\<open>TERM\<close>, with nothing left to write. The streams are over from the
  start of the downgrade.
\<close>

theorem downgrade_clean:
  assumes "transport_ok tr taken written" and "reachable_conn rt tr taken written role config conn"
    and "cn_state conn = ConnActive a"
    and "conn_downgrade conn = (Ok d, store, ws) \<or>
      (\<exists>now0 fexp orders conn1. now0 + never \<le> rt_limit rt
        \<and> poll_progress_conn rt tr fexp now0 orders conn = Some (Ready (Ok (ProgressDowngraded d)), conn1\<lparr>cn_state := ConnDowngraded store\<rparr>, ws))"
    and "(downgrade_step rt tr taken written)\<^sup>*\<^sup>* d d1"
    and "now + never \<le> rt_limit rt" and "downgraded_poll rt tr now d1 = Some (Ready (Ok io), d2)"
  shows "(\<forall>s < sm_fresh (ac_streams a). stream_over s (store s))
    \<and> (\<exists>ds. (\<forall>x \<in> set ds. x \<noteq> Terminate) \<and> taken io = concat (map df_bytes ds) @ term_bytes)
    \<and> (\<exists>fs ts. length ts = length fs \<and> (\<forall>f \<in> set fs. frame_ok f \<and> \<not> of_term f \<and> frame_data_len f \<le> unat (frame_limit config))
        \<and> written io = concat (map encoding (zip ts fs)) @ term_bytes)"
proof -
  have "\<exists>ds fs. downgrade_inv taken written d ds fs \<and> frames_ok config fs \<and> all_over a store" using assms(4)
  proof
    assume "conn_downgrade conn = (Ok d, store, ws)"
    from conn_downgrade_inv [OF assms(1,2) this] obtain a' ds fs where
      "cn_state conn = ConnActive a'" "downgrade_inv taken written d ds fs" "frames_ok config fs" "all_over a' store" .
    then show ?thesis using assms(3) by auto
  next
    assume "\<exists>now0 fexp orders conn1. now0 + never \<le> rt_limit rt
        \<and> poll_progress_conn rt tr fexp now0 orders conn = Some (Ready (Ok (ProgressDowngraded d)), conn1\<lparr>cn_state := ConnDowngraded store\<rparr>, ws)"
    then obtain now0 fexp orders conn1 where lim: "now0 + never \<le> rt_limit rt" and
      op: "poll_progress_conn rt tr fexp now0 orders conn = Some (Ready (Ok (ProgressDowngraded d)), conn1\<lparr>cn_state := ConnDowngraded store\<rparr>, ws)" by blast
    from reachable_inv [OF assms(1,2)] obtain ds fs where inv: "conn_inv taken written conn ds fs" "cn_config conn = config" .
    then have run: "running_inv taken written (cn_role conn) (cn_config conn) a ds fs" using assms(3) by (simp add: conn_inv_def)
    then have ok: "frames_ok config fs" using inv(2) by (auto simp: running_inv_def active_inv_def)
    from poll_progress_active [OF assms(1) lim run assms(3) op]
    have "terminates taken written a conn ds fs (Ready (Ok (ProgressDowngraded d)), conn1\<lparr>cn_state := ConnDowngraded store\<rparr>, ws)"
      by (auto simp: goes_on_def fails_def)
    then obtain ds' store' where t: "downgrade_inv taken written d (ds @ ds') fs" "all_over a store'"
      "conn1\<lparr>cn_state := ConnDowngraded store\<rparr> = conn\<lparr>cn_state := ConnDowngraded store'\<rparr>" by (auto simp: terminates_def)
    have "store' = store" using arg_cong [OF t(3), of cn_state] by simp
    then show ?thesis using t ok by blast
  qed
  then obtain ds fs where d: "downgrade_inv taken written d ds fs" "frames_ok config fs" "all_over a store" by blast
  from downgrade_steps_inv [OF assms(5,1) d(1)] obtain ds1 where d1: "downgrade_inv taken written d1 (ds @ ds1) fs" ..
  from downgraded_poll_ok [OF assms(1,6) d1 assms(7)] obtain ds2 where "clean_end taken written io ((ds @ ds1) @ ds2) fs" by blast
  then show ?thesis using d(2,3) unfolding clean_end_def frames_ok_def all_over_def by metis
qed

theorem downgrade_clean_witness:
  "\<exists>conn d store ws io d1. conn_downgrade conn = (Ok d, store, ws) \<and> downgraded_poll demo_rt pipe_transport 1 d = Some (Ready (Ok io), d1)
    \<and> (\<exists>ds. (\<forall>x \<in> set ds. x \<noteq> Terminate) \<and> pd_taken io = concat (map df_bytes ds) @ term_bytes)"
proof -
  from demo_new obtain conn a where new: "connection_new demo_rt 1 Server demo_pipes demo_config (\<lambda>_. stream_new demo_config 0) = Ok conn"
    and a: "cn_state conn = ConnActive a" "cd_io (ac_codec a) = demo_pipes"
    and reach: "reachable_conn demo_rt pipe_transport pd_taken pd_written Server demo_config conn" .
  have "pd_taken demo_pipes = []" "pd_written demo_pipes = []" by (simp_all add: demo_pipes_def)
  from connection_new_inv(1) [where taken = pd_taken and written = pd_written, OF new demo_typed this] a(1)
  have i: "codec_in pd_taken (ac_codec a) []" "codec_out pd_written (ac_codec a) []"
    by (simp_all add: conn_inv_def running_inv_def active_inv_def)
  define d where d: "d = downgraded_new (ac_codec a) False"
  obtain store ws where "streams_drop (ac_streams a) = (store, ws)" by fastforce
  then have start: "conn_downgrade conn = (Ok d, store, ws)" using a(1) by (simp add: conn_downgrade_def into_codec_def d)
  have inv: "downgrade_inv pd_taken pd_written d [] []"
    unfolding d by (rule downgraded_new_inv) (use i in \<open>simp_all add: reader_inv_def term_in_def\<close>)
  have arrived: "term_arrived pd_taken pd_ahead d []"
    unfolding term_arrived_def by (intro disjI2 exI [of _ "ac_codec a"] exI [of _ "[]"] exI [of _ "[1, 2]"])
      (simp add: d downgraded_new_def a(2) demo_pipes_def)
  from downgraded_poll_completes [OF pipe_transport_ok pipes.ready_source_axioms pipe_accepting demo_limit inv arrived]
  obtain io d1 where poll: "downgraded_poll demo_rt pipe_transport 1 d = Some (Ready (Ok io), d1)" by blast
  note clean = downgrade_clean [OF pipe_transport_ok reach a(1) disjI1 [OF start] rtranclp.rtrancl_refl demo_limit poll]
  show ?thesis
    using start poll clean [THEN conjunct2, THEN conjunct1] by (intro exI [of _ conn] exI [of _ d] exI [of _ store] exI [of _ ws] exI [of _ io] exI [of _ d1] conjI)
qed

end
