(* ===== verification/Buffer.thy ===== *)
theory Buffer
  imports Inbound
begin

text \<open>
  The buffers of received data (\<^verbatim>\<open>src/buffer.rs\<close>). A buffer is one allocation: 16 bytes for the link of a forward
  list, then the data. The link is a fat pointer, an address and a length; it is stored as on a 64 bit
  little endian machine. Bytes that are not initialised are \<open>None\<close>. The list works on the memory that it
  owns, a map from addresses to storages; a box that is pushed brings its address. Whatever would be undefined behaviour (reading a link that
  is not there, freeing what is not allocated, taking over bytes that were not initialised) is \<open>Panic\<close>.

  The theorems show that this never happens, that the list is a queue of byte strings, the one that
  the receiving direction of a stream uses, that it owns every node exactly once, and that the data survives the link.
\<close>

section \<open>Definitions\<close>

subsection \<open>Links\<close>

type_synonym usize_word = "64 word"

type_synonym next_link = "usize_word \<times> usize_word"

definition LINK_SIZE :: nat where
  "LINK_SIZE = 16"

definition u64_to_le_bytes :: "usize_word \<Rightarrow> u8 list" where
  "u64_to_le_bytes w = map (\<lambda>i. ucast (drop_bit (8 * i) w)) [0..<8]"

definition u64_from_le_bytes :: "u8 list \<Rightarrow> usize_word" where
  "u64_from_le_bytes bs = foldr (\<lambda>b w. or (ucast b) (push_bit 8 w)) bs 0"

definition link_to_bytes :: "next_link \<Rightarrow> u8 list" where
  "link_to_bytes l = u64_to_le_bytes (fst l) @ u64_to_le_bytes (snd l)"

definition link_of_bytes :: "u8 list \<Rightarrow> next_link" where
  "link_of_bytes bs = (u64_from_le_bytes (take 8 bs), u64_from_le_bytes (take 8 (drop 8 bs)))"

subsection \<open>Buffers and data\<close>

type_synonym buffer = "u8 option list"

text \<open>
  The address of the empty slice that the first link points to is up to the compiler. No allocation is
  larger than \<^verbatim>\<open>isize::MAX\<close>: adding the link overflows, or the allocation panics.
\<close>

definition with_capacity :: "usize_word \<Rightarrow> nat \<Rightarrow> (buffer, 'e) rres" where
  "with_capacity stub capacity =
     (if capacity = 0 then Ok []
      else if capacity + LINK_SIZE < 2 ^ 63 then Ok (map Some (link_to_bytes (stub, 0)) @ replicate capacity None)
      else Panic)"

definition buffer_slice :: "buffer \<Rightarrow> u8 option list" where
  "buffer_slice b = (if LINK_SIZE \<le> length b then drop LINK_SIZE b else [])"

text \<open>Writing bytes into the mutable slice, from a position on.\<close>

definition buffer_fill :: "buffer \<Rightarrow> nat \<Rightarrow> u8 list \<Rightarrow> (buffer, 'e) rres" where
  "buffer_fill b i bs =
     (if i + length bs \<le> length (buffer_slice b)
      then Ok (take (LINK_SIZE + i) b @ map Some bs @ drop (LINK_SIZE + i + length bs) b) else Panic)"

definition assume_init :: "buffer \<Rightarrow> (u8 list, 'e) rres" where
  "assume_init b = (if None \<in> set b then Panic else Ok (map the b))"

definition data_as_ref :: "u8 list \<Rightarrow> data" where
  "data_as_ref d = (if LINK_SIZE \<le> length d then drop LINK_SIZE d else [])"

definition bytes_from :: "u8 list \<Rightarrow> (data, 'e) rres" where
  "bytes_from d = (if d = [] then Ok [] else if LINK_SIZE \<le> length d then Ok (drop LINK_SIZE d) else Panic)"

subsection \<open>The list\<close>

text \<open>A box with its address, and the memory that a list owns.\<close>

type_synonym data_box = "usize_word \<times> u8 list"

type_synonym memory = "usize_word \<rightharpoonup> u8 list"

record data_list =
  dl_head :: "next_link option"
  dl_tail :: "next_link option"

definition dl_default :: data_list where
  "dl_default = \<lparr>dl_head = None, dl_tail = None\<rparr>"

definition into_raw :: "data_box \<Rightarrow> next_link" where
  "into_raw d = (fst d, word_of_nat (length (snd d)))"

definition from_raw :: "next_link \<Rightarrow> memory \<Rightarrow> (data_box \<times> memory, 'e) rres" where
  "from_raw l mem = (case mem (fst l) of
      Some storage \<Rightarrow> if length storage = unat (snd l) then Ok ((fst l, storage), mem(fst l := None)) else Panic
    | None \<Rightarrow> Panic)"

definition dl_next :: "u8 list \<Rightarrow> (next_link, 'e) rres" where
  "dl_next storage = (if LINK_SIZE \<le> length storage then Ok (link_of_bytes (take LINK_SIZE storage)) else Panic)"

definition dl_set_next :: "next_link \<Rightarrow> next_link \<Rightarrow> memory \<Rightarrow> (memory, 'e) rres" where
  "dl_set_next to link mem = (case mem (fst to) of
      Some storage \<Rightarrow>
        if LINK_SIZE \<le> length storage then Ok (mem(fst to \<mapsto> link_to_bytes link @ drop LINK_SIZE storage)) else Panic
    | None \<Rightarrow> Panic)"

definition dl_pop_front :: "data_list \<Rightarrow> memory \<Rightarrow> (data_box option \<times> data_list \<times> memory, 'e) rres" where
  "dl_pop_front l mem = (case dl_head l of
      None \<Rightarrow> Ok (None, l, mem)
    | Some h \<Rightarrow>
        r_bind (from_raw h mem) (\<lambda>(storage, mem).
          if dl_head l = dl_tail l then Ok (Some storage, \<lparr>dl_head = None, dl_tail = None\<rparr>, mem)
          else r_bind (dl_next (snd storage)) (\<lambda>new_head. Ok (Some storage, l\<lparr>dl_head := Some new_head\<rparr>, mem))))"

definition dl_push_back :: "data_list \<Rightarrow> memory \<Rightarrow> data_box \<Rightarrow> (data_list \<times> memory, 'e) rres" where
  "dl_push_back l mem d =
     (if snd d = [] then Ok (l, mem)
      else
        let link = into_raw d; mem = mem(fst d \<mapsto> snd d)
        in case dl_tail l of
             Some t \<Rightarrow> r_bind (dl_set_next t link mem) (\<lambda>mem. Ok (l\<lparr>dl_tail := Some link\<rparr>, mem))
           | None \<Rightarrow> Ok (l\<lparr>dl_head := Some link, dl_tail := Some link\<rparr>, mem))"

definition dl_is_empty :: "data_list \<Rightarrow> bool" where
  "dl_is_empty l \<longleftrightarrow> dl_head l = None"

text \<open>Dropping the list pops until it is empty; the result is the memory that is left.\<close>

partial_function (option) dl_drop :: "data_list \<Rightarrow> memory \<Rightarrow> (memory, unit) rres option" where
  "dl_drop l mem = (case dl_pop_front l mem of
      Ok (Some _, l, mem) \<Rightarrow> dl_drop l mem
    | Ok (None, l, mem) \<Rightarrow> Some (Ok mem)
    | Err e \<Rightarrow> Some (Err e)
    | Panic \<Rightarrow> Some Panic)"

section \<open>Specification\<close>

text \<open>The list has the nodes \<open>ns\<close>, addresses with the data there, and owns nothing else.\<close>

definition box_ok :: "u8 list \<Rightarrow> bool" where
  "box_ok storage \<longleftrightarrow> storage = [] \<or> LINK_SIZE < length storage \<and> length storage < 2 ^ 64"

definition node_link :: "usize_word \<times> data \<Rightarrow> next_link" where
  "node_link n = (fst n, word_of_nat (LINK_SIZE + length (snd n)))"

definition node_ok :: "memory \<Rightarrow> usize_word \<times> data \<Rightarrow> bool" where
  "node_ok mem n \<longleftrightarrow> snd n \<noteq> [] \<and> LINK_SIZE + length (snd n) < 2 ^ 64
     \<and> (\<exists>link. length link = LINK_SIZE \<and> mem (fst n) = Some (link @ snd n))"

definition dl_rep :: "data_list \<Rightarrow> memory \<Rightarrow> (usize_word \<times> data) list \<Rightarrow> bool" where
  [inv_defs]: "dl_rep l mem ns \<longleftrightarrow> distinct (map fst ns) \<and> dom mem = fst ` set ns \<and> (\<forall>n \<in> set ns. node_ok mem n)
     \<and> (\<forall>i. Suc i < length ns \<longrightarrow> take LINK_SIZE (the (mem (fst (ns ! i)))) = link_to_bytes (node_link (ns ! Suc i)))
     \<and> dl_head l = (if ns = [] then None else Some (node_link (hd ns)))
     \<and> dl_tail l = (if ns = [] then None else Some (node_link (last ns)))"

text \<open>Runs of operations, on the list and on a queue of byte strings.\<close>

datatype dl_op = OpPush data_box | OpPop

fun run_list :: "dl_op list \<Rightarrow> data_list \<Rightarrow> memory \<Rightarrow> (data option list \<times> data_list \<times> memory, unit) rres" where
  "run_list [] l mem = Ok ([], l, mem)"
| "run_list (OpPush d # ops) l mem = r_bind (dl_push_back l mem d) (\<lambda>(l, mem). run_list ops l mem)"
| "run_list (OpPop # ops) l mem = r_bind (dl_pop_front l mem) (\<lambda>(d, l, mem).
     r_bind (run_list ops l mem) (\<lambda>(outs, l, mem). Ok (map_option (\<lambda>d. data_as_ref (snd d)) d # outs, l, mem)))"

fun run_queue :: "dl_op list \<Rightarrow> data list \<Rightarrow> data option list \<times> data list" where
  "run_queue [] q = ([], q)"
| "run_queue (OpPush d # ops) q = run_queue ops (data_push_back q (data_as_ref (snd d)))"
| "run_queue (OpPop # ops) [] = (let (outs, q) = run_queue ops [] in (None # outs, q))"
| "run_queue (OpPop # ops) (d # q) = (let (outs, q) = run_queue ops q in (Some d # outs, q))"

text \<open>The boxes that are pushed are well-formed and are not in the list already: no two live boxes have the same address.\<close>

fun boxes_fresh :: "dl_op list \<Rightarrow> usize_word list \<Rightarrow> bool" where
  "boxes_fresh [] as \<longleftrightarrow> True"
| "boxes_fresh (OpPush d # ops) as \<longleftrightarrow> box_ok (snd d) \<and> fst d \<notin> set as \<and> boxes_fresh ops (if snd d = [] then as else as @ [fst d])"
| "boxes_fresh (OpPop # ops) as \<longleftrightarrow> boxes_fresh ops (tl as)"

section \<open>Lemmas\<close>

lemma length_u64_le [simp]: "length (u64_to_le_bytes w) = 8"
  by (simp add: u64_to_le_bytes_def)

lemma u64_le_roundtrip [simp]: "u64_from_le_bytes (u64_to_le_bytes w) = w"
proof (rule bit_word_eqI)
  fix n assume "n < LENGTH(64)"
  then consider "n < 8" | "8 \<le> n" "n < 16" | "16 \<le> n" "n < 24" | "24 \<le> n" "n < 32"
    | "32 \<le> n" "n < 40" | "40 \<le> n" "n < 48" | "48 \<le> n" "n < 56" | "56 \<le> n" "n < 64" by fastforce
  then show "bit (u64_from_le_bytes (u64_to_le_bytes w)) n = bit w n"
    by cases (auto simp: u64_to_le_bytes_def u64_from_le_bytes_def bit_simps upt_rec)
qed

lemma link_roundtrip [simp]: "link_of_bytes (link_to_bytes l) = l" "length (link_to_bytes l) = LINK_SIZE"
  by (simp_all add: link_of_bytes_def link_to_bytes_def LINK_SIZE_def)

subsection \<open>The list\<close>

lemma box_split:
  assumes "box_ok storage" "storage \<noteq> []"
  obtains link d where "storage = link @ d" "length link = LINK_SIZE" "d \<noteq> []" "data_as_ref storage = d" "LINK_SIZE + length d < 2 ^ 64"
  using assms by (intro that [of "take LINK_SIZE storage" "drop LINK_SIZE storage"]) (auto simp: box_ok_def data_as_ref_def)

lemma dl_rep_default: "dl_rep dl_default Map.empty []"
  by (simp add: dl_rep_def dl_default_def)

lemma push_empty:
  assumes "dl_rep l mem []" "a \<notin> dom mem" "length link = LINK_SIZE" "d \<noteq> []" "LINK_SIZE + length d < 2 ^ 64"
  shows "\<exists>l' mem'. dl_push_back l mem (a, link @ d) = Ok (l', mem') \<and> dl_rep l' mem' [(a, d)]"
  using assms by (simp add: dl_push_back_def dl_rep_def into_raw_def node_ok_def node_link_def Let_def)

lemma push_nonempty:
  assumes rep: "dl_rep l mem ns" "ns \<noteq> []" and a: "a \<notin> dom mem"
    and d: "length link = LINK_SIZE" "d \<noteq> []" "LINK_SIZE + length d < 2 ^ 64"
  shows "\<exists>l' mem'. dl_push_back l mem (a, link @ d) = Ok (l', mem') \<and> dl_rep l' mem' (ns @ [(a, d)])"
proof -
  let ?last = "last ns"
  have ok: "node_ok mem ?last" and r: "distinct (map fst ns)" "dom mem = fst ` set ns" "dl_tail l = Some (node_link ?last)" "dl_head l = Some (node_link (hd ns))"
    "\<forall>i. Suc i < length ns \<longrightarrow> take LINK_SIZE (the (mem (fst (ns ! i)))) = link_to_bytes (node_link (ns ! Suc i))" "\<forall>n \<in> set ns. node_ok mem n"
    using rep by (auto simp: dl_rep_def)
  obtain old where old: "length old = LINK_SIZE" "mem (fst ?last) = Some (old @ snd ?last)" using ok by (auto simp: node_ok_def)
  have na: "fst ?last \<noteq> a" using a old(2) by auto
  let ?new = "(a, word_of_nat (LINK_SIZE + length d)) :: next_link"
  let ?mem = "(mem(a \<mapsto> link @ d))(fst ?last \<mapsto> link_to_bytes ?new @ snd ?last)"
  have op: "dl_push_back l mem (a, link @ d) = (Ok (l\<lparr>dl_tail := Some ?new\<rparr>, ?mem) :: (_, 'e) rres)"
    using r(3) d old na by (simp add: dl_push_back_def into_raw_def dl_set_next_def node_link_def Let_def)
  have last_i: "ns ! i = ?last \<longleftrightarrow> Suc i = length ns" if "i < length ns" for i
    using that r(1) rep(2) by (auto simp: last_conv_nth distinct_map nth_eq_iff_index_eq)
  have fst_i: "fst (ns ! i) = fst ?last \<longleftrightarrow> Suc i = length ns" if "i < length ns" for i
    using that r(1) last_i [OF that] last_in_set [OF rep(2)] nth_mem [OF that] by (metis (no_types, lifting) distinct_map inj_onD)
  have an: "a \<notin> fst ` set ns" using a r(2) by simp
  have "take LINK_SIZE (the (?mem (fst ((ns @ [(a, d)]) ! i)))) = link_to_bytes (node_link ((ns @ [(a, d)]) ! Suc i))" if i: "Suc i < length (ns @ [(a, d)])" for i
  proof -
    have i': "i < length ns" using i by simp
    then have ai: "fst (ns ! i) \<noteq> a" using an by force
    show ?thesis
    proof (cases "Suc i = length ns")
      case True
      then have "fst (ns ! i) = fst ?last" using fst_i [OF i'] by simp
      then show ?thesis using i' True by (simp add: nth_append node_link_def)
    next
      case False
      then have "fst (ns ! i) \<noteq> fst ?last" using fst_i [OF i'] by simp
      then show ?thesis using i' False ai r(5) by (simp add: nth_append)
    qed
  qed
  moreover have "node_ok ?mem n" if "n \<in> set ns" for n
  proof (cases "fst n = fst ?last")
    case True
    then have "n = ?last" using r(1) that last_in_set [OF rep(2)] by (metis distinct_map inj_onD)
    then show ?thesis using ok by (auto simp: node_ok_def)
  next
    case False
    have "fst n \<noteq> a" using that an by force
    then show ?thesis using False r(6) that by (auto simp: node_ok_def)
  qed
  moreover have "node_ok ?mem (a, d)" using d na by (auto simp: node_ok_def)
  moreover have "dom ?mem = fst ` set (ns @ [(a, d)])" using r(2) old(2) by auto
  ultimately have "dl_rep (l\<lparr>dl_tail := Some ?new\<rparr>) ?mem (ns @ [(a, d)])"
    using r(1,4) an rep(2) unfolding dl_rep_def by (auto simp: node_link_def)
  then show ?thesis using op by blast
qed

lemma push_rep:
  assumes "dl_rep l mem ns" "fst x \<notin> fst ` set ns" "box_ok (snd x)"
  shows "\<exists>l' mem'. dl_push_back l mem x = Ok (l', mem') \<and> dl_rep l' mem' (if snd x = [] then ns else ns @ [(fst x, data_as_ref (snd x))])"
proof (cases "snd x = []")
  case True
  then show ?thesis using assms(1) by (simp add: dl_push_back_def)
next
  case False
  from box_split [OF assms(3) False] obtain link d where x: "snd x = link @ d" "length link = LINK_SIZE" "d \<noteq> []"
    "data_as_ref (snd x) = d" "LINK_SIZE + length d < 2 ^ 64" .
  have xx: "x = (fst x, link @ d)" using x(1) by (cases x) simp
  have na: "fst x \<notin> dom mem" using assms(1,2) by (simp add: dl_rep_def)
  have "\<exists>l' mem'. dl_push_back l mem (fst x, link @ d) = Ok (l', mem') \<and> dl_rep l' mem' (ns @ [(fst x, d)])"
  proof (cases "ns = []")
    case True
    then show ?thesis using push_empty [OF _ na x(2,3,5)] assms(1) by simp
  qed (rule push_nonempty [OF assms(1) _ na x(2,3,5)])
  then show ?thesis using xx x(4) False by simp
qed

lemma pop_rep:
  assumes rep: "dl_rep l mem ((a, d) # ns)"
  shows "\<exists>storage l' mem'. dl_pop_front l mem = Ok (Some (a, storage), l', mem') \<and> dl_rep l' mem' ns \<and> data_as_ref storage = d \<and> box_ok storage"
proof -
  have r: "a \<notin> fst ` set ns" "distinct (map fst ns)" "dom mem = insert a (fst ` set ns)" "node_ok mem (a, d)" "\<forall>n \<in> set ns. node_ok mem n"
    "dl_head l = Some (node_link (a, d))" "dl_tail l = Some (node_link (last ((a, d) # ns)))"
    and links: "\<And>i. Suc i < length ((a, d) # ns) \<Longrightarrow>
      take LINK_SIZE (the (mem (fst (((a, d) # ns) ! i)))) = link_to_bytes (node_link (((a, d) # ns) ! Suc i))"
    using rep by (auto simp: dl_rep_def)
  obtain link where st: "length link = LINK_SIZE" "mem a = Some (link @ d)" "d \<noteq> []" "LINK_SIZE + length d < 2 ^ 64"
    using r(4) by (auto simp: node_ok_def)
  have raw: "from_raw (node_link (a, d)) mem = (Ok ((a, link @ d), mem(a := None)) :: (_, 'e) rres)"
    using st by (simp add: from_raw_def node_link_def unat_of_nat del: of_nat_add)
  have keep: "node_ok (mem(a := None)) n" if "n \<in> set ns" for n using r(1,5) that by (force simp: node_ok_def)
  have data: "data_as_ref (link @ d) = d" "box_ok (link @ d)" using st by (simp_all add: data_as_ref_def box_ok_def)
  show ?thesis
  proof (cases "ns = []")
    case True
    then have "dl_pop_front l mem = (Ok (Some (a, link @ d), \<lparr>dl_head = None, dl_tail = None\<rparr>, mem(a := None)) :: (_, 'e) rres)"
      by (simp add: dl_pop_front_def r(6,7) raw)
    moreover have "dl_rep \<lparr>dl_head = None, dl_tail = None\<rparr> (mem(a := None)) ns" using True r(3) by (simp add: dl_rep_def)
    ultimately show ?thesis using data by blast
  next
    case False
    then have "fst (last ns) \<noteq> a" using r(1) last_in_set by force
    then have ne: "dl_head l \<noteq> dl_tail l" using r(6,7) False by (simp add: node_link_def)
    have "take LINK_SIZE (link @ d) = link_to_bytes (node_link (hd ns))" using links [of 0] False st(2) by (simp add: hd_conv_nth)
    then have nxt: "dl_next (link @ d) = (Ok (node_link (hd ns)) :: (_, 'e) rres)" using st(1) by (simp add: dl_next_def)
    have "dl_pop_front l mem = (Ok (Some (a, link @ d), l\<lparr>dl_head := Some (node_link (hd ns))\<rparr>, mem(a := None)) :: (_, 'e) rres)"
      using ne by (simp add: dl_pop_front_def r(6) raw nxt)
    moreover have "take LINK_SIZE (the ((mem(a := None)) (fst (ns ! i)))) = link_to_bytes (node_link (ns ! Suc i))" if "Suc i < length ns" for i
    proof -
      have "fst (ns ! i) \<noteq> a" using r(1) that nth_mem [of i ns] by force
      then show ?thesis using links [of "Suc i"] that by simp
    qed
    then have "dl_rep (l\<lparr>dl_head := Some (node_link (hd ns))\<rparr>) (mem(a := None)) ns"
      using False r keep by (auto simp: dl_rep_def)
    ultimately show ?thesis using data by blast
  qed
qed

lemma pop_empty: "dl_rep l mem [] \<Longrightarrow> dl_pop_front l mem = Ok (None, l, mem)"
  by (simp add: dl_rep_def dl_pop_front_def)

lemma run_rep:
  "dl_rep l mem ns \<Longrightarrow> boxes_fresh ops (map fst ns) \<Longrightarrow>
    \<exists>l' mem' ns'. run_list ops l mem = Ok (fst (run_queue ops (map snd ns)), l', mem') \<and> dl_rep l' mem' ns' \<and> map snd ns' = snd (run_queue ops (map snd ns))"
proof (induction ops arbitrary: l mem ns)
  case (Cons x ops)
  show ?case
  proof (cases x)
    case (OpPush d)
    have d: "box_ok (snd d)" "fst d \<notin> fst ` set ns" "boxes_fresh ops (if snd d = [] then map fst ns else map fst ns @ [fst d])"
      using Cons.prems(2) OpPush by (auto split: if_splits)
    obtain l' mem' where l': "dl_push_back l mem d = (Ok (l', mem') :: (_, unit) rres)"
      "dl_rep l' mem' (if snd d = [] then ns else ns @ [(fst d, data_as_ref (snd d))])"
      using push_rep [OF Cons.prems(1) d(2,1)] by blast
    have eq: "map snd (if snd d = [] then ns else ns @ [(fst d, data_as_ref (snd d))]) = data_push_back (map snd ns) (data_as_ref (snd d))"
      using d(1) by (auto simp: data_push_back_def data_as_ref_def box_ok_def)
    from Cons.IH [OF l'(2)] d(3) l'(1) eq OpPush show ?thesis by (auto split: if_splits)
  next
    case OpPop
    show ?thesis
    proof (cases ns)
      case Nil
      have "dl_pop_front l mem = (Ok (None, l, mem) :: (_, unit) rres)" using pop_empty Cons.prems(1) Nil by simp
      then show ?thesis using Cons.IH [OF Cons.prems(1)] Cons.prems(2) OpPop Nil by (auto simp: split_beta Let_def)
    next
      case (Cons n ns')
      obtain a d where n: "n = (a, d)" by fastforce
      obtain storage l' mem' where l': "dl_pop_front l mem = (Ok (Some (a, storage), l', mem') :: (_, unit) rres)" "dl_rep l' mem' ns'" "data_as_ref storage = d"
        using pop_rep [of l mem a d ns'] Cons.prems(1) Cons n by blast
      from Cons.IH [OF l'(2)] Cons.prems(2) l'(1,3) OpPop Cons n show ?thesis by (auto simp: split_beta Let_def)
    qed
  qed
qed auto

lemma drop_rep: "dl_rep l mem ns \<Longrightarrow> dl_drop l mem = Some (Ok Map.empty)"
proof (induction ns arbitrary: l mem)
  case Nil
  then have "mem = Map.empty" by (simp add: dl_rep_def)
  then show ?case using Nil by (subst dl_drop.simps) (simp add: pop_empty)
next
  case (Cons n ns)
  obtain a d where n: "n = (a, d)" by fastforce
  obtain storage l' mem' where "dl_pop_front l mem = (Ok (Some (a, storage), l', mem') :: (_, unit) rres)" "dl_rep l' mem' ns"
    using pop_rep [of l mem a d ns] Cons.prems n by blast
  then show ?case using Cons.IH by (subst dl_drop.simps) simp
qed

subsection \<open>Filling a buffer\<close>

fun fill_chunks :: "buffer \<Rightarrow> nat \<Rightarrow> data list \<Rightarrow> (buffer, 'e) rres" where
  "fill_chunks b i [] = Ok b"
| "fill_chunks b i (bs # chunks) = r_bind (buffer_fill b i bs) (\<lambda>b. fill_chunks b (i + length bs) chunks)"

definition filled_buffer :: "usize_word \<Rightarrow> nat \<Rightarrow> data \<Rightarrow> buffer" where
  "filled_buffer stub n got = map Some (link_to_bytes (stub, 0) @ got) @ replicate (n - length got) None"

lemma fill_filled:
  assumes "length got + length bs \<le> n"
  shows "buffer_fill (filled_buffer stub n got) (length got) bs = Ok (filled_buffer stub n (got @ bs))"
  using assms by (simp add: buffer_fill_def filled_buffer_def buffer_slice_def)

lemma fill_chunks_filled:
  "length got + length (concat chunks) \<le> n
    \<Longrightarrow> fill_chunks (filled_buffer stub n got) (length got) chunks = (Ok (filled_buffer stub n (got @ concat chunks)) :: (buffer, 'e) rres)"
proof (induction chunks arbitrary: got)
  case (Cons bs chunks)
  have "fill_chunks (filled_buffer stub n (got @ bs)) (length (got @ bs)) chunks = (Ok (filled_buffer stub n ((got @ bs) @ concat chunks)) :: (buffer, 'e) rres)"
    using Cons.prems by (intro Cons.IH) simp
  then show ?case using Cons.prems by (simp add: fill_filled)
qed simp

lemma filled_init:
  assumes "length got \<le> n"
  shows "assume_init (filled_buffer stub n got) = (if length got = n then Ok (link_to_bytes (stub, 0) @ got) else Panic)"
  using assms by (auto simp: assume_init_def filled_buffer_def comp_def)

subsection \<open>The properties\<close>

text \<open>
  C38. The list of received data is a queue of byte strings: any sequence of pushes and pops gives, byte for
  byte, the results of the same operations on a list, the one that the receiving direction of a stream uses,
  although the list keeps its links inside the data's own allocation. Empty data is not stored. No operation reads a link
  that is not there or frees a node that the list does not own, provided that the boxes that are pushed are live ones.
\<close>

theorem data_list_equivalence:
  assumes "boxes_fresh ops []"
  shows "\<exists>l mem. run_list ops dl_default Map.empty = Ok (fst (run_queue ops []), l, mem)
    \<and> (dl_is_empty l \<longleftrightarrow> snd (run_queue ops []) = [])"
proof -
  from run_rep [OF dl_rep_default, of ops] assms obtain l mem ns where
    r: "run_list ops dl_default Map.empty = Ok (fst (run_queue ops []), l, mem)" "dl_rep l mem ns" "map snd ns = snd (run_queue ops [])" by auto
  have "dl_is_empty l \<longleftrightarrow> ns = []" using r(2) by (simp add: dl_is_empty_def dl_rep_def)
  then show ?thesis using r by auto
qed

theorem data_list_equivalence_witness:
  "\<exists>l mem. run_list [OpPush (64, replicate 16 0 @ [7, 8]), OpPush (128, []), OpPush (192, replicate 16 0 @ [9]), OpPop, OpPop, OpPop] dl_default Map.empty
    = Ok ([Some [7, 8], Some [9], None], l, mem) \<and> dl_is_empty l"
  using data_list_equivalence [of "[OpPush (64, replicate 16 0 @ [7, 8]), OpPush (128, []), OpPush (192, replicate 16 0 @ [9]), OpPop, OpPop, OpPop]"]
  by (simp add: box_ok_def LINK_SIZE_def data_push_back_def data_as_ref_def)

text \<open>
  C39. Dropping the list frees every node exactly once and nothing else, and the loop that does it ends.
\<close>

theorem data_list_drop_frees:
  assumes "boxes_fresh ops []" and "run_list ops dl_default Map.empty = Ok (outs, l, mem)"
  shows "dl_drop l mem = Some (Ok Map.empty)"
proof -
  from run_rep [OF dl_rep_default, of ops] assms obtain ns where "dl_rep l mem ns" by auto
  then show ?thesis by (rule drop_rep)
qed

theorem data_list_drop_frees_witness:
  "case run_list [OpPush (64, replicate 16 0 @ [7, 8]), OpPush (192, replicate 16 0 @ [9])] dl_default Map.empty of
     Ok (outs, l, mem) \<Rightarrow> dl_drop l mem = Some (Ok Map.empty) | _ \<Rightarrow> False"
proof -
  let ?ops = "[OpPush (64, replicate 16 0 @ [7, 8]), OpPush (192, replicate 16 0 @ [9])]"
  have fresh: "boxes_fresh ?ops []" by (simp add: box_ok_def LINK_SIZE_def)
  obtain l mem ns where run: "run_list ?ops dl_default Map.empty = Ok (fst (run_queue ?ops []), l, mem)"
    using run_rep [OF dl_rep_default, of ?ops] fresh by auto
  from data_list_drop_frees [OF fresh run] show ?thesis by (simp only: run rres.case prod.case)
qed

text \<open>
  C40. The data of a frame survives its way through a buffer. A buffer of the announced length that is filled by
  reads of any sizes holds, once it is full, exactly the bytes that were read, for whoever looks at it and for
  whoever takes it as bytes, and it is a proper node of a list; before it is full, taking it over would be
  undefined, which is why the decoder waits.
\<close>

theorem buffer_roundtrip:
  assumes "n + LINK_SIZE < 2 ^ 63" and "length (concat chunks) \<le> n" and "0 < n"
  shows "\<exists>b. r_bind (with_capacity stub n) (\<lambda>b. fill_chunks b 0 chunks) = (Ok b :: (buffer, 'e) rres) \<and> length (buffer_slice b) = n
    \<and> (if length (concat chunks) = n
       then \<exists>storage. assume_init b = (Ok storage :: (u8 list, 'e) rres) \<and> data_as_ref storage = concat chunks
         \<and> bytes_from storage = (Ok (concat chunks) :: (data, 'e) rres) \<and> box_ok storage
       else assume_init b = (Panic :: (u8 list, 'e) rres))"
proof -
  have new: "with_capacity stub n = (Ok (filled_buffer stub n []) :: (buffer, 'e) rres)"
    using assms by (simp add: with_capacity_def filled_buffer_def)
  have fill: "fill_chunks (filled_buffer stub n []) 0 chunks = (Ok (filled_buffer stub n (concat chunks)) :: (buffer, 'e) rres)"
    using fill_chunks_filled [of "[]" chunks n stub] assms(2) by simp
  have "length (buffer_slice (filled_buffer stub n (concat chunks))) = n"
    using assms(2) by (simp add: buffer_slice_def filled_buffer_def)
  moreover have "data_as_ref (link_to_bytes (stub, 0) @ concat chunks) = concat chunks"
    "bytes_from (link_to_bytes (stub, 0) @ concat chunks) = (Ok (concat chunks) :: (data, 'e) rres)"
    by (auto simp: data_as_ref_def bytes_from_def)
  moreover have "box_ok (link_to_bytes (stub, 0) @ concat chunks)" if "length (concat chunks) = n"
    using that assms by (auto simp: box_ok_def)
  ultimately show ?thesis using new fill filled_init [OF assms(2), of stub, where ?'a = 'e] by auto
qed

theorem buffer_roundtrip_witness:
  "\<exists>b storage. r_bind (with_capacity 1 3) (\<lambda>b. fill_chunks b 0 [[7], [8, 9]]) = (Ok b :: (buffer, unit) rres)
    \<and> assume_init b = (Ok storage :: (u8 list, unit) rres) \<and> data_as_ref storage = [7, 8, 9]"
  using buffer_roundtrip [of 3 "[[7], [8, 9]]" 1, where ?'e = unit] by (auto simp: LINK_SIZE_def)

end
