(* ===== verification/Link.thy ===== *)
theory Link
  imports Streams Encoder
begin

text \<open>
  Two peers with compatible configurations, joined by two channels that deliver updates in order. A
  peer polls its streams for updates (\<^verbatim>\<open>src/stream/updates.rs\<close>), takes the updates of the other peer
  through the handles of its streams (\<^verbatim>\<open>src/stream/handle.rs\<close>), and its application uses the halves of the
  streams (\<^verbatim>\<open>src/stream/duplex.rs\<close>), in any interleaving. A direction of a stream joins the
  \<open>outbound\<close> of one peer with the \<open>inbound\<close> of the other; both count bytes in windows and pools of
  their own. The invariant \<open>flow_link\<close> relates these counts and what is on the way.

  The theorems of this theory are about the two ends together: peers that follow the code never
  violate the protocol, so no update is ever refused, and what one application reads is what the other one wrote.
\<close>

section \<open>Definitions\<close>

subsection \<open>Peers\<close>

text \<open>
  The last three fields record what the application wrote, what it read, and where it stopped reading.
\<close>

record peer =
  pr_store :: "sref \<Rightarrow> stream_state"
  pr_flow :: conn_flow
  pr_updates :: "sref \<Rightarrow> stream_updates"
  pr_written :: "sref \<Rightarrow> data"
  pr_read :: "sref \<Rightarrow> data"
  pr_stopped :: "sref \<Rightarrow> bool"

definition peer_new :: "rammux_config \<Rightarrow> instant \<Rightarrow> (sref \<Rightarrow> stream_updates) \<Rightarrow> peer" where
  "peer_new config now ups = \<lparr>pr_store = (\<lambda>_. stream_new config now),
     pr_flow = conn_flow_new (local_recv_pool config) (remote_recv_pool config), pr_updates = ups,
     pr_written = (\<lambda>_. []), pr_read = (\<lambda>_. []), pr_stopped = (\<lambda>_. False)\<rparr>"

type_synonym channel = "(sref \<times> stream_update) list"

text \<open>What the connection does with the progress of a stream: the update is sent, and a task that ends passes its turn.\<close>

definition peer_poll :: "(f64 \<Rightarrow> f64) \<Rightarrow> peer \<Rightarrow> sref \<Rightarrow> instant \<Rightarrow> channel \<times> peer" where
  "peer_poll fexp pr s now =
     (let (r, up, st, flow, ws) = poll_progress fexp (pr_updates pr s) (pr_store pr s) (pr_flow pr) s now;
          pr = pr\<lparr>pr_store := (pr_store pr)(s := st), pr_updates := (pr_updates pr)(s := up), pr_flow := flow\<rparr>
      in case r of
           Pending \<Rightarrow> ([], pr)
         | Ready (Break (u, fin)) \<Rightarrow> ([(s, u)], pr\<lparr>pr_flow := fst (transform_break flow s)\<rparr>)
         | Ready (Continue (u, fin)) \<Rightarrow> ([(s, u)], pr))"

text \<open>A frame carries the field of the credit only when there is some, as in \<open>stream_header_of\<close>.\<close>

definition peer_receive :: "(f64 \<Rightarrow> f64) \<Rightarrow> peer \<Rightarrow> sref \<Rightarrow> stream_update \<Rightarrow> instant \<Rightarrow> (peer, stream_error) rres" where
  "peer_receive fexp pr s u now =
     r_bind (handle_received fexp (non_zero (su_credit u)) (su_data u) (su_flags u) (pr_store pr s) (pr_flow pr) s now)
       (\<lambda>(fin, st, flow, ws). Ok (pr\<lparr>pr_store := (pr_store pr)(s := st), pr_flow := flow\<rparr>))"

definition put_stream :: "peer \<Rightarrow> sref \<Rightarrow> stream_state \<Rightarrow> peer" where
  "put_stream pr s st = pr\<lparr>pr_store := (pr_store pr)(s := st)\<rparr>"

inductive app_uses :: "sref \<Rightarrow> peer \<Rightarrow> peer \<Rightarrow> bool" for s :: sref and pr :: peer where
  ready: "app_uses s pr (put_stream pr s (snd (snd (sink_poll_ready h (pr_store pr s) w))))"
| writes: "sink_start_send h (pr_store pr s) d s = (Ok (), h', st, ws) \<Longrightarrow>
    app_uses s pr ((put_stream pr s st)\<lparr>pr_written := (pr_written pr)(s := pr_written pr s @ d)\<rparr>)"
| flush: "app_uses s pr (put_stream pr s (snd (sink_poll_flush h (pr_store pr s) w)))"
| close: "app_uses s pr (put_stream pr s (fst (snd (snd (sink_poll_close h (pr_store pr s) w s)))))"
| drop_sink: "app_uses s pr (put_stream pr s (fst (sink_drop h (pr_store pr s) s)))"
| reads: "stream_poll_next h (pr_store pr s) w s = Ok (r, h', st, ws) \<Longrightarrow>
    app_uses s pr ((put_stream pr s st)\<lparr>pr_read := (pr_read pr)(s := pr_read pr s @ (case r of Ready (Some d) \<Rightarrow> d | _ \<Rightarrow> []))\<rparr>)"
| drop_stream: "half_shared h \<Longrightarrow>
    app_uses s pr ((put_stream pr s (fst (stream_drop h (pr_store pr s) s)))\<lparr>pr_stopped := (pr_stopped pr)(s := True)\<rparr>)"

subsection \<open>The link\<close>

text \<open>
  One step of a peer, with the channel that it sends to and the channel that it receives from. A
  round trip sample is whatever the ping exchange measures.
\<close>

inductive side_step :: "(f64 \<Rightarrow> f64) \<Rightarrow> sref set \<Rightarrow> peer \<Rightarrow> channel \<Rightarrow> channel \<Rightarrow> peer \<Rightarrow> channel \<Rightarrow> channel \<Rightarrow> bool"
  for fexp :: "f64 \<Rightarrow> f64" and S :: "sref set" where
  polls: "s \<in> S \<Longrightarrow> peer_poll fexp pr s now = (ms, pr') \<Longrightarrow> side_step fexp S pr tx rx pr' (tx @ ms) rx"
| receives: "peer_receive fexp pr s u now = Ok pr' \<Longrightarrow> side_step fexp S pr tx ((s, u) # rx) pr' tx rx"
| uses: "s \<in> S \<Longrightarrow> app_uses s pr pr' \<Longrightarrow> side_step fexp S pr tx rx pr' tx rx"
| observes: "srtt_observe (cf_srtt (pr_flow pr)) rtt = (Ok t :: (srtt, unit) rres) \<Longrightarrow>
    side_step fexp S pr tx rx (pr\<lparr>pr_flow := (pr_flow pr)\<lparr>cf_srtt := t\<rparr>\<rparr>) tx rx"

record link =
  lk_a :: peer
  lk_b :: peer
  lk_ab :: channel
  lk_ba :: channel

inductive reachable_link :: "(f64 \<Rightarrow> f64) \<Rightarrow> sref set \<Rightarrow> rammux_config \<Rightarrow> rammux_config \<Rightarrow> link \<Rightarrow> bool"
  for fexp :: "f64 \<Rightarrow> f64" and S :: "sref set" and ca cb :: rammux_config where
  start: "reachable_link fexp S ca cb
    \<lparr>lk_a = peer_new ca t1 ups1, lk_b = peer_new cb t2 ups2, lk_ab = [], lk_ba = []\<rparr>"
| step_a: "reachable_link fexp S ca cb l \<Longrightarrow> side_step fexp S (lk_a l) (lk_ab l) (lk_ba l) pr tx rx \<Longrightarrow>
    reachable_link fexp S ca cb (l\<lparr>lk_a := pr, lk_ab := tx, lk_ba := rx\<rparr>)"
| step_b: "reachable_link fexp S ca cb l \<Longrightarrow> side_step fexp S (lk_b l) (lk_ba l) (lk_ab l) pr tx rx \<Longrightarrow>
    reachable_link fexp S ca cb (l\<lparr>lk_b := pr, lk_ba := tx, lk_ab := rx\<rparr>)"

section \<open>Specification\<close>

subsection \<open>What is on the way\<close>

text \<open>The updates of one stream on a channel, as amounts with a final mark.\<close>

definition msgs_of :: "sref \<Rightarrow> channel \<Rightarrow> stream_update list" where
  "msgs_of s ch = map snd (filter (\<lambda>m. fst m = s) ch)"

type_synonym amounts = "(nat \<times> bool) list"

abbreviation data_amount :: "stream_update \<Rightarrow> nat \<times> bool" where
  "data_amount u \<equiv> (length (su_data u), fin_write (su_flags u))"

abbreviation credit_amount :: "stream_update \<Rightarrow> nat \<times> bool" where
  "credit_amount u \<equiv> (unat (su_credit u), fin_read (su_flags u))"

fun total :: "amounts \<Rightarrow> nat" where
  "total [] = 0"
| "total (m # ms) = fst m + total ms"

fun fins :: "amounts \<Rightarrow> nat" where
  "fins [] = 0"
| "fins (m # ms) = of_bool (snd m) + fins ms"

text \<open>Nothing follows the final mark.\<close>

fun ends_well :: "amounts \<Rightarrow> bool" where
  "ends_well [] = True"
| "ends_well (m # ms) = ((snd m \<longrightarrow> total ms = 0 \<and> fins ms = 0) \<and> ends_well ms)"

definition in_closed :: "inbound \<Rightarrow> bool" where
  "in_closed i = (case in_state i of InClosed _ \<Rightarrow> True | _ \<Rightarrow> False)"

subsection \<open>One direction of a stream\<close>

text \<open>
  The sender counts everything that the receiver counts and everything that is on the way, until the
  receiver stops the direction; both \<^verbatim>\<open>FIN\<close>s are sent at most once, and nothing follows them.
\<close>

definition flow_link :: "outbound \<Rightarrow> inbound \<Rightarrow> amounts \<Rightarrow> amounts \<Rightarrow> bool" where
  "flow_link out i ds cs \<longleftrightarrow> win_base (out_window out) = win_base (in_window i)
     \<and> (if fin_read_received out then fin_read_sent i \<and> total cs = 0
        else unacked (in_window i) + total ds + total cs \<le> unacked (out_window out))
     \<and> fins cs = of_bool (fin_read_sent i \<and> \<not> fin_read_received out)
     \<and> (peer_finished i \<longrightarrow> sent (out_fin_state out) \<and> total ds = 0)
     \<and> fins ds = of_bool (sent (out_fin_state out) \<and> \<not> peer_finished i)
     \<and> ends_well ds \<and> ends_well cs"

text \<open>The bytes that were written are the ones that were read, queued, on the way, or not yet sent.\<close>

definition content_link :: "data \<Rightarrow> data \<Rightarrow> bool \<Rightarrow> outbound \<Rightarrow> inbound \<Rightarrow> data \<Rightarrow> bool" where
  "content_link written rd stopped out i way \<longleftrightarrow> prefix rd written
     \<and> (if stopped then in_closed i
        else written = rd @ concat (in_queued i) @ way @ out_data out \<and> (in_closed i \<longrightarrow> peer_finished i))"

text \<open>What the two ends of a direction do when they send and when they take what arrives.\<close>

definition out_put :: "outbound \<Rightarrow> data \<Rightarrow> bool \<Rightarrow> outbound \<Rightarrow> bool" where
  "out_put out d fin out' \<longleftrightarrow> win_base (out_window out') = win_base (out_window out)
     \<and> unacked (out_window out') = unacked (out_window out) + length d \<and> fin_read_received out' = fin_read_received out
     \<and> sent (out_fin_state out') = (sent (out_fin_state out) \<or> fin) \<and> (fin \<longrightarrow> \<not> sent (out_fin_state out))
     \<and> (d \<noteq> [] \<longrightarrow> \<not> sent (out_fin_state out) \<and> \<not> fin_read_received out) \<and> out_data out = d @ out_data out'"

definition in_put :: "inbound \<Rightarrow> nat \<Rightarrow> bool \<Rightarrow> inbound \<Rightarrow> bool" where
  "in_put i c fin i' \<longleftrightarrow> win_base (in_window i') = win_base (in_window i)
     \<and> (if fin then unacked (in_window i') = 0 \<and> c = 0 \<and> \<not> fin_read_sent i \<and> fin_read_sent i'
        else unacked (in_window i') + c = unacked (in_window i) \<and> fin_read_sent i' = fin_read_sent i
          \<and> (c \<noteq> 0 \<longrightarrow> \<not> fin_read_sent i))
     \<and> peer_finished i' = peer_finished i \<and> in_queued i' = in_queued i \<and> in_closed i' = in_closed i"

definition out_took :: "outbound \<Rightarrow> nat \<Rightarrow> bool \<Rightarrow> outbound \<Rightarrow> bool" where
  "out_took out c fin out' \<longleftrightarrow> win_base (out_window out') = win_base (out_window out)
     \<and> sent (out_fin_state out') = sent (out_fin_state out)
     \<and> (if fin then fin_read_received out' \<and> out_data out' = []
        else fin_read_received out' = fin_read_received out \<and> out_data out' = out_data out
          \<and> unacked (out_window out') = unacked (out_window out) - c)"

definition in_took :: "inbound \<Rightarrow> data \<Rightarrow> bool \<Rightarrow> inbound \<Rightarrow> bool" where
  "in_took i d fin i' \<longleftrightarrow> win_base (in_window i') = win_base (in_window i) \<and> fin_read_sent i' = fin_read_sent i
     \<and> peer_finished i' = (peer_finished i \<or> fin)
     \<and> unacked (in_window i') = (if fin_read_sent i then unacked (in_window i) else unacked (in_window i) + length d)
     \<and> (if in_closed i then in_closed i' else concat (in_queued i') = concat (in_queued i) @ d)
     \<and> (in_closed i' \<longrightarrow> in_closed i \<or> peer_finished i')"

subsection \<open>The link\<close>

definition peer_ok :: "sref set \<Rightarrow> peer \<Rightarrow> bool" where
  [inv_defs]: "peer_ok S pr \<longleftrightarrow> flow_ok S (pr_store pr) (pr_flow pr) \<and> (\<forall>s \<in> S. stream_inv (pr_store pr s))"

definition stream_link :: "peer \<Rightarrow> peer \<Rightarrow> channel \<Rightarrow> channel \<Rightarrow> sref \<Rightarrow> bool" where
  "stream_link a b ab ba s \<longleftrightarrow>
     flow_link (st_out (pr_store a s)) (st_in (pr_store b s))
       (map data_amount (msgs_of s ab)) (map credit_amount (msgs_of s ba))
     \<and> content_link (pr_written a s) (pr_read b s) (pr_stopped b s)
         (st_out (pr_store a s)) (st_in (pr_store b s)) (concat (map su_data (msgs_of s ab)))"

definition half_link :: "sref set \<Rightarrow> peer \<Rightarrow> peer \<Rightarrow> channel \<Rightarrow> channel \<Rightarrow> bool" where
  [inv_defs]: "half_link S a b ab ba \<longleftrightarrow> p_size (tx_pool (pr_flow a)) \<le> p_size (rx_pool (pr_flow b))
     \<and> (\<forall>m \<in> set ab. fst m \<in> S \<and> length (su_data (snd m)) \<le> u32_max) \<and> (\<forall>s \<in> S. stream_link a b ab ba s)"

definition link_ok :: "sref set \<Rightarrow> peer \<Rightarrow> peer \<Rightarrow> channel \<Rightarrow> channel \<Rightarrow> bool" where
  [inv_defs]: "link_ok S a b ab ba \<longleftrightarrow> peer_ok S a \<and> peer_ok S b \<and> half_link S a b ab ba \<and> half_link S b a ba ab"

text \<open>What a step of a peer keeps of it, apart from the stream \<open>s\<close>, and what a poll puts on the channel.\<close>

definition same_peer :: "sref \<Rightarrow> peer \<Rightarrow> peer \<Rightarrow> bool" where
  "same_peer s pr pr' \<longleftrightarrow> (\<forall>t. t \<noteq> s \<longrightarrow> pr_store pr' t = pr_store pr t \<and> pr_written pr' t = pr_written pr t
       \<and> pr_read pr' t = pr_read pr t \<and> pr_stopped pr' t = pr_stopped pr t)
     \<and> p_size (tx_pool (pr_flow pr')) = p_size (tx_pool (pr_flow pr))
     \<and> p_size (rx_pool (pr_flow pr')) = p_size (rx_pool (pr_flow pr))"

definition same_log :: "sref \<Rightarrow> peer \<Rightarrow> peer \<Rightarrow> bool" where
  "same_log s pr pr' \<longleftrightarrow> pr_written pr' s = pr_written pr s \<and> pr_read pr' s = pr_read pr s \<and> pr_stopped pr' s = pr_stopped pr s"

definition puts :: "sref \<Rightarrow> stream_state \<Rightarrow> channel \<Rightarrow> stream_state \<Rightarrow> bool" where
  "puts s st ms st' \<longleftrightarrow> (\<exists>d fw c fr. out_put (st_out st) d fw (st_out st') \<and> in_put (st_in st) c fr (st_in st')
     \<and> length d \<le> u32_max
     \<and> (ms = [] \<and> d = [] \<and> \<not> fw \<and> c = 0 \<and> \<not> fr
        \<or> (\<exists>u. ms = [(s, u)] \<and> su_data u = d \<and> data_amount u = (length d, fw) \<and> credit_amount u = (c, fr))))"

section \<open>Lemmas\<close>

subsection \<open>Amounts\<close>

lemma total_append [simp]: "total (ms @ ms') = total ms + total ms'"
  by (induction ms) simp_all

lemma fins_append [simp]: "fins (ms @ ms') = fins ms + fins ms'"
  by (induction ms) simp_all

lemma ends_well_append [simp]:
  "ends_well (ms @ [m]) \<longleftrightarrow> ends_well ms \<and> (0 < fins ms \<longrightarrow> fst m = 0 \<and> \<not> snd m)"
  by (induction ms) auto

lemma msgs_of_simps [simp]:
  "msgs_of s [] = []" "msgs_of s (ch @ ch') = msgs_of s ch @ msgs_of s ch'"
  "msgs_of s (m # ch) = (if fst m = s then snd m # msgs_of s ch else msgs_of s ch)"
  by (simp_all add: msgs_of_def)

subsection \<open>One direction of a stream\<close>

lemma flow_link_out_put:
  assumes "flow_link out i ds cs" "out_put out d fin out'"
  shows "flow_link out' i (ds @ [(length d, fin)]) cs"
  using assms by (auto simp: flow_link_def out_put_def)

lemma flow_link_in_put:
  assumes "flow_link out i ds cs" "in_put i c fin i'"
  shows "flow_link out i' ds (cs @ [(c, fin)])"
  using assms by (auto simp: flow_link_def in_put_def split: if_splits)

lemma flow_link_out_took:
  assumes "flow_link out i ds ((c, fin) # cs)" "out_took out c fin out'"
  shows "flow_link out' i ds cs"
  using assms by (cases fin; cases "fin_read_received out") 
    (auto simp: flow_link_def out_took_def of_bool_def split: if_splits)

lemma flow_link_in_took:
  assumes "flow_link out i ((length d, fin) # ds) cs" "in_took i d fin i'"
  shows "flow_link out i' ds cs"
  using assms by (cases fin; cases "fin_read_sent i"; cases "peer_finished i")
    (auto simp: flow_link_def in_took_def of_bool_def split: if_splits)

text \<open>What arrives is what the receiving end accepts.\<close>

lemma flow_link_accepts:
  "flow_link out i ds ((c, fin) # cs) \<Longrightarrow> 0 < c \<Longrightarrow> \<not> fin_read_received out \<and> c \<le> unacked (out_window out)"
  "flow_link out i ds ((c, True) # cs) \<Longrightarrow> \<not> fin_read_received out"
  "flow_link out i ((n, fin) # ds) cs \<Longrightarrow> 0 < n \<or> fin \<Longrightarrow> \<not> peer_finished i"
  by (auto simp: flow_link_def split: if_splits)

lemma flow_link_borrowed:
  assumes "flow_link out i ds cs" "in_inv i"
  shows "borrowed (in_window i) \<le> borrowed (out_window out)"
  using assms
  by (auto simp: flow_link_def borrowed_def borrowed_at_def in_inv_def fin_read_sent_def split: if_splits inbound_state.splits)

lemma in_closed_queued: "in_closed i \<Longrightarrow> in_queued i = []"
  by (simp add: in_closed_def in_queued_def split: inbound_state.splits)

text \<open>What the code does meets these descriptions.\<close>

lemma out_poll_update_puts:
  assumes inv: "out_inv out" and acc: "accounts S win (tx_pool flow)" and s: "s \<in> S"
    and w: "win s = out_window out" and ok: "pool_ok (tx_pool flow)"
    and upd: "out_poll_update fexp out flow me now = (r, out', flow', ws)"
  shows "out_put out (case r of Ready u \<Rightarrow> fst u | Pending \<Rightarrow> []) (case r of Ready u \<Rightarrow> snd u | Pending \<Rightarrow> False) out'"
proof -
  note oo = out_poll_update_ok [OF assms]
  from upd show ?thesis
  proof (cases rule: out_poll_update_cases)
    case (closed f)
    then show ?thesis
      by (auto simp: out_put_def out_data_def out_fin_state_def fin_read_received_def)
  next
    case (wait lg)
    then show ?thesis using oo by (simp add: out_put_def out_data_def out_fin_state_def fin_read_received_def)
  next
    case (send n lg ws1 ws2 fin st)
    have "\<not> sent (out_fin_state out)" "\<not> fin_read_received out"
      using send(6) by (auto simp: out_fin_state_def fin_default_def fin_read_received_def)
    moreover have "out_data out' = drop n (out_data out)" "sent (out_fin_state out') = fin"
      using send(3,6) by (auto simp: out_state_simps split: if_splits)
    moreover have "\<not> fin_read_received out'"
      using send(3,6) by (auto simp: fin_read_received_def split: if_splits)
    ultimately show ?thesis using oo(7,8) send(2) by (simp add: out_put_def)
  qed
qed

lemma in_poll_update_puts:
  assumes inv: "in_inv i" and upd: "in_poll_update i p = (r, i', p')"
  shows "in_put i (case r of Ready u \<Rightarrow> unat (fst u) | Pending \<Rightarrow> 0) (case r of Ready u \<Rightarrow> snd u | Pending \<Rightarrow> False) i'"
  using assms
proof (cases rule: in_poll_update_cases)
  case pending
  then show ?thesis by (simp add: in_put_def)
next
  case (credit c f)
  have c: "unat (word_of_nat c :: u32) = c" using credit(3) by (simp add: unat_of_nat)
  have "win_base (in_window i') = win_base (in_window i)" "unacked (in_window i') = unacked (in_window i) - c"
    using credit(5) by (metis fst_conv window_set_fields(1,2))+
  moreover have "c \<le> unacked (in_window i)" using credit(4) in_credit_le [OF inv] by simp
  ultimately show ?thesis using credit(1,7,9) c
    by (auto simp: in_put_def fin_read_sent_def peer_finished_def in_queued_def in_closed_def split: inbound_state.splits)
next
  case (fin f g)
  have "win_base (in_window i') = win_base (in_window i)" "unacked (in_window i') = 0"
    using fin(7) by (metis fst_conv window_set_fields(1,2))+
  then show ?thesis using fin(1-4)
    by (simp add: in_put_def fin_read_sent_def peer_finished_def in_queued_def in_closed_def)
qed

lemma handle_credit_takes:
  assumes "case credit of None \<Rightarrow> True | Some c \<Rightarrow> \<not> fin_read_received (st_out st) \<and> unat c \<le> unacked (out_window (st_out st))"
  shows "\<exists>out flow' ws. handle_credit fexp credit st flow me now = Ok (\<lparr>st_in = st_in st, st_out = out\<rparr>, flow', ws)
    \<and> rx_pool flow' = rx_pool flow \<and> out_took (st_out st) (case credit of None \<Rightarrow> 0 | Some c \<Rightarrow> unat c) False out"
proof (cases credit)
  case None
  then show ?thesis
    by (intro exI [of _ "st_out st"] exI [of _ flow]) (simp add: handle_credit_def out_took_def)
next
  case (Some c)
  obtain w p f where set: "window_set (out_window (st_out st)) (tx_pool flow) (unacked (out_window (st_out st)) - unat c) = (w, p, f)"
    by (metis prod_cases3)
  have "win_base w = win_base (out_window (st_out st))" "unacked w = unacked (out_window (st_out st)) - unat c"
    using set by (metis fst_conv window_set_fields(1,2))+
  then show ?thesis using assms set Some
    by (auto simp: handle_credit_def received_window_update_eq stream_eta Let_def out_took_def out_fin_state_def out_data_def fin_read_received_def)
qed

lemma handle_fin_read_takes:
  assumes "fin \<longrightarrow> \<not> fin_read_received (st_out st)"
  shows "\<exists>out flow' ws. handle_fin_read fin st flow me = Ok (\<lparr>st_in = st_in st, st_out = out\<rparr>, flow', ws)
    \<and> out_took (st_out st) 0 fin out"
proof (cases fin)
  case False
  then show ?thesis
    by (intro exI [of _ "st_out st"] exI [of _ flow]) (simp add: handle_fin_read_def out_took_def)
next
  case True
  obtain w p f where set: "window_set (out_window (st_out st)) (tx_pool flow) 0 = (w, p, f)"
    by (metis prod_cases3)
  have "win_base w = win_base (out_window (st_out st))"
    using set by (metis fst_conv window_set_fields(1))
  then show ?thesis using assms set True
    by (intro exI [of _ "(st_out st)\<lparr>out_state := OutClosed \<lparr>sent = sent (out_fin_state (st_out st)), received = True\<rparr>,
          out_ledger := (out_ledger (st_out st))\<lparr>lg_window := w\<rparr>\<rparr>"] exI [of _ "flow\<lparr>tx_pool := p\<rparr>"])
      (simp add: handle_fin_read_def stream_eta received_fin_read_def close_reading_side_eq Let_def out_took_def out_fin_state_def
        out_data_def fin_read_received_def)
qed

lemma handle_data_takes:
  assumes inv: "in_inv (st_in (st s))" and ok: "flow_ok S st flow" and s: "s \<in> S" and len: "length d \<le> u32_max"
    and unfinished: "d \<noteq> [] \<longrightarrow> \<not> peer_finished (st_in (st s))"
    and room: "fin_read_sent (st_in (st s)) \<or> p_used (rx_pool flow) - borrowed (in_window (st_in (st s)))
      + (unacked (in_window (st_in (st s))) + length d - win_base (in_window (st_in (st s)))) \<le> p_size (rx_pool flow)"
  shows "\<exists>i flow' ws. handle_data d (st s) flow = Ok (\<lparr>st_in = i, st_out = st_out (st s)\<rparr>, flow', ws)
    \<and> in_took (st_in (st s)) d False i"
proof -
  let ?i = "st_in (st s)" and ?p = "rx_pool flow"
  have acc: "accounts S (\<lambda>s. in_window (st_in (st s))) ?p" "pool_ok ?p" "win_base (in_window ?i) \<le> u32_max"
    using ok inv by (simp_all add: flow_ok_def in_inv_def)
  note cnt = in_count_Err [OF acc(1) s acc(2,3) len]
  have "\<exists>i p ws. in_received_data ?i d ?p = Ok (i, p, ws)"
  proof (cases "d = []")
    case True
    then show ?thesis by (simp add: in_received_data_def)
  next
    case False
    obtain w p where "window_add (in_window ?i) ?p (length d) = (w, p)" by fastforce
    then show ?thesis using unfinished room cnt False
      by (auto simp: in_received_data_eq split: inbound_state.split)
  qed
  then obtain i p ws where rcv: "in_received_data ?i d ?p = Ok (i, p, ws)" by blast
  then have "in_took ?i d False i"
  proof (cases rule: in_received_data_cases)
    case empty
    then show ?thesis by (simp add: in_took_def)
  next
    case (queued ds reader w)
    then show ?thesis using in_count_accounts(4,5) [OF acc(1) s acc(2,3) len queued(3)]
      by (simp add: in_took_def fin_read_sent_def peer_finished_def in_queued_def in_closed_def)
  next
    case (counted f w)
    then show ?thesis using in_count_accounts(4,5) [OF acc(1) s acc(2,3) len counted(5)]
      by (simp add: in_took_def fin_read_sent_def peer_finished_def in_queued_def in_closed_def)
  next
    case (dropped f)
    then show ?thesis by (simp add: in_took_def fin_read_sent_def peer_finished_def in_closed_def)
  qed
  then show ?thesis using rcv by (auto simp: handle_data_def stream_eta)
qed

lemma handle_fin_write_takes:
  assumes "fin \<longrightarrow> \<not> peer_finished (st_in st)"
  shows "\<exists>i ws. handle_fin_write fin st flow me = Ok (\<lparr>st_in = i, st_out = st_out st\<rparr>, flow, ws) \<and> in_took (st_in st) [] fin i"
proof (cases fin)
  case False
  then show ?thesis by (intro exI [of _ "st_in st"]) (simp add: handle_fin_write_def in_took_def)
next
  case True
  then show ?thesis using assms
    by (cases "in_state (st_in st)")
      (auto simp: handle_fin_write_def stream_eta in_received_fin_write_def in_took_def fin_read_sent_def peer_finished_def
        in_queued_def in_closed_def)
qed

lemma took_trans:
  "out_took out c False out1 \<Longrightarrow> out_took out1 0 fin out' \<Longrightarrow> out_took out c fin out'"
  "in_took i d False i1 \<Longrightarrow> in_took i1 [] fin i' \<Longrightarrow> in_took i d fin i'"
  by (auto simp: out_took_def in_took_def in_closed_queued split: if_splits)

text \<open>All parts of an update are taken when each of them is acceptable.\<close>

lemma handle_received_takes:
  assumes inv: "stream_inv (st s)" and ok: "flow_ok S st flow" and s: "s \<in> S" and len: "length d \<le> u32_max"
    and cr: "case credit of None \<Rightarrow> True | Some c \<Rightarrow> \<not> fin_read_received (st_out (st s)) \<and> unat c \<le> unacked (out_window (st_out (st s)))"
    and fr: "fin_read flags \<longrightarrow> \<not> fin_read_received (st_out (st s))"
    and unfinished: "d \<noteq> [] \<or> fin_write flags \<longrightarrow> \<not> peer_finished (st_in (st s))"
    and room: "fin_read_sent (st_in (st s)) \<or> p_used (rx_pool flow) - borrowed (in_window (st_in (st s)))
      + (unacked (in_window (st_in (st s))) + length d - win_base (in_window (st_in (st s)))) \<le> p_size (rx_pool flow)"
  shows "\<exists>fin st' flow' ws. handle_received fexp credit d flags (st s) flow me now = Ok (fin, st', flow', ws)
    \<and> out_took (st_out (st s)) (case credit of None \<Rightarrow> 0 | Some c \<Rightarrow> unat c) (fin_read flags) (st_out st')
    \<and> in_took (st_in (st s)) d (fin_write flags) (st_in st')"
proof -
  from handle_credit_takes [OF cr] obtain out1 flow1 ws1 where
    h1: "handle_credit fexp credit (st s) flow me now = Ok (\<lparr>st_in = st_in (st s), st_out = out1\<rparr>, flow1, ws1)"
    and rx: "rx_pool flow1 = rx_pool flow"
    and t1: "out_took (st_out (st s)) (case credit of None \<Rightarrow> 0 | Some c \<Rightarrow> unat c) False out1" by blast
  let ?st1 = "st(s := \<lparr>st_in = st_in (st s), st_out = out1\<rparr>)"
  have ok1: "flow_ok S ?st1 flow1" and inv1: "in_inv (st_in (?st1 s))"
    using handle_credit_ok [OF inv ok s h1] by (simp_all add: step_ok_def stream_inv_def)
  obtain i2 flow2 ws2 where
    h2: "handle_data d \<lparr>st_in = st_in (st s), st_out = out1\<rparr> flow1 = Ok (\<lparr>st_in = i2, st_out = out1\<rparr>, flow2, ws2)"
    and t2: "in_took (st_in (st s)) d False i2"
    using handle_data_takes [OF inv1 ok1 s len] unfinished room rx by auto
  have pf: "fin_write flags \<longrightarrow> \<not> peer_finished i2" using t2 unfinished by (auto simp: in_took_def)
  obtain i3 ws3 where h3: "handle_fin_write (fin_write flags) \<lparr>st_in = i2, st_out = out1\<rparr> flow2 me
      = Ok (\<lparr>st_in = i3, st_out = out1\<rparr>, flow2, ws3)" and t3: "in_took i2 [] (fin_write flags) i3"
    using handle_fin_write_takes [of "fin_write flags" "\<lparr>st_in = i2, st_out = out1\<rparr>" flow2 me] pf by auto
  have rr: "fin_read flags \<longrightarrow> \<not> fin_read_received out1" using t1 fr by (auto simp: out_took_def)
  obtain out4 flow4 ws4 where h4: "handle_fin_read (fin_read flags) \<lparr>st_in = i3, st_out = out1\<rparr> flow2 me
      = Ok (\<lparr>st_in = i3, st_out = out4\<rparr>, flow4, ws4)" and t4: "out_took out1 0 (fin_read flags) out4"
    using handle_fin_read_takes [of "fin_read flags" "\<lparr>st_in = i3, st_out = out1\<rparr>" flow2 me] rr by auto
  have "handle_received fexp credit d flags (st s) flow me now
      = Ok (stream_fin_state \<lparr>st_in = i3, st_out = out4\<rparr>, \<lparr>st_in = i3, st_out = out4\<rparr>, flow4, ws1 @ ws2 @ ws3 @ ws4)"
    using h1 h2 h3 h4 by (simp add: handle_received_def)
  then show ?thesis using took_trans(1) [OF t1 t4] took_trans(2) [OF t2 t3] by auto
qed

subsection \<open>The bytes of a direction\<close>

lemma sent_no_data: "sent (out_fin_state out) \<Longrightarrow> out_data out = []"
  by (simp add: out_fin_state_def out_data_def fin_default_def split: outbound_state.splits)

lemma fin_read_sent_closed: "fin_read_sent i \<Longrightarrow> in_closed i"
  by (simp add: fin_read_sent_def in_closed_def split: inbound_state.splits)

lemma content_out_put:
  "content_link wr rd stopped out i way \<Longrightarrow> out_put out d fin out' \<Longrightarrow> content_link wr rd stopped out' i (way @ d)"
  by (auto simp: content_link_def out_put_def)

lemma content_in_put:
  "content_link wr rd stopped out i way \<Longrightarrow> in_put i c fin i' \<Longrightarrow> content_link wr rd stopped out i' way"
  by (auto simp: content_link_def in_put_def)

lemma content_in_took:
  assumes "content_link wr rd stopped out i (d @ way)" "flow_link out i ((length d, fin) # ds) cs" "in_took i d fin i'"
  shows "content_link wr rd stopped out i' way"
proof -
  have "d = []" if "peer_finished i" using that assms(2) by (simp add: flow_link_def)
  then show ?thesis using assms(1,3) in_closed_queued [of i] in_closed_queued [of i']
    by (auto simp: content_link_def in_took_def split: if_splits)
qed

lemma content_out_took:
  assumes "content_link wr rd stopped out i way" "flow_link out i ds ((c, fin) # cs)" "out_took out c fin out'"
  shows "content_link wr rd stopped out' i way"
proof -
  have "out_data out = []" if "fin" "\<not> stopped"
  proof -
    have "fin_read_sent i" using that(1) assms(2) by (auto simp: flow_link_def of_bool_def split: if_splits)
    then have "peer_finished i" using that(2) assms(1) fin_read_sent_closed by (simp add: content_link_def)
    then show ?thesis using assms(2) by (intro sent_no_data) (simp add: flow_link_def)
  qed
  then show ?thesis using assms(1,3) by (auto simp: content_link_def out_took_def split: if_splits)
qed

lemma flow_link_idle [simp]:
  "flow_link out i (ds @ [(0, False)]) cs = flow_link out i ds cs" "flow_link out i ds (cs @ [(0, False)]) = flow_link out i ds cs"
  by (auto simp: flow_link_def)

subsection \<open>Polling\<close>

lemma flow_ok_turns: "flow_ok S st flow \<Longrightarrow> distinct q \<Longrightarrow> flow_ok S st (flow\<lparr>turns := q\<rparr>)"
  by (simp add: flow_ok_def)

lemma transform_break_fst: "fst (transform_break flow s) = flow\<lparr>turns := remove1 s (turns flow)\<rparr>"
  unfolding transform_break_def by (subst pass_turn_eq) simp

lemma poll_progress_puts:
  assumes ok: "flow_ok S st flow" and inv: "stream_inv (st s)" and s: "s \<in> S"
    and upd: "poll_progress fexp this (st s) flow me now = (r, this', st', flow', ws)"
  obtains d fw c fr where "out_put (st_out (st s)) d fw (st_out st')" "in_put (st_in (st s)) c fr (st_in st')"
    "length d \<le> u32_max"
    "r = Pending \<and> d = [] \<and> \<not> fw \<and> c = 0 \<and> \<not> fr
     \<or> (\<exists>u f. (r = Ready (Break (u, f)) \<or> r = Ready (Continue (u, f)))
          \<and> su_data u = d \<and> data_amount u = (length d, fw) \<and> credit_amount u = (c, fr))"
proof -
  from upd obtain inb i p outb out where
    inb: "in_poll_update (st_in (st s)) (rx_pool flow) = (inb, i, p)" and
    outb: "out_poll_update fexp (st_out (st s)) (flow\<lparr>rx_pool := p\<rparr>) me now = (outb, out, flow', ws)" and
    st': "st' = \<lparr>st_in = i, st_out = out\<rparr>" and
    r: "inb = Pending \<and> outb = Pending \<and> r = Pending
      \<or> r = Ready ((if sent (stream_fin_state st') then Break else Continue) (update_of this inb outb, stream_fin_state st'))"
    by (rule poll_progress_parts) auto
  have iv: "in_inv (st_in (st s))" "out_inv (st_out (st s))" using inv by (simp_all add: stream_inv_def)
  have ac: "accounts S (\<lambda>s. out_window (st_out (st s))) (tx_pool (flow\<lparr>rx_pool := p\<rparr>))" "pool_ok (tx_pool (flow\<lparr>rx_pool := p\<rparr>))"
    using ok by (simp_all add: flow_ok_def)
  let ?d = "case outb of Ready u \<Rightarrow> fst u | Pending \<Rightarrow> []"
  have lg: "ledger_ok (out_ledger (st_out (st s)))" using iv(2) by (simp add: out_inv_def)
  have "length ?d \<le> u32_max"
  proof (cases outb)
    case (Ready x)
    then have "length (fst x) \<le> 65535"
      using out_update_sends(2) [OF lg ac(2), of fexp me now "fst x" "snd x"] outb lg by (force simp: ledger_ok_def)
    then show ?thesis using Ready by simp
  qed simp
  moreover note out_poll_update_puts [OF iv(2) ac(1) s refl ac(2) outb] in_poll_update_puts [OF iv(1) inb]
  ultimately show thesis using r
    by (intro that [of ?d "case outb of Ready u \<Rightarrow> snd u | Pending \<Rightarrow> False"
          "case inb of Ready u \<Rightarrow> unat (fst u) | Pending \<Rightarrow> 0" "case inb of Ready u \<Rightarrow> snd u | Pending \<Rightarrow> False"])
      (auto simp: st' update_of_def split: poll.splits)
qed

lemma peer_poll_ok:
  assumes ok: "peer_ok S pr" and s: "s \<in> S" and poll: "peer_poll fexp pr s now = (ms, pr')"
  shows "peer_ok S pr' \<and> same_peer s pr pr' \<and> same_log s pr pr' \<and> puts s (pr_store pr s) ms (pr_store pr' s)"
proof -
  have fl: "flow_ok S (pr_store pr) (pr_flow pr)" "stream_inv (pr_store pr s)" using ok s by (simp_all add: peer_ok_def)
  obtain r up st flow ws where upd: "poll_progress fexp (pr_updates pr s) (pr_store pr s) (pr_flow pr) s now = (r, up, st, flow, ws)"
    by (metis prod_cases5)
  note so = poll_progress_step(1) [OF fl(2,1) s upd]
  from poll_progress_puts [OF fl s upd] obtain d fw c fr where
    p: "out_put (st_out (pr_store pr s)) d fw (st_out st)" "in_put (st_in (pr_store pr s)) c fr (st_in st)" "length d \<le> u32_max"
    and r: "r = Pending \<and> d = [] \<and> \<not> fw \<and> c = 0 \<and> \<not> fr
     \<or> (\<exists>u f. (r = Ready (Break (u, f)) \<or> r = Ready (Continue (u, f)))
          \<and> su_data u = d \<and> data_amount u = (length d, fw) \<and> credit_amount u = (c, fr))" .
  have "distinct (remove1 s (turns flow))" using so by (simp add: step_ok_def flow_ok_def)
  with so have brk: "flow_ok S ((pr_store pr)(s := st)) (fst (transform_break flow s))"
    by (simp add: transform_break_fst step_ok_def flow_ok_turns)
  have sz: "tx_pool (fst (transform_break flow s)) = tx_pool flow" "rx_pool (fst (transform_break flow s)) = rx_pool flow"
    by (simp_all add: transform_break_fst)
  have pr': "pr_store pr' = (pr_store pr)(s := st)" "pr_flow pr' = flow \<or> pr_flow pr' = fst (transform_break flow s)"
    "pr_written pr' = pr_written pr" "pr_read pr' = pr_read pr" "pr_stopped pr' = pr_stopped pr"
    using poll r by (auto simp: peer_poll_def upd Let_def)
  have "puts s (pr_store pr s) ms st"
    using r p poll unfolding puts_def
    by (intro exI [of _ d] exI [of _ fw] exI [of _ c] exI [of _ fr]) (auto simp: peer_poll_def upd Let_def)
  moreover have "peer_ok S pr'" using ok so brk pr' by (auto simp: peer_ok_def step_ok_def)
  moreover have "same_peer s pr pr'" using so sz pr' by (auto simp: same_peer_def step_ok_def)
  ultimately show ?thesis using pr' by (simp add: same_log_def)
qed

text \<open>A step concerns one stream, at one end of the link.\<close>

lemma half_link_change:
  assumes h: "half_link S a b ab ba" and same: "same_peer s a a' \<and> b' = b \<or> same_peer s b b' \<and> a' = a"
    and chan: "\<forall>t. t \<noteq> s \<longrightarrow> msgs_of t ab' = msgs_of t ab \<and> msgs_of t ba' = msgs_of t ba"
    and msgs: "\<forall>m \<in> set ab'. m \<in> set ab \<or> fst m \<in> S \<and> length (su_data (snd m)) \<le> u32_max"
    and s: "s \<in> S \<Longrightarrow> stream_link a' b' ab' ba' s"
  shows "half_link S a' b' ab' ba'"
proof -
  have "stream_link a' b' ab' ba' t = stream_link a b ab ba t" if "t \<noteq> s" for t
    using that same chan by (auto simp: stream_link_def same_peer_def)
  then have "stream_link a' b' ab' ba' t" if "t \<in> S" for t
    using that h s by (cases "t = s") (auto simp: half_link_def)
  then show ?thesis using h same msgs by (auto simp: half_link_def same_peer_def)
qed

lemma link_poll:
  assumes ok: "link_ok S a b ab ba" and s: "s \<in> S" and poll: "peer_poll fexp a s now = (ms, a')"
  shows "link_ok S a' b (ab @ ms) ba"
proof -
  have pa: "peer_ok S a" using ok by (simp add: link_ok_def)
  from peer_poll_ok [OF this s poll] obtain d fw c fr where
    a': "peer_ok S a'" "same_peer s a a'" "same_log s a a'" and
    p: "out_put (st_out (pr_store a s)) d fw (st_out (pr_store a' s))" "in_put (st_in (pr_store a s)) c fr (st_in (pr_store a' s))"
      "length d \<le> u32_max" and
    ms: "ms = [] \<and> d = [] \<and> \<not> fw \<and> c = 0 \<and> \<not> fr
      \<or> (\<exists>u. ms = [(s, u)] \<and> su_data u = d \<and> data_amount u = (length d, fw) \<and> credit_amount u = (c, fr))"
    unfolding puts_def by blast
  have h: "half_link S a b ab ba" "half_link S b a ba ab" and l: "stream_link a b ab ba s" "stream_link b a ba ab s"
    using ok s by (simp_all add: link_ok_def half_link_def)
  have other: "\<forall>t. t \<noteq> s \<longrightarrow> msgs_of t (ab @ ms) = msgs_of t ab" using ms by auto
  have mine: "map data_amount (msgs_of s ms) = [(length d, fw)] \<and> map credit_amount (msgs_of s ms) = [(c, fr)]
      \<or> msgs_of s ms = [] \<and> d = [] \<and> \<not> fw \<and> c = 0 \<and> \<not> fr" and way: "concat (map su_data (msgs_of s ms)) = d"
    using ms by auto
  note x = flow_link_out_put [OF l(1) [unfolded stream_link_def, THEN conjunct1] p(1)]
    content_out_put [OF l(1) [unfolded stream_link_def, THEN conjunct2] p(1)]
    and y = flow_link_in_put [OF l(2) [unfolded stream_link_def, THEN conjunct1] p(2)]
    content_in_put [OF l(2) [unfolded stream_link_def, THEN conjunct2] p(2)]
  have "stream_link a' b (ab @ ms) ba s" "stream_link b a' ba (ab @ ms) s"
    using x y mine way a'(3) by (cases "msgs_of s ms = []"; simp add: stream_link_def same_log_def)+
  moreover have "\<forall>m \<in> set (ab @ ms). m \<in> set ab \<or> fst m \<in> S \<and> length (su_data (snd m)) \<le> u32_max"
    using ms s p(3) by auto
  ultimately have "half_link S a' b (ab @ ms) ba" "half_link S b a' ba (ab @ ms)"
    using a'(2) other by (intro half_link_change [OF h(1)] half_link_change [OF h(2)]; simp)+
  then show ?thesis using ok a'(1) by (simp add: link_ok_def)
qed

subsection \<open>Receiving\<close>

text \<open>The pool of the receiver has room for what arrives, since the sender counted it in its own.\<close>

lemma flow_room:
  assumes oka: "flow_ok S sta fa" and okb: "flow_ok S stb fb" and s: "s \<in> S" and size: "p_size (tx_pool fb) \<le> p_size (rx_pool fa)"
    and fl: "\<And>t. t \<in> S \<Longrightarrow> \<exists>ds cs. flow_link (st_out (stb t)) (st_in (sta t)) ds cs" "\<And>t. t \<in> S \<Longrightarrow> in_inv (st_in (sta t))"
    and u: "flow_link (st_out (stb s)) (st_in (sta s)) ((k, fin) # ds) cs" and read: "\<not> fin_read_sent (st_in (sta s))"
  shows "p_used (rx_pool fa) - borrowed (in_window (st_in (sta s)))
    + (unacked (in_window (st_in (sta s))) + k - win_base (in_window (st_in (sta s)))) \<le> p_size (rx_pool fa)"
proof -
  let ?i = "\<lambda>t. borrowed (in_window (st_in (sta t)))" and ?o = "\<lambda>t. borrowed (out_window (st_out (stb t)))"
  have S: "finite S" "p_used (rx_pool fa) = sum ?i S" "p_used (tx_pool fb) = sum ?o S" "p_used (tx_pool fb) \<le> p_size (tx_pool fb)"
    using oka okb by (simp_all add: flow_ok_def accounts_def pool_ok_def)
  have "sum ?i (S - {s}) \<le> sum ?o (S - {s})"
    using fl flow_link_borrowed by (intro sum_mono) blast
  moreover have "unacked (in_window (st_in (sta s))) + k - win_base (in_window (st_in (sta s))) \<le> ?o s"
    using u read by (auto simp: flow_link_def borrowed_def borrowed_at_def split: if_splits)
  moreover have "sum ?i S - ?i s = sum ?i (S - {s})" "sum ?o S = ?o s + sum ?o (S - {s})"
    using S(1) s by (simp_all add: sum.remove)
  ultimately show ?thesis using S size by linarith
qed

text \<open>An update that arrives is taken.\<close>

lemma flow_takes:
  assumes ok: "flow_ok S sta fa" "flow_ok S stb fb" and size: "p_size (tx_pool fb) \<le> p_size (rx_pool fa)" and s: "s \<in> S"
    and inv: "\<And>t. t \<in> S \<Longrightarrow> stream_inv (sta t)" and fl: "\<And>t. t \<in> S \<Longrightarrow> \<exists>ds cs. flow_link (st_out (stb t)) (st_in (sta t)) ds cs"
    and len: "length (su_data u) \<le> u32_max"
    and l: "flow_link (st_out (stb s)) (st_in (sta s)) (data_amount u # ds) cs" "flow_link (st_out (sta s)) (st_in (stb s)) ds' (credit_amount u # cs')"
  obtains fin st flow ws where
    "handle_received fexp (non_zero (su_credit u)) (su_data u) (su_flags u) (sta s) fa me now = Ok (fin, st, flow, ws)"
    "out_took (st_out (sta s)) (unat (su_credit u)) (fin_read (su_flags u)) (st_out st)"
    "in_took (st_in (sta s)) (su_data u) (fin_write (su_flags u)) (st_in st)"
proof -
  have cr: "case non_zero (su_credit u) of None \<Rightarrow> True
      | Some c \<Rightarrow> \<not> fin_read_received (st_out (sta s)) \<and> unat c \<le> unacked (out_window (st_out (sta s)))"
    using flow_link_accepts(1) [OF l(2)] by (auto simp: non_zero_def unat_gt_0)
  have fr: "fin_read (su_flags u) \<longrightarrow> \<not> fin_read_received (st_out (sta s))"
    using flow_link_accepts(2) l(2) by fastforce
  have pf: "su_data u \<noteq> [] \<or> fin_write (su_flags u) \<longrightarrow> \<not> peer_finished (st_in (sta s))"
    using flow_link_accepts(3) [OF l(1)] by auto
  have "in_inv (st_in (sta t))" if "t \<in> S" for t using inv [OF that] by (simp add: stream_inv_def)
  then have room: "fin_read_sent (st_in (sta s)) \<or> p_used (rx_pool fa) - borrowed (in_window (st_in (sta s)))
      + (unacked (in_window (st_in (sta s))) + length (su_data u) - win_base (in_window (st_in (sta s)))) \<le> p_size (rx_pool fa)"
    using flow_room [OF ok s size fl _ l(1)] by blast
  have cv: "(case non_zero (su_credit u) of None \<Rightarrow> 0 | Some c \<Rightarrow> unat c) = unat (su_credit u)" by (simp add: non_zero_def)
  from handle_received_takes [OF inv [OF s] ok(1) s len cr fr pf room, unfolded cv] show thesis using that by blast
qed

lemma link_receive:
  assumes ok: "link_ok S a b ab ((s, u) # ba)"
  shows "\<exists>a'. peer_receive fexp a s u now = Ok a' \<and> link_ok S a' b ab ba"
proof -
  have pa: "peer_ok S a" and pb: "peer_ok S b" and h: "half_link S a b ab ((s, u) # ba)" "half_link S b a ((s, u) # ba) ab"
    using ok by (simp_all add: link_ok_def)
  have s: "s \<in> S" and len: "length (su_data u) \<le> u32_max" using h(2) by (simp_all add: half_link_def)
  have fl: "flow_ok S (pr_store a) (pr_flow a)" "flow_ok S (pr_store b) (pr_flow b)" "p_size (tx_pool (pr_flow b)) \<le> p_size (rx_pool (pr_flow a))"
    using pa pb h(2) by (simp_all add: peer_ok_def half_link_def)
  have inv: "stream_inv (pr_store a t)" if "t \<in> S" for t using pa that by (simp add: peer_ok_def)
  have all: "\<exists>ds cs. flow_link (st_out (pr_store b t)) (st_in (pr_store a t)) ds cs" if "t \<in> S" for t
    using h(2) that unfolding half_link_def stream_link_def by blast
  have "stream_link a b ab ((s, u) # ba) s" "stream_link b a ((s, u) # ba) ab s" using h s by (simp_all add: half_link_def)
  note l = this [unfolded stream_link_def, simplified]
  obtain fin st flow ws where
    rcv: "handle_received fexp (non_zero (su_credit u)) (su_data u) (su_flags u) (pr_store a s) (pr_flow a) s now = Ok (fin, st, flow, ws)"
    and t: "out_took (st_out (pr_store a s)) (unat (su_credit u)) (fin_read (su_flags u)) (st_out st)"
      "in_took (st_in (pr_store a s)) (su_data u) (fin_write (su_flags u)) (st_in st)"
    by (rule flow_takes [OF fl s inv all len l(2) [THEN conjunct1] l(1) [THEN conjunct1]])
  note so = handle_received_step(1) [OF inv [OF s] fl(1) s len rcv]
  define a' where "a' = a\<lparr>pr_store := (pr_store a)(s := st), pr_flow := flow\<rparr>"
  have r: "peer_receive fexp a s u now = Ok a'" by (simp add: peer_receive_def rcv a'_def)
  have p': "peer_ok S a'" "same_peer s a a'" using pa so by (simp_all add: a'_def peer_ok_def step_ok_def same_peer_def)
  have "stream_link a' b ab ba s"
    using flow_link_out_took [OF l(1) [THEN conjunct1] t(1)]
      content_out_took [OF l(1) [THEN conjunct2] l(1) [THEN conjunct1] t(1)]
    by (simp add: stream_link_def a'_def)
  moreover have "stream_link b a' ba ab s"
    using flow_link_in_took [OF l(2) [THEN conjunct1] t(2)] content_in_took [OF l(2) [THEN conjunct2] l(2) [THEN conjunct1] t(2)]
    by (simp add: stream_link_def a'_def)
  ultimately have "half_link S a' b ab ba" "half_link S b a' ba ab"
    using p'(2) by (intro half_link_change [OF h(1)] half_link_change [OF h(2)]; simp)+
  then show ?thesis using r p'(1) pb by (auto simp: link_ok_def)
qed

subsection \<open>The application\<close>

text \<open>What the application does to the sending and to the receiving end of a stream.\<close>

lemma app_sink_data:
  "out_data (snd (poll_write_ready out w)) = out_data out"
  "out_data (snd (poll_flushed out w)) = out_data out"
  "out_data (fst (close_writing out me)) = out_data out"
  "out_write out d me = (Ok (), out', ws) \<Longrightarrow> out_data out' = out_data out @ d"
  by (auto simp: poll_write_ready_def poll_flushed_def close_writing_def out_write_def out_data_def
      split: outbound_state.splits if_splits)

definition app_kept :: "stream_state \<Rightarrow> stream_state \<Rightarrow> bool" where
  "app_kept st st' \<longleftrightarrow> out_window (st_out st') = out_window (st_out st) \<and> out_fin_state (st_out st') = out_fin_state (st_out st)
     \<and> in_window (st_in st') = in_window (st_in st) \<and> fin_read_sent (st_in st') = fin_read_sent (st_in st)
     \<and> peer_finished (st_in st') = peer_finished (st_in st)"

lemma fin_read_received_eq: "fin_read_received out = received (out_fin_state out)"
  by (simp add: fin_read_received_def out_fin_state_def fin_default_def split: outbound_state.splits)

lemma flow_link_kept:
  assumes "app_kept st st'"
  shows "flow_link (st_out st') i ds cs = flow_link (st_out st) i ds cs" "flow_link out (st_in st') ds cs = flow_link out (st_in st) ds cs"
  using assms by (simp_all add: app_kept_def flow_link_def fin_read_received_eq)

lemma app_kept_sink:
  "app_kept st (snd (snd (sink_poll_ready h st w)))" "app_kept st (snd (sink_poll_flush h st w))"
  "app_kept st (fst (snd (snd (sink_poll_close h st w me))))" "app_kept st (fst (sink_drop h st me))"
  "app_kept st (fst (snd (snd (sink_start_send h st d me))))"
  by (simp_all add: app_kept_def sink_poll_ready_def sink_poll_flush_def sink_poll_close_def sink_drop_def sink_start_send_def
      split_beta Let_def application_side_ledger application_side_fin split: poll.split)

lemma app_sink_kept_data:
  "out_data (st_out (snd (snd (sink_poll_ready h st w)))) = out_data (st_out st)"
  "out_data (st_out (snd (sink_poll_flush h st w))) = out_data (st_out st)"
  "out_data (st_out (fst (snd (snd (sink_poll_close h st w me))))) = out_data (st_out st)"
  "out_data (st_out (fst (sink_drop h st me))) = out_data (st_out st)"
  "st_in (snd (snd (sink_poll_ready h st w))) = st_in st" "st_in (snd (sink_poll_flush h st w)) = st_in st"
  "st_in (fst (snd (snd (sink_poll_close h st w me)))) = st_in st" "st_in (fst (sink_drop h st me)) = st_in st"
  by (simp_all add: sink_poll_ready_def sink_poll_flush_def sink_poll_close_def sink_drop_def
      split_beta Let_def app_sink_data split: poll.split)

lemma sink_start_send_data:
  assumes "sink_start_send h st d me = (Ok (), h', st', ws)"
  shows "out_data (st_out st') = out_data (st_out st) @ d" "st_in st' = st_in st"
  using assms app_sink_data(4) [of "st_out st" d me]
  by (auto simp: sink_start_send_def split: if_splits prod.splits)

lemma stream_poll_next_reads:
  assumes inv: "in_inv (st_in st)" and rd: "stream_poll_next h st w me = Ok (r, h', st', ws)"
  shows "app_kept st st'" "st_out st' = st_out st" "in_closed (st_in st) \<Longrightarrow> in_closed (st_in st')"
    "concat (in_queued (st_in st)) = (case r of Ready (Some d) \<Rightarrow> d | _ \<Rightarrow> []) @ concat (in_queued (st_in st'))"
    "in_closed (st_in st') \<Longrightarrow> in_closed (st_in st) \<or> peer_finished (st_in st')"
    "r = Ready None \<Longrightarrow> half_shared h \<Longrightarrow> in_closed (st_in st)"
proof -
  have "app_kept st st' \<and> st_out st' = st_out st \<and> (in_closed (st_in st) \<longrightarrow> in_closed (st_in st'))
    \<and> concat (in_queued (st_in st)) = (case r of Ready (Some d) \<Rightarrow> d | _ \<Rightarrow> []) @ concat (in_queued (st_in st'))
    \<and> (in_closed (st_in st') \<longrightarrow> in_closed (st_in st) \<or> peer_finished (st_in st'))
    \<and> (r = Ready None \<longrightarrow> half_shared h \<longrightarrow> in_closed (st_in st))"
  proof (cases "half_shared h")
    case False
    then show ?thesis using rd by (auto simp: stream_poll_next_def app_kept_def)
  next
    case True
    then obtain i ws' where i: "in_poll_read (st_in st) w me = Ok (r, i, ws')" "st' = st\<lparr>st_in := i\<rparr>"
      using rd by (auto simp: stream_poll_next_def)
    from i(1) show ?thesis
    proof (cases rule: in_poll_read_cases)
      case (pending reader)
      then show ?thesis by (simp add: i(2) app_kept_def fin_read_sent_def peer_finished_def in_queued_def in_closed_def)
    next
      case (chunk d ds)
      then show ?thesis
        by (cases "ds = []") (auto simp: i(2) app_kept_def fin_read_sent_def peer_finished_def in_queued_def in_closed_def)
    next
      case (eof f)
      then show ?thesis by (simp add: i(2) app_kept_def in_queued_def in_closed_def)
    qed
  qed
  then show "app_kept st st'" "st_out st' = st_out st" "in_closed (st_in st) \<Longrightarrow> in_closed (st_in st')"
    "concat (in_queued (st_in st)) = (case r of Ready (Some d) \<Rightarrow> d | _ \<Rightarrow> []) @ concat (in_queued (st_in st'))"
    "in_closed (st_in st') \<Longrightarrow> in_closed (st_in st) \<or> peer_finished (st_in st')"
    "r = Ready None \<Longrightarrow> half_shared h \<Longrightarrow> in_closed (st_in st)" by blast+
qed

lemma stream_drop_kept:
  "app_kept st (fst (stream_drop h st me))" "st_out (fst (stream_drop h st me)) = st_out st"
  "half_shared h \<Longrightarrow> in_closed (st_in (fst (stream_drop h st me)))"
  by (auto simp: stream_drop_def split_beta Let_def app_kept_def in_close_reading_def fin_read_sent_def peer_finished_def
      in_closed_def split: inbound_state.split)

text \<open>The log of a use agrees with what it does to the stream.\<close>

definition logged :: "sref \<Rightarrow> peer \<Rightarrow> peer \<Rightarrow> bool" where
  "logged s pr pr' \<longleftrightarrow> (\<exists>d. pr_written pr' s = pr_written pr s @ d
       \<and> out_data (st_out (pr_store pr' s)) = out_data (st_out (pr_store pr s)) @ d)
     \<and> (\<exists>d. pr_read pr' s = pr_read pr s @ d \<and> prefix d (concat (in_queued (st_in (pr_store pr s))))
       \<and> (pr_stopped pr' s \<or> concat (in_queued (st_in (pr_store pr s))) = d @ concat (in_queued (st_in (pr_store pr' s)))))
     \<and> (pr_stopped pr' s = pr_stopped pr s \<and> (in_closed (st_in (pr_store pr s)) \<longrightarrow> in_closed (st_in (pr_store pr' s)))
          \<and> (in_closed (st_in (pr_store pr' s)) \<longrightarrow> in_closed (st_in (pr_store pr s)) \<or> peer_finished (st_in (pr_store pr' s)))
        \<or> pr_stopped pr' s \<and> in_closed (st_in (pr_store pr' s)))"

lemma app_uses_ok:
  assumes "app_uses s pr pr'" "stream_inv (pr_store pr s)"
  shows "app_step s (pr_store pr s) (pr_store pr' s) \<and> same_peer s pr pr' \<and> pr_flow pr' = pr_flow pr
    \<and> app_kept (pr_store pr s) (pr_store pr' s) \<and> logged s pr pr'"
  using assms(1)
proof (cases rule: app_uses.cases)
  case (ready h w)
  then show ?thesis using app_step.ready app_kept_sink(1)
    by (simp add: put_stream_def same_peer_def logged_def app_sink_kept_data)
next
  case (writes h d h' st ws)
  have "st = fst (snd (snd (sink_start_send h (pr_store pr s) d s)))" using writes(2) by simp
  then have "app_step s (pr_store pr s) st" "app_kept (pr_store pr s) st"
    using app_step.send app_kept_sink(5) by blast+
  then show ?thesis using sink_start_send_data [OF writes(2)] writes(1)
    by (simp add: put_stream_def same_peer_def logged_def)
next
  case (flush h w)
  then show ?thesis using app_step.flush app_kept_sink(2)
    by (simp add: put_stream_def same_peer_def logged_def app_sink_kept_data)
next
  case (close h w)
  then show ?thesis using app_step.close app_kept_sink(3)
    by (simp add: put_stream_def same_peer_def logged_def app_sink_kept_data)
next
  case (drop_sink h)
  then show ?thesis using app_step.drop_sink app_kept_sink(4)
    by (simp add: put_stream_def same_peer_def logged_def app_sink_kept_data)
next
  case (reads h w r h' st ws)
  have "in_inv (st_in (pr_store pr s))" using assms(2) by (simp add: stream_inv_def)
  note r = stream_poll_next_reads [OF this reads(2)]
  show ?thesis using r app_step.read_next [OF reads(2)] reads(1)
    by (auto simp: put_stream_def same_peer_def logged_def)
next
  case (drop_stream h)
  then show ?thesis using app_step.drop_stream stream_drop_kept
    by (simp add: put_stream_def same_peer_def logged_def)
qed

lemma link_uses:
  assumes ok: "link_ok S a b ab ba" and s: "s \<in> S" and use: "app_uses s a a'"
  shows "link_ok S a' b ab ba"
proof -
  have pa: "peer_ok S a" and h: "half_link S a b ab ba" "half_link S b a ba ab"
    and l: "stream_link a b ab ba s" "stream_link b a ba ab s"
    using ok s by (simp_all add: link_ok_def half_link_def)
  have fl: "flow_ok S (pr_store a) (pr_flow a)" and inv: "stream_inv (pr_store a s)" using pa s by (simp_all add: peer_ok_def)
  note u = app_uses_ok [OF use inv]
  have k: "app_keeps (pr_store a s) (pr_store a' s)" "stream_inv (pr_store a' s)"
    using app_step_keeps [OF _ inv] u by blast+
  have store: "pr_store a' = (pr_store a)(s := pr_store a' s)" using u by (auto simp: same_peer_def)
  have p': "peer_ok S a'"
    using flow_ok_keeps [OF fl k(1)] store u pa k(2) unfolding peer_ok_def same_peer_def by metis
  obtain d where wr: "pr_written a' s = pr_written a s @ d" "out_data (st_out (pr_store a' s)) = out_data (st_out (pr_store a s)) @ d"
    using u unfolding logged_def by blast
  have x: "flow_link (st_out (pr_store a' s)) (st_in (pr_store b s)) ds cs = flow_link (st_out (pr_store a s)) (st_in (pr_store b s)) ds cs"
    "flow_link (st_out (pr_store b s)) (st_in (pr_store a' s)) ds cs = flow_link (st_out (pr_store b s)) (st_in (pr_store a s)) ds cs" for ds cs
    using flow_link_kept u by blast+
  have "stream_link a' b ab ba s"
    using l(1) wr by (auto simp: stream_link_def x content_link_def)
  moreover have "content_link (pr_written b s) (pr_read a' s) (pr_stopped a' s) (st_out (pr_store b s)) (st_in (pr_store a' s))
      (concat (map su_data (msgs_of s ba)))"
    using l(2) u in_closed_queued [of "st_in (pr_store a s)"]
    by (auto simp: stream_link_def content_link_def logged_def app_kept_def prefix_def split: if_splits)
  then have "stream_link b a' ba ab s" using l(2) by (simp add: stream_link_def x)
  ultimately have "half_link S a' b ab ba" "half_link S b a' ba ab"
    using u by (intro half_link_change [OF h(1)] half_link_change [OF h(2)]; simp)+
  then show ?thesis using p' ok by (simp add: link_ok_def)
qed

subsection \<open>Reachable links\<close>

lemma link_ok_swap: "link_ok S a b ab ba \<longleftrightarrow> link_ok S b a ba ab"
  by (auto simp: link_ok_def)

lemma link_step:
  assumes ok: "link_ok S a b ab ba" and step: "side_step fexp S a ab ba a' ab' ba'"
  shows "link_ok S a' b ab' ba'"
  using step
proof (cases rule: side_step.cases)
  case (polls s now ms)
  then show ?thesis using link_poll [OF ok] by simp
next
  case (receives s u now)
  then show ?thesis using link_receive [of S a b ab s u ba' fexp now] ok by auto
next
  case (uses s)
  then show ?thesis using link_uses [OF ok] by simp
next
  case (observes rtt t)
  have "peer_ok S a'" using ok by (simp add: observes(1) link_ok_def peer_ok_def flow_ok_def)
  then show ?thesis using ok by (simp add: observes(1-3) link_ok_def half_link_def stream_link_def)
qed

lemma peer_new_ok:
  assumes "finite S" "config_typed config"
  shows "peer_ok S (peer_new config now ups)"
  using stream_new_inv [OF assms(2)] assms(1)
  by (simp add: peer_ok_def peer_new_def flow_ok_def conn_flow_new_def pool_new_ok accounts_def stream_new_def in_new_def
      out_new_def window_new_def borrowed_def borrowed_at_def) (simp add: pool_new_def)

lemma half_link_new:
  assumes "remote_recv_window a = local_recv_window b" "remote_recv_pool a = local_recv_pool b"
  shows "half_link S (peer_new a t1 ups1) (peer_new b t2 ups2) [] []"
  using assms
  by (simp add: half_link_def stream_link_def flow_link_def content_link_def peer_new_def conn_flow_new_def pool_new_def
      stream_new_def in_new_def out_new_def window_new_def fin_read_received_def fin_read_sent_def peer_finished_def
      out_fin_state_def fin_default_def in_closed_def in_queued_def out_data_def)

lemma reachable_link_ok:
  assumes "reachable_link fexp S ca cb l" "finite S" "config_typed ca" "config_typed cb" "config_compatible ca cb"
  shows "link_ok S (lk_a l) (lk_b l) (lk_ab l) (lk_ba l)"
  using assms(1)
proof (induction rule: reachable_link.induct)
  case (start t1 ups1 t2 ups2)
  then show ?case using assms(2-5) peer_new_ok half_link_new by (simp add: link_ok_def config_compatible_def)
next
  case (step_a l pr tx rx)
  then show ?case using link_step by simp
next
  case (step_b l pr tx rx)
  have "link_ok S (lk_b l) (lk_a l) (lk_ba l) (lk_ab l)" using step_b.IH link_ok_swap by blast
  from link_step [OF this step_b.hyps(2)] show ?case using link_ok_swap by simp
qed

lemma way_empty: "total (map data_amount us) = 0 \<Longrightarrow> concat (map su_data us) = []"
  by (induction us) simp_all

lemma stream_link_eof:
  assumes "stream_link a b ab ba s" "in_closed (st_in (pr_store b s))" "\<not> pr_stopped b s"
  shows "pr_read b s = pr_written a s" "sent (out_fin_state (st_out (pr_store a s)))"
proof -
  have c: "pr_written a s = pr_read b s @ concat (map su_data (msgs_of s ab)) @ out_data (st_out (pr_store a s))"
    "peer_finished (st_in (pr_store b s))"
    using assms in_closed_queued by (auto simp: stream_link_def content_link_def)
  then show "sent (out_fin_state (st_out (pr_store a s)))" using assms(1) by (simp add: stream_link_def flow_link_def)
  moreover have "total (map data_amount (msgs_of s ab)) = 0" using assms(1) c(2) by (simp add: stream_link_def flow_link_def)
  ultimately show "pr_read b s = pr_written a s" using c(1) way_empty sent_no_data by simp
qed

text \<open>
  Two peers with compatible configurations never violate the protocol, however their polls,
  deliveries and applications interleave: the next update on either channel is always accepted. So
  the receive pool is never exceeded, no data or credit follows a \<^verbatim>\<open>FIN\<close>, no \<^verbatim>\<open>FIN\<close> is sent twice, and no
  more credit returns than was in flight.
\<close>

theorem link_never_fails:
  assumes "reachable_link fexp S ca cb l" "finite S" "config_typed ca" "config_typed cb" "config_compatible ca cb"
  shows "(lk_ab l = (s, u) # ms \<longrightarrow> (\<exists>b. peer_receive fexp (lk_b l) s u now = Ok b))
    \<and> (lk_ba l = (s, u) # ms \<longrightarrow> (\<exists>a. peer_receive fexp (lk_a l) s u now = Ok a))"
  using reachable_link_ok [OF assms] link_receive link_ok_swap by metis

text \<open>
  A link on which data is under way: the application wrote two bytes and dropped its sink, and the stream was polled.
\<close>

definition example_peer :: peer where
  "example_peer = peer_new config_new 0 (\<lambda>_. \<lparr>up_id = StreamId 0, up_syn = False\<rparr>)"

definition example_update :: stream_update where
  "example_update = \<lparr>su_id = StreamId 0, su_credit = 0, su_data = [7, 9], su_flags = \<lparr>fin_read = False, fin_write = True, syn = False\<rparr>\<rparr>"

lemmas example_defs = example_peer_def example_update_def peer_new_def put_stream_def
  stream_new_def in_new_def out_new_def window_new_def conn_flow_new_def pool_new_def base_room_def
  window_add_def window_set_def borrowed_def borrowed_at_def add_u64_def sub_u64_def config_new_def credit_threshold_eq

lemma link_example:
  "\<exists>a. pr_written a 3 = [7, 9] \<and> reachable_link (\<lambda>_. 1) {3} config_new config_new
     \<lparr>lk_a = a, lk_b = example_peer, lk_ab = [(3, example_update)], lk_ba = []\<rparr>"
proof -
  let ?st = "stream_new config_new 0" and ?h = "\<lparr>half_id = StreamId 0, half_shared = True\<rparr>" and ?p = example_peer
  let ?st1 = "?st\<lparr>st_out := (st_out ?st)\<lparr>out_state := OutOpen [7, 9] None\<rparr>\<rparr>"
  let ?p1 = "(put_stream ?p 3 ?st1)\<lparr>pr_written := (pr_written ?p)(3 := pr_written ?p 3 @ [7, 9])\<rparr>"
  let ?p2 = "put_stream ?p1 3 (fst (sink_drop ?h (pr_store ?p1 3) 3))"
  let ?l = "\<lambda>a ms. \<lparr>lk_a = a, lk_b = ?p, lk_ab = ms, lk_ba = []\<rparr>"
  have "sink_start_send ?h (pr_store ?p 3) [7, 9] 3 = (Ok (), ?h, ?st1, [WakeUpdates 3])"
    by (simp add: sink_start_send_def out_write_def example_peer_def peer_new_def stream_new_def out_new_def)
  from app_uses.writes [OF this] have u1: "app_uses 3 ?p ?p1" .
  have u2: "app_uses 3 ?p1 ?p2" by (rule app_uses.drop_sink)
  obtain ms p3 where poll: "peer_poll (\<lambda>_. 1) ?p2 3 0 = (ms, p3)" by fastforce
  then have ms: "ms = [(3, example_update)] \<and> pr_written p3 3 = [7, 9]"
    by (auto simp: peer_poll_def sink_drop_def close_writing_def poll_progress_def example_defs in_poll_update_def out_poll_update_def
        plan_def stream_fin_state_def in_fin_state_def out_fin_state_def fin_and_def fin_default_def)
  have "reachable_link (\<lambda>_. 1) {3} config_new config_new (?l ?p [])"
    unfolding example_peer_def by (rule reachable_link.start)
  from reachable_link.step_a [OF this, of ?p1 "[]" "[]"] u1
  have "reachable_link (\<lambda>_. 1) {3} config_new config_new (?l ?p1 [])" by (simp add: side_step.uses)
  from reachable_link.step_a [OF this, of ?p2 "[]" "[]"] u2
  have "reachable_link (\<lambda>_. 1) {3} config_new config_new (?l ?p2 [])" by (simp add: side_step.uses)
  from reachable_link.step_a [OF this, of p3 "[] @ ms" "[]"] side_step.polls [of 3 "{3}" "\<lambda>_. 1" ?p2 0 ms p3 "[]" "[]"] poll
  have "reachable_link (\<lambda>_. 1) {3} config_new config_new (?l p3 ms)" by simp
  then show ?thesis using ms by auto
qed

text \<open>The other end takes the update, and its application reads it.\<close>

lemma link_example_read:
  "\<exists>l st ws. reachable_link (\<lambda>_. 1) {3} config_new config_new l \<and> pr_written (lk_a l) 3 = [7, 9] \<and> \<not> pr_stopped (lk_b l) 3
     \<and> stream_poll_next \<lparr>half_id = StreamId 0, half_shared = True\<rparr> (pr_store (lk_b l) 3) 0 3
         = Ok (Ready None, \<lparr>half_id = StreamId 0, half_shared = False\<rparr>, st, ws)"
proof -
  let ?h = "\<lparr>half_id = StreamId 0, half_shared = True\<rparr>"
  from link_example obtain a where w: "pr_written a 3 = [7, 9]" and l: "reachable_link (\<lambda>_. 1) {3} config_new config_new
     \<lparr>lk_a = a, lk_b = example_peer, lk_ab = [(3, example_update)], lk_ba = []\<rparr>" by blast
  let ?st = "(stream_new config_new 0)\<lparr>st_in := (in_new 65536)\<lparr>in_state := InHalfClosed [[7, 9]],
    in_window := \<lparr>win_base = 65536, unacked = Suc (Suc 0)\<rparr>\<rparr>\<rparr>"
  let ?b = "example_peer\<lparr>pr_store := (pr_store example_peer)(3 := ?st)\<rparr>"
  have "peer_receive (\<lambda>_. 1) example_peer 3 example_update 0 = Ok ?b"
    by (simp add: peer_receive_def handle_received_def handle_credit_def handle_data_def handle_fin_write_def handle_fin_read_def
        non_zero_def in_received_data_def in_count_def is_overdrawn_def data_push_back_def in_received_fin_write_def example_defs)
  from reachable_link.step_b [OF l, of ?b "[]" "[]"] side_step.receives [OF this, of "{3}" "[]" "[]"]
  have l1: "reachable_link (\<lambda>_. 1) {3} config_new config_new \<lparr>lk_a = a, lk_b = ?b, lk_ab = [], lk_ba = []\<rparr>" by simp
  obtain r h' st ws where rd: "stream_poll_next ?h (pr_store ?b 3) 0 3 = Ok (r, h', st, ws)"
    by (simp add: stream_poll_next_def in_poll_read_def in_chunk_read_def Let_def)
  then have st: "in_state (st_in st) = InClosed \<lparr>sent = False, received = True\<rparr>"
    by (auto simp: stream_poll_next_def in_poll_read_def in_chunk_read_def Let_def)
  from reachable_link.step_b [OF l1, of _ "[]" "[]"] side_step.uses [OF _ app_uses.reads [OF rd], of "{3}" "\<lambda>_. 1" "[]" "[]"]
  obtain b where l2: "reachable_link (\<lambda>_. 1) {3} config_new config_new \<lparr>lk_a = a, lk_b = b, lk_ab = [], lk_ba = []\<rparr>"
    and b: "pr_store b 3 = st" "\<not> pr_stopped b 3"
    by (simp add: put_stream_def example_peer_def peer_new_def) fastforce
  have "stream_poll_next ?h (pr_store b 3) 0 3 = Ok (Ready None, ?h\<lparr>half_shared := False\<rparr>, st, [])"
    using st b by (simp add: stream_poll_next_def in_poll_read_def)
  then show ?thesis using l2 b w
    by (intro exI [of _ "\<lparr>lk_a = a, lk_b = b, lk_ab = [], lk_ba = []\<rparr>"] exI [of _ st] exI [of _ "[]"]) simp
qed

theorem link_never_fails_witness:
  "\<exists>a b. reachable_link (\<lambda>_. 1) {3} config_new config_new \<lparr>lk_a = a, lk_b = example_peer, lk_ab = [(3, example_update)], lk_ba = []\<rparr>
     \<and> peer_receive (\<lambda>_. 1) example_peer 3 example_update 0 = Ok b"
proof -
  from link_example obtain a where l: "reachable_link (\<lambda>_. 1) {3} config_new config_new
     \<lparr>lk_a = a, lk_b = example_peer, lk_ab = [(3, example_update)], lk_ba = []\<rparr>" by blast
  from link_never_fails [OF l _ config_new_typed config_new_typed config_new_compatible, of 3 example_update "[]" 0] l
  show ?thesis by auto
qed

text \<open>
  C8. While both connections last, so that no stream is aborted: what the application at one end reads from a stream is a prefix of what the
  application at the other end wrote to it. When it is told of the end of the stream and did not stop reading
  itself, it has read everything, and the other end has sent its \<^verbatim>\<open>FIN_WRITE\<close>.
\<close>

theorem link_end_to_end:
  assumes "reachable_link fexp S ca cb l" "finite S" "config_typed ca" "config_typed cb" "config_compatible ca cb"
    and "s \<in> S" "(a, b) \<in> {(lk_a l, lk_b l), (lk_b l, lk_a l)}"
  shows "prefix (pr_read b s) (pr_written a s)
    \<and> (stream_poll_next h (pr_store b s) w s = Ok (Ready None, h', st, ws) \<longrightarrow> half_shared h \<longrightarrow> \<not> pr_stopped b s \<longrightarrow>
         pr_read b s = pr_written a s \<and> sent (out_fin_state (st_out (pr_store a s))))"
proof -
  note ok = reachable_link_ok [OF assms(1-5)]
  obtain ab ba where l: "stream_link a b ab ba s" and inv: "in_inv (st_in (pr_store b s))"
    using ok assms(6,7) by (auto simp: link_ok_def half_link_def peer_ok_def stream_inv_def)
  from l have "prefix (pr_read b s) (pr_written a s)" by (simp add: stream_link_def content_link_def)
  then show ?thesis using stream_poll_next_reads(6) [OF inv] stream_link_eof [OF l] by blast
qed

theorem link_end_to_end_witness:
  "\<exists>l. reachable_link (\<lambda>_. 1) {3} config_new config_new l \<and> pr_written (lk_a l) 3 = [7, 9] \<and> pr_read (lk_b l) 3 = [7, 9]"
proof -
  from link_example_read obtain l st ws where
    l: "reachable_link (\<lambda>_. 1) {3} config_new config_new l" "pr_written (lk_a l) 3 = [7, 9]" "\<not> pr_stopped (lk_b l) 3"
    and eof: "stream_poll_next \<lparr>half_id = StreamId 0, half_shared = True\<rparr> (pr_store (lk_b l) 3) 0 3
         = Ok (Ready None, \<lparr>half_id = StreamId 0, half_shared = False\<rparr>, st, ws)" by blast
  from link_end_to_end [OF l(1) _ config_new_typed config_new_typed config_new_compatible, of 3 "lk_a l" "lk_b l"] eof l
  show ?thesis by auto
qed

end
