(* ===== verification/Peers.thy ===== *)
theory Peers
  imports Link Streams_End Active
begin

text \<open>
  The streams of two connections (\<^verbatim>\<open>src/connection/streams.rs\<close>), joined by two channels that deliver the stream
  parts of frames in order. Beyond theory \<open>Link\<close>, streams are opened and forgotten, and their IDs are used again.

  The proof follows sessions: a session is one use of an ID, from the opening of the stream until both sides
  forgot it. Each side has a name for the sessions it knows, the reference of its stream; a channel is
  labelled with the sessions of its messages. The invariant says of each session what \<open>flow_link\<close> says of a stream, where the \<^verbatim>\<open>SYN\<close> is,
  that an ID is used again only after its last session is over on the side that opens it, and how
  many sessions a \<^verbatim>\<open>SYN\<close> on the way may find open.
\<close>

section \<open>Definitions\<close>

definition update_header :: "stream_update \<Rightarrow> stream_header" where
  "update_header u = stream_header_of (out_stream_of u)"

type_synonym wire = "stream_update list"

inductive streams_side :: "streams \<Rightarrow> wire \<Rightarrow> wire \<Rightarrow> streams \<Rightarrow> wire \<Rightarrow> wire \<Rightarrow> bool" where
  opens: "key \<notin> fst ` set (sm_outbound sm) \<Longrightarrow> open_outbound key sm now = (r, sm') \<Longrightarrow> streams_side sm tx rx sm' tx rx"
| sends: "poll_update fexp order sm now = (r, sm', ws) \<Longrightarrow>
    streams_side sm tx rx sm' (tx @ (case r of Ready (Ok u) \<Rightarrow> [u] | _ \<Rightarrow> [])) rx"
| receives: "receive fexp (update_header u) (su_data u) sm now = (Ok new, sm', ws) \<Longrightarrow> streams_side sm tx (u # rx) sm' tx rx"
| measures_rtt: "srtt_observe (cf_srtt (sm_flow sm)) (elapsed t t') = (Ok x :: (srtt, unit) rres) \<Longrightarrow>
    streams_side sm tx rx (sm\<lparr>sm_flow := (sm_flow sm)\<lparr>cf_srtt := x\<rparr>\<rparr>) tx rx"
| app: "s < sm_fresh sm \<Longrightarrow> app_step s (sm_store sm s) st \<Longrightarrow>
    streams_side sm tx rx (sm\<lparr>sm_store := (sm_store sm)(s := st)\<rparr>) tx rx"

record pair =
  pa_client :: streams
  pa_server :: streams
  pa_up :: wire
  pa_down :: wire

inductive reachable_pair :: "rammux_config \<Rightarrow> rammux_config \<Rightarrow> pair \<Rightarrow> bool" for cc cs :: rammux_config where
  start: "reachable_pair cc cs \<lparr>pa_client = streams_new Client cc store1, pa_server = streams_new Server cs store2, pa_up = [], pa_down = []\<rparr>"
| client: "reachable_pair cc cs p \<Longrightarrow> streams_side (pa_client p) (pa_up p) (pa_down p) sm tx rx \<Longrightarrow>
    reachable_pair cc cs (p\<lparr>pa_client := sm, pa_up := tx, pa_down := rx\<rparr>)"
| server: "reachable_pair cc cs p \<Longrightarrow> streams_side (pa_server p) (pa_down p) (pa_up p) sm tx rx \<Longrightarrow>
    reachable_pair cc cs (p\<lparr>pa_server := sm, pa_down := tx, pa_up := rx\<rparr>)"

section \<open>Specification\<close>

subsection \<open>Sessions\<close>

type_synonym names = "nat \<Rightarrow> sref option"

definition alive :: "streams \<Rightarrow> names \<Rightarrow> nat \<Rightarrow> bool" where
  "alive sm nm n \<longleftrightarrow> (\<exists>s. nm n = Some s \<and> s \<in> set (handles sm))"

text \<open>The stream of a session; a side that does not know the session yet would start with a new one.\<close>

definition sess :: "streams \<Rightarrow> names \<Rightarrow> nat \<Rightarrow> stream_state" where
  "sess sm nm n = (case nm n of Some s \<Rightarrow> sm_store sm s | None \<Rightarrow> stream_new (sm_config sm) 0)"

text \<open>The first update of the session is still to be sent.\<close>

definition unsent :: "streams \<Rightarrow> names \<Rightarrow> nat \<Rightarrow> bool" where
  "unsent sm nm n \<longleftrightarrow> (\<exists>s up. nm n = Some s \<and> map_of (sm_updates sm) s = Some up \<and> up_syn up)"

abbreviation ours :: "streams \<Rightarrow> (nat \<Rightarrow> stream_id) \<Rightarrow> nat \<Rightarrow> bool" where
  "ours sm ids n \<equiv> initiated_by (ids n) = sm_role sm"

definition side_ok :: "nat \<Rightarrow> (nat \<Rightarrow> stream_id) \<Rightarrow> streams \<Rightarrow> names \<Rightarrow> bool" where
  [inv_defs]: "side_ok cnt ids sm nm \<longleftrightarrow> streams_inv sm \<and> gone_ok sm \<and> inj_on nm (dom nm) \<and> dom nm \<subseteq> {..<cnt}
     \<and> ran nm = {..<sm_fresh sm} \<and> (\<forall>n. alive sm nm n \<longrightarrow> handle_of sm (ids n) = nm n)
     \<and> (\<forall>n < cnt. ours sm ids n \<longrightarrow> nm n \<noteq> None)"

subsection \<open>Messages\<close>

definition syn_ok :: "bool \<Rightarrow> bool \<Rightarrow> stream_update list \<Rightarrow> bool" where
  "syn_ok known is_opening us \<longleftrightarrow>
     (if known then \<not> is_opening \<and> (\<forall>u \<in> set us. \<not> syn (su_flags u))
      else if is_opening then us = [] else us \<noteq> [] \<and> syn (su_flags (hd us)) \<and> (\<forall>u \<in> set (tl us). \<not> syn (su_flags u)))"

definition session_link :: "streams \<Rightarrow> names \<Rightarrow> streams \<Rightarrow> names \<Rightarrow> channel \<Rightarrow> channel \<Rightarrow> nat \<Rightarrow> bool" where
  "session_link sm nm sm' nm' tx rx n \<longleftrightarrow>
     flow_link (st_out (sess sm nm n)) (st_in (sess sm' nm' n)) (map data_amount (msgs_of n tx)) (map credit_amount (msgs_of n rx))
     \<and> syn_ok (nm' n \<noteq> None) (unsent sm nm n) (msgs_of n tx)"

text \<open>Messages of sessions with the same ID are in the order of the sessions, on the side that started them.\<close>

fun in_order :: "rammux_role \<Rightarrow> (nat \<Rightarrow> stream_id) \<Rightarrow> channel \<Rightarrow> bool" where
  "in_order role ids [] \<longleftrightarrow> True"
| "in_order role ids (m # ms) \<longleftrightarrow>
     (initiated_by (ids (fst m)) = role \<longrightarrow> (\<forall>x \<in> set ms. ids (fst x) = ids (fst m) \<longrightarrow> fst m \<le> fst x)) \<and> in_order role ids ms"

text \<open>
  The sessions of a side that the other side may find open when the messages \<open>ms\<close> are still to come:
  those that were started before, and are open here or have a message among \<open>ms\<close>.
\<close>

definition in_view :: "nat \<Rightarrow> (nat \<Rightarrow> stream_id) \<Rightarrow> streams \<Rightarrow> names \<Rightarrow> channel \<Rightarrow> nat set" where
  "in_view cnt ids sm nm ms = {n. n < cnt \<and> ours sm ids n \<and> \<not> unsent sm nm n \<and> (\<forall>u \<in> set (msgs_of n ms). \<not> syn (su_flags u))
     \<and> (alive sm nm n \<or> msgs_of n ms \<noteq> [])}"

fun syn_limits :: "nat \<Rightarrow> (nat \<Rightarrow> stream_id) \<Rightarrow> streams \<Rightarrow> names \<Rightarrow> channel \<Rightarrow> bool" where
  "syn_limits cnt ids sm nm [] \<longleftrightarrow> True"
| "syn_limits cnt ids sm nm (m # ms) \<longleftrightarrow>
     (syn (su_flags (snd m)) \<longrightarrow> card (in_view cnt ids sm nm ms) \<le> unat (max_outbound_streams (sm_config sm)))
     \<and> syn_limits cnt ids sm nm ms"

definition compatible_with :: "rammux_config \<Rightarrow> rammux_config \<Rightarrow> bool" where
  "compatible_with c c' \<longleftrightarrow> max_outbound_streams c \<le> max_inbound_streams c'
     \<and> remote_recv_window c = local_recv_window c' \<and> remote_recv_pool c = local_recv_pool c'"

text \<open>One direction: the first side sends, the second receives.\<close>

definition half_ok :: "nat \<Rightarrow> (nat \<Rightarrow> stream_id) \<Rightarrow> streams \<Rightarrow> names \<Rightarrow> streams \<Rightarrow> names \<Rightarrow> channel \<Rightarrow> channel \<Rightarrow> bool" where
  [inv_defs]: "half_ok cnt ids sm nm sm' nm' tx rx \<longleftrightarrow> sm_role sm \<noteq> sm_role sm' \<and> compatible_with (sm_config sm) (sm_config sm')
     \<and> (\<forall>n < cnt. session_link sm nm sm' nm' tx rx n)
     \<and> (\<forall>m \<in> set tx. fst m < cnt \<and> nm (fst m) \<noteq> None \<and> su_id (snd m) = ids (fst m) \<and> update_ok (sm_config sm) (snd m))
     \<and> (\<forall>n m. n < m \<longrightarrow> m < cnt \<longrightarrow> ids n = ids m \<longrightarrow> ours sm ids n \<longrightarrow> \<not> alive sm nm n)
     \<and> in_order (sm_role sm) ids tx \<and> syn_limits cnt ids sm nm tx"

definition pair_ok :: "nat \<Rightarrow> (nat \<Rightarrow> stream_id) \<Rightarrow> streams \<Rightarrow> names \<Rightarrow> streams \<Rightarrow> names \<Rightarrow> channel \<Rightarrow> channel \<Rightarrow> bool" where
  [inv_defs]: "pair_ok cnt ids a na b nb ab ba \<longleftrightarrow> side_ok cnt ids a na \<and> side_ok cnt ids b nb
     \<and> half_ok cnt ids a na b nb ab ba \<and> half_ok cnt ids b nb a na ba ab"

section \<open>Lemmas\<close>

subsection \<open>Polling\<close>

lemma poll_progress_pending:
  assumes "poll_progress fexp this st flow me now = (Pending, this', st', flow', ws)" "stream_inv st" "pool_ok (tx_pool flow)"
  shows "st' = st" "this' = this"
proof -
  from assms(1) obtain inb i p outb out where
    inb: "in_poll_update (st_in st) (rx_pool flow) = (Pending, i, p)" and
    outb: "out_poll_update fexp (st_out st) (flow\<lparr>rx_pool := p\<rparr>) me now = (Pending, out, flow', ws)" and
    st': "st' = \<lparr>st_in = i, st_out = out\<rparr>" "this' = this"
    by (rule poll_progress_parts) auto
  have lg: "ledger_ok (out_ledger (st_out st))" "in_inv (st_in st)" using assms(2) by (simp_all add: stream_inv_def out_inv_def)
  have "i = st_in st" using lg(2) inb by (cases rule: in_poll_update_cases) simp_all
  moreover have "out = st_out st" using outb
  proof (cases rule: out_poll_update_cases)
    case (closed f)
    then have "f\<lparr>sent := True\<rparr> = f" by (cases f) (simp split: if_splits)
    then show ?thesis using closed by simp
  next
    case (wait lg')
    have "lg' = out_ledger (st_out st)" by (rule plan_cases [OF lg(1) _ wait(2)]) (simp_all add: assms(3))
    then show ?thesis using wait(4) by simp
  qed simp
  ultimately show "st' = st" "this' = this" using st' by simp_all
qed

text \<open>What polling all streams does: at most one of them sends.\<close>

definition sent_by :: "(f64 \<Rightarrow> f64) \<Rightarrow> streams \<Rightarrow> instant \<Rightarrow> stream_update \<Rightarrow> sref \<Rightarrow> streams \<Rightarrow> bool" where
  "sent_by fexp sm now u s sm' \<longleftrightarrow> (\<exists>this flow0 pr this' st flow ws.
     map_of (sm_updates sm) s = Some this \<and> flow_ok {..<sm_fresh sm} (sm_store sm) flow0
     \<and> poll_progress fexp this (sm_store sm s) flow0 s now = (Ready pr, this', st, flow, ws) \<and> u = progress_update pr
     \<and> sm_store sm' = (sm_store sm)(s := st)
     \<and> (\<forall>x. x \<noteq> s \<longrightarrow> map_of (sm_updates sm') x = map_of (sm_updates sm) x)
     \<and> (map_of (sm_updates sm') s = None \<or> map_of (sm_updates sm') s = Some this'))"

lemma map_of_update_same: "map_of xs k = Some v \<Longrightarrow> map_of (AList.update k v xs) = map_of xs"
  by (auto simp: update_conv' fun_upd_idem)

lemma select_shape:
  assumes "streams_inv sm" "select_next fexp order sm now = (r, sm', ws)"
  shows "(r = Pending \<longrightarrow> sm_store sm' = sm_store sm \<and> map_of (sm_updates sm') = map_of (sm_updates sm))
    \<and> (\<forall>u fin. r = Ready (u, fin) \<longrightarrow> (\<exists>s. sent_by fexp sm now u s sm'))"
  using assms
proof (induction order arbitrary: sm ws)
  case (Cons s order)
  show ?case
  proof (cases "map_of (sm_updates sm) s")
    case None
    then show ?thesis using Cons.IH [OF Cons.prems(1), of ws] Cons.prems(2) by simp
  next
    case (Some this)
    obtain r1 this' st flow ws1 where poll: "poll_progress fexp this (sm_store sm s) (sm_flow sm) s now = (r1, this', st, flow, ws1)"
      by (metis prod_cases5)
    let ?sm = "sm\<lparr>sm_store := (sm_store sm)(s := st), sm_flow := flow, sm_updates := AList.update s this' (sm_updates sm)\<rparr>"
    have si: "stream_inv (sm_store sm s)" "flow_ok {..<sm_fresh sm} (sm_store sm) (sm_flow sm)"
      using handed_stream_ok [OF Cons.prems(1) poll_task(1) [OF Cons.prems(1) Some poll refl]] by blast+
    show ?thesis
    proof (cases r1)
      case Pending
      have tx: "pool_ok (tx_pool (sm_flow sm))" using si(2) by (simp add: flow_ok_def)
      note p = poll_progress_pending [OF poll [unfolded Pending] si(1) tx]
      have inv1: "streams_inv ?sm" by (rule poll_task_waits [OF Cons.prems(1) Some poll [unfolded Pending] refl])
      have same: "sm_store ?sm = sm_store sm" "map_of (sm_updates ?sm) = map_of (sm_updates sm)" "sm_fresh ?sm = sm_fresh sm"
        using p map_of_update_same [OF Some] by simp_all
      obtain ws2 where "select_next fexp order ?sm now = (r, sm', ws2)"
        using Cons.prems(2) Some poll Pending by (auto split: prod.splits)
      from Cons.IH [OF inv1 this] show ?thesis unfolding sent_by_def same .
    next
      case (Ready pr)
      have "sm_store sm' = (sm_store sm)(s := st) \<and> (\<forall>x. x \<noteq> s \<longrightarrow> map_of (sm_updates sm') x = map_of (sm_updates sm) x)
        \<and> (map_of (sm_updates sm') s = None \<or> map_of (sm_updates sm') s = Some this') \<and> (\<exists>f. r = Ready (progress_update pr, f))"
        using Cons.prems(2) Some poll Ready
        by (cases pr rule: progress_update.cases) (auto simp: Let_def update_conv' map_of_delete_other split: prod.splits)
      then show ?thesis using Some si(2) poll Ready unfolding sent_by_def by blast
    qed
  qed
qed simp

lemma sent_by_id:
  assumes "streams_inv sm" "sent_by fexp sm now u s sm'"
  shows "handle_of sm (su_id u) = Some s"
proof -
  from assms(2) obtain this flow0 pr this' st flow ws where task: "map_of (sm_updates sm) s = Some this" and
    poll: "poll_progress fexp this (sm_store sm s) flow0 s now = (Ready pr, this', st, flow, ws)" and u: "u = progress_update pr"
    unfolding sent_by_def by blast
  have h: "handle_of sm (up_id this) = Some s" using assms(1) map_of_SomeD [OF task] by (auto simp: streams_inv_def tasks_ok_def)
  note fin = poll_progress_fin(2,3) [OF poll handed_stream_ok(2) [OF assms(1) h]]
  have "su_id u = up_id this"
  proof (cases pr rule: progress_update.cases)
    case (1 u' f)
    then show ?thesis using fin(2) [of u' f] u by simp
  next
    case (2 u' f)
    then show ?thesis using fin(1) [of u' f] u by simp
  qed
  then show ?thesis using h by simp
qed

lemma poll_update_shape:
  assumes inv: "streams_inv sm" and op: "poll_update fexp order sm now = (r, sm', ws)"
  shows "r = Pending \<Longrightarrow> sm_store sm' = sm_store sm \<and> map_of (sm_updates sm') = map_of (sm_updates sm) \<and> handle_of sm' = handle_of sm"
    and "r = Ready (Ok u) \<Longrightarrow> \<exists>s. sent_by fexp sm now u s sm' \<and> handle_of sm (su_id u) = Some s
      \<and> handle_of sm' = (if is_dead (stream_fin_state (sm_store sm' s)) then (handle_of sm)(su_id u := None) else handle_of sm)"
proof -
  obtain r1 sm1 ws1 where sel: "select_next fexp order sm now = (r1, sm1, ws1)" by (metis prod_cases3)
  note si = select_inv [OF inv sel] and sh = select_shape [OF inv sel]
  show "sm_store sm' = sm_store sm \<and> map_of (sm_updates sm') = map_of (sm_updates sm) \<and> handle_of sm' = handle_of sm" if "r = Pending"
    using that op sel sh si(4) by (auto simp: poll_update_def split: poll.splits prod.splits if_splits rres.splits)
  assume r: "r = Ready (Ok u)"
  then obtain fin where r1: "r1 = Ready (u, fin)"
    using op sel by (auto simp: poll_update_def split: poll.splits prod.splits if_splits rres.splits)
  then obtain s where s: "sent_by fexp sm now u s sm1" using sh by blast
  have h: "handle_of sm (su_id u) = Some s" by (rule sent_by_id [OF inv s])
  have c: "chosen sm1 u fin" using si(2) r1 by simp
  then have fin: "fin = stream_fin_state (sm_store sm1 s)" using h si(4) by (auto simp: chosen_def)
  show "\<exists>s. sent_by fexp sm now u s sm' \<and> handle_of sm (su_id u) = Some s
      \<and> handle_of sm' = (if is_dead (stream_fin_state (sm_store sm' s)) then (handle_of sm)(su_id u := None) else handle_of sm)"
  proof (cases "is_dead fin")
    case False
    then have "sm' = sm1" using op sel r1 by (simp add: poll_update_def)
    then show ?thesis using s h False fin si(4) by auto
  next
    case True
    then have "tables_ok sm1" "handle_of sm1 (su_id u) = Some s" using c h si(4) by (auto simp: chosen_def)
    from sm_remove_ok [OF this] obtain sm2 where sm2: "sm_remove (su_id u) sm1 = (Ok sm2 :: (streams, error_kind) rres)"
      "handle_of sm2 = (handle_of sm1)(su_id u := None)" "sm_updates sm2 = sm_updates sm1" "sm_store sm2 = sm_store sm1" .
    have "sm' = sm2" using op sel r1 True sm2(1) by (simp add: poll_update_def)
    then show ?thesis using s h True fin si(4) sm2 by (auto simp: sent_by_def)
  qed
qed

subsection \<open>Receiving\<close>

lemma hand_over_shape:
  assumes inv: "streams_inv sm" and s: "handle_of sm (sh_id h) = Some s" and len: "length d \<le> u32_max"
    and rcv: "handle_received fexp (sh_credit h) d (sh_flags h) (sm_store sm s) (sm_flow sm) s now = Ok (fin, st, flow, ws1)"
    and op: "hand_over fexp h d s new sm now = (r, sm', ws)"
  shows "r = Ok new" "sm_store sm' = (sm_store sm)(s := st)" "sm_updates sm' = sm_updates sm" "sm_fresh sm' = sm_fresh sm"
    "handle_of sm' = (if is_dead (stream_fin_state st) then (handle_of sm)(sh_id h := None) else handle_of sm)"
proof -
  let ?sm = "sm\<lparr>sm_store := (sm_store sm)(s := st), sm_flow := flow\<rparr>"
  have same: "handle_of ?sm = handle_of sm" "handles ?sm = handles sm" by (rule handle_of_cong; simp)+
  have t: "tables_ok ?sm" using inv same by (simp add: streams_inv_def tables_ok_def)
  have fin: "fin = stream_fin_state st" using rcv by (auto simp: handle_received_def)
  from sm_remove_ok [OF t, of "sh_id h" s] s same obtain sm2 where sm2: "sm_remove (sh_id h) ?sm = (Ok sm2 :: (streams, error_kind) rres)"
    "handle_of sm2 = (handle_of ?sm)(sh_id h := None)" "sm_updates sm2 = sm_updates ?sm" "sm_store sm2 = sm_store ?sm" "sm_fresh sm2 = sm_fresh ?sm"
    by auto
  have "r = Ok new \<and> sm' = (if is_dead fin then sm2 else ?sm)"
    using op rcv sm2(1) by (auto simp: hand_over_def Let_def)
  then show "r = Ok new" "sm_store sm' = (sm_store sm)(s := st)" "sm_updates sm' = sm_updates sm" "sm_fresh sm' = sm_fresh sm"
    "handle_of sm' = (if is_dead (stream_fin_state st) then (handle_of sm)(sh_id h := None) else handle_of sm)"
    using sm2 same fin by auto
qed

lemma handed:
  assumes "streams_inv sm" "handle_of sm i = Some s"
  shows "s \<in> set (handles sm)"
  using handles_iff assms by (auto simp: streams_inv_def)

subsection \<open>Sessions\<close>

text \<open>What a step keeps of the other sessions.\<close>

definition same_side :: "nat \<Rightarrow> streams \<Rightarrow> names \<Rightarrow> streams \<Rightarrow> names \<Rightarrow> bool" where
  "same_side n sm nm sm' nm' \<longleftrightarrow> sm_role sm' = sm_role sm \<and> sm_config sm' = sm_config sm
     \<and> (\<forall>m. m \<noteq> n \<longrightarrow> nm' m = nm m \<and> sess sm' nm' m = sess sm nm m \<and> alive sm' nm' m = alive sm nm m \<and> unsent sm' nm' m = unsent sm nm m)"

lemma session_link_other:
  assumes "same_side n a na a' na' \<and> (b', nb') = (b, nb) \<or> same_side n b nb b' nb' \<and> (a', na') = (a, na)"
    "m \<noteq> n" "msgs_of m tx' = msgs_of m tx" "msgs_of m rx' = msgs_of m rx"
  shows "session_link a' na' b' nb' tx' rx' m = session_link a na b nb tx rx m"
  using assms by (auto simp: session_link_def same_side_def)

text \<open>A change on the receiving side.\<close>

lemma half_receiver:
  assumes h: "half_ok cnt ids a na b nb tx rx" and same: "same_side n b nb b' nb'"
    and tx: "tx' = tx \<or> (\<exists>u. tx = (n, u) # tx')" and rx: "\<forall>m. m \<noteq> n \<longrightarrow> msgs_of m rx' = msgs_of m rx"
    and link: "n < cnt \<Longrightarrow> session_link a na b' nb' tx' rx' n"
  shows "half_ok cnt ids a na b' nb' tx' rx'"
proof -
  have "session_link a na b' nb' tx' rx' m" if "m < cnt" for m
    using that link h session_link_other [of n a na a na b' nb' b nb m tx' tx rx' rx] same tx rx
    by (cases "m = n") (auto simp: half_ok_def)
  moreover have "in_order (sm_role a) ids tx'" "syn_limits cnt ids a na tx'" "set tx' \<subseteq> set tx" using h tx by (auto simp: half_ok_def)
  ultimately show ?thesis using h same by (auto simp: half_ok_def same_side_def)
qed

text \<open>A change on the sending side that sends nothing.\<close>

lemma syn_limits_mono:
  assumes "syn_limits cnt ids a na tx" "\<And>ms. in_view cnt' ids' a' na' ms \<subseteq> in_view cnt ids a na ms" "sm_config a' = sm_config a"
  shows "syn_limits cnt' ids' a' na' tx"
  using assms(1)
proof (induction tx)
  case (Cons m ms)
  have "finite (in_view cnt ids a na ms)" by (simp add: in_view_def)
  then have "card (in_view cnt' ids' a' na' ms) \<le> card (in_view cnt ids a na ms)" using assms(2) by (rule card_mono)
  then show ?case using Cons assms(3) by auto
qed simp

lemma half_sender:
  assumes h: "half_ok cnt ids a na b nb tx rx" and same: "same_side n a na a' na'" and rx: "\<forall>m. m \<noteq> n \<longrightarrow> msgs_of m rx' = msgs_of m rx"
    and un: "ours a ids n \<Longrightarrow> unsent a' na' n = unsent a na n" and al: "ours a ids n \<Longrightarrow> alive a' na' n \<Longrightarrow> alive a na n"
    and nm: "na n \<noteq> None \<Longrightarrow> na' n \<noteq> None" and link: "n < cnt \<Longrightarrow> session_link a' na' b nb tx rx' n"
  shows "half_ok cnt ids a' na' b nb tx rx'"
proof -
  have links: "\<forall>m < cnt. session_link a' na' b nb tx rx' m"
    using link h session_link_other [of n a na a' na' b nb b nb _ tx tx rx' rx] same rx unfolding half_ok_def by metis
  have al': "alive a' na' m \<Longrightarrow> alive a na m" if "ours a ids m" for m
    using that al same by (cases "m = n") (auto simp: same_side_def)
  have un': "unsent a' na' m = unsent a na m" if "ours a ids m" for m
    using that un same by (cases "m = n") (auto simp: same_side_def)
  have nm': "na m \<noteq> None \<Longrightarrow> na' m \<noteq> None" for m using nm same by (cases "m = n") (auto simp: same_side_def)
  have c: "sm_role a' = sm_role a" "sm_config a' = sm_config a" using same by (simp_all add: same_side_def)
  have view: "in_view cnt ids a' na' ms \<subseteq> in_view cnt ids a na ms" for ms
    unfolding in_view_def c using al' un' by blast
  have lim: "syn_limits cnt ids a na tx" using h by (simp add: half_ok_def)
  have "syn_limits cnt ids a' na' tx" by (rule syn_limits_mono [OF lim view c(2)])
  moreover have "\<forall>n m. n < m \<longrightarrow> m < cnt \<longrightarrow> ids n = ids m \<longrightarrow> ours a ids n \<longrightarrow> \<not> alive a' na' n"
    using h al' unfolding half_ok_def by blast
  moreover have "\<forall>m \<in> set tx. fst m < cnt \<and> na' (fst m) \<noteq> None \<and> su_id (snd m) = ids (fst m) \<and> update_ok (sm_config a) (snd m)"
    using h nm' unfolding half_ok_def by blast
  ultimately show ?thesis using h c links by (simp add: half_ok_def)
qed

text \<open>Counting sessions.\<close>

lemma alive_iff:
  assumes "tables_ok sm"
  shows "alive sm nm n \<longleftrightarrow> (\<exists>s i. nm n = Some s \<and> handle_of sm i = Some s)"
  using handles_iff [OF assms] by (auto simp: alive_def)

lemma side_session:
  assumes "side_ok cnt ids sm nm" "s < sm_fresh sm"
  obtains n where "n < cnt" "nm n = Some s"
proof -
  have "s \<in> ran nm" "dom nm \<subseteq> {..<cnt}" using assms by (simp_all add: side_ok_def)
  then show thesis using that unfolding ran_def by blast
qed

lemma side_inject:
  assumes "side_ok cnt ids sm nm" "nm n = Some s" "nm m = Some s"
  shows "n = m"
proof -
  have "inj_on nm (dom nm)" using assms(1) by (simp add: side_ok_def)
  then show ?thesis using assms(2,3) by (metis domI inj_onD)
qed

lemma view_bound:
  assumes side: "side_ok cnt ids sm nm"
  shows "card {n. n < cnt \<and> ours sm ids n \<and> alive sm nm n} \<le> outbound_count sm"
proof -
  let ?K = "{n. n < cnt \<and> ours sm ids n \<and> alive sm nm n}"
  have "the (nm n) \<in> snd ` set (sm_outbound sm)" if k: "n \<in> ?K" for n
  proof -
    obtain x where "nm n = Some x" using k by (auto simp: alive_def)
    moreover from this have "handle_of sm (ids n) = Some x" using side k by (simp add: side_ok_def)
    ultimately show ?thesis using k by (force simp: handle_of_def dest: map_of_SomeD)
  qed
  moreover have "inj_on (\<lambda>n. the (nm n)) ?K"
    using side_inject [OF side] by (intro inj_onI) (auto simp: alive_def)
  ultimately have "card ?K \<le> card (snd ` set (sm_outbound sm))" by (intro card_inj_on_le [of "\<lambda>n. the (nm n)"]) auto
  also have "\<dots> \<le> outbound_count sm" unfolding outbound_count_def by (rule order_trans [OF card_image_le card_length]) simp
  finally show ?thesis .
qed

lemma inbound_bound:
  assumes side: "side_ok cnt ids sm nm"
  shows "inbound_count sm \<le> card {n. n < cnt \<and> \<not> ours sm ids n \<and> alive sm nm n}"
proof -
  let ?K = "{n. n < cnt \<and> \<not> ours sm ids n \<and> alive sm nm n}"
  have inv: "streams_inv sm" and t: "tables_ok sm" using side by (simp_all add: side_ok_def streams_inv_def)
  have "\<exists>n \<in> ?K. nm n = Some (snd e)" if e: "e \<in> set (sm_inbound sm)" for e
  proof -
    have h: "handle_of sm (fst e) = Some (snd e)" "initiated_by (fst e) \<noteq> sm_role sm" using e t by (auto simp: handle_of_def tables_ok_def)
    obtain n where n: "n < cnt" "nm n = Some (snd e)" using side_session [OF side handed_stream_ok(1) [OF inv h(1)]] .
    have al: "alive sm nm n" using handed [OF inv h(1)] n(2) by (auto simp: alive_def)
    then have "handle_of sm (ids n) = Some (snd e)" using side n(2) by (simp add: side_ok_def)
    then have "ids n = fst e" using handle_of_inject [OF t] h(1) by blast
    then show ?thesis using n al h(2) by auto
  qed
  then have "snd ` set (sm_inbound sm) \<subseteq> (\<lambda>n. the (nm n)) ` ?K" by force
  then have "card (snd ` set (sm_inbound sm)) \<le> card ?K" using surj_card_le [of ?K] by auto
  moreover have "distinct (map snd (sm_inbound sm))" using t by (simp add: tables_ok_def handles_def)
  then have "card (snd ` set (sm_inbound sm)) = inbound_count sm" by (metis distinct_card inbound_count_def length_map set_map)
  ultimately show ?thesis by simp
qed

text \<open>A step that changes one stream, and perhaps forgets it.\<close>

lemma side_change:
  assumes side: "side_ok cnt ids sm nm" and n: "nm n = Some s" and ok: "streams_inv sm'" "gone_ok sm'"
    and same: "sm_role sm' = sm_role sm" "sm_config sm' = sm_config sm" "sm_fresh sm' = sm_fresh sm"
    and store: "\<And>x. x \<noteq> s \<Longrightarrow> sm_store sm' x = sm_store sm x"
    and upd: "\<And>x. x \<noteq> s \<Longrightarrow> map_of (sm_updates sm') x = map_of (sm_updates sm) x"
    and hd: "handle_of sm' = handle_of sm \<or> handle_of sm i = Some s \<and> handle_of sm' = (handle_of sm)(i := None)"
  shows "side_ok cnt ids sm' nm" "same_side n sm nm sm' nm" "alive sm' nm n \<Longrightarrow> alive sm nm n"
proof -
  have t: "tables_ok sm" "tables_ok sm'" using side ok by (simp_all add: side_ok_def streams_inv_def)
  have other: "nm m \<noteq> Some s" if "m \<noteq> n" for m using side_inject [OF side n] that by blast
  have al: "alive sm' nm m = alive sm nm m" if "m \<noteq> n" for m
    using hd other [OF that] unfolding alive_iff [OF t(1)] alive_iff [OF t(2)] by (metis fun_upd_apply option.distinct(1) option.inject)
  show al': "alive sm nm m" if "alive sm' nm m" for m
    using that hd unfolding alive_iff [OF t(1)] alive_iff [OF t(2)] by (auto split: if_splits)
  have "sess sm' nm m = sess sm nm m \<and> unsent sm' nm m = unsent sm nm m" if "m \<noteq> n" for m
  proof (cases "nm m")
    case (Some x)
    then have "x \<noteq> s" using other [OF that] by blast
    then show ?thesis using Some store upd by (simp add: sess_def unsent_def)
  qed (simp add: sess_def unsent_def same)
  then show "same_side n sm nm sm' nm" using same al by (simp add: same_side_def)
  have "handle_of sm' (ids m) = nm m" if m: "alive sm' nm m" for m
  proof -
    have h: "handle_of sm (ids m) = nm m" using side al' [OF m] by (simp add: side_ok_def)
    obtain x j where x: "nm m = Some x" "handle_of sm' j = Some x" using m unfolding alive_iff [OF t(2)] by blast
    then have "handle_of sm j = Some x" using hd by (auto split: if_splits)
    then have "j = ids m" using handle_of_inject [OF t(1)] h x(1) by simp
    then show ?thesis using x by simp
  qed
  then show "side_ok cnt ids sm' nm" using side ok same by (simp add: side_ok_def)
qed

subsection \<open>Sending\<close>

lemma in_order_append:
  "in_order role ids (ms @ [m]) \<longleftrightarrow> in_order role ids ms
     \<and> (\<forall>x \<in> set ms. initiated_by (ids (fst x)) = role \<longrightarrow> ids (fst m) = ids (fst x) \<longrightarrow> fst x \<le> fst m)"
  by (induction ms) auto

lemma syn_limits_send:
  assumes "syn_limits cnt ids a na tx" "\<And>ms. in_view cnt ids a' na (ms @ [m]) \<subseteq> in_view cnt ids a na ms" "sm_config a' = sm_config a"
    and "syn (su_flags (snd m)) \<Longrightarrow> card (in_view cnt ids a' na []) \<le> unat (max_outbound_streams (sm_config a))"
  shows "syn_limits cnt ids a' na (tx @ [m])"
  using assms(1)
proof (induction tx)
  case Nil
  then show ?case using assms(3,4) by simp
next
  case (Cons x ms)
  have "finite (in_view cnt ids a na ms)" by (simp add: in_view_def)
  then have "card (in_view cnt ids a' na (ms @ [m])) \<le> card (in_view cnt ids a na ms)" using assms(2) by (rule card_mono)
  then show ?case using Cons assms(3) by auto
qed

lemma in_view_send:
  assumes same: "same_side n a na a' na" and n: "alive a na n" and u: "syn (su_flags u) = unsent a na n"
  shows "in_view cnt ids a' na (ms @ [(n, u)]) \<subseteq> in_view cnt ids a na ms"
proof
  fix m assume m: "m \<in> in_view cnt ids a' na (ms @ [(n, u)])"
  show "m \<in> in_view cnt ids a na ms"
  proof (cases "m = n")
    case True
    then show ?thesis using m n same u by (auto simp: in_view_def same_side_def)
  next
    case False
    then show ?thesis using m same by (auto simp: in_view_def same_side_def)
  qed
qed

lemma in_view_limit:
  assumes side: "side_ok cnt ids a na"
  shows "card (in_view cnt ids a na []) \<le> unat (max_outbound_streams (sm_config a))"
proof -
  have "in_view cnt ids a na [] \<subseteq> {m. m < cnt \<and> ours a ids m \<and> alive a na m}" by (auto simp: in_view_def)
  then have "card (in_view cnt ids a na []) \<le> card {m. m < cnt \<and> ours a ids m \<and> alive a na m}" by (intro card_mono) simp_all
  then have "card (in_view cnt ids a na []) \<le> outbound_count a" using view_bound [OF side] by simp
  then show ?thesis using side by (simp add: side_ok_def streams_inv_def limits_ok_def)
qed

lemma half_sends:
  assumes h: "half_ok cnt ids a na b nb tx rx" and same: "same_side n a na a' na" and side: "side_ok cnt ids a' na"
    and n: "n < cnt" "alive a na n" and u: "su_id u = ids n" "update_ok (sm_config a) u" "syn (su_flags u) = unsent a na n" "\<not> unsent a' na n"
    and link: "session_link a' na b nb (tx @ [(n, u)]) rx n"
  shows "half_ok cnt ids a' na b nb (tx @ [(n, u)]) rx"
proof -
  have c: "sm_role a' = sm_role a" "sm_config a' = sm_config a" using same by (simp_all add: same_side_def)
  have na: "na n \<noteq> None" using n(2) by (auto simp: alive_def)
  have links: "\<forall>m < cnt. session_link a' na b nb (tx @ [(n, u)]) rx m"
  proof (intro allI impI)
    fix m assume m: "m < cnt"
    show "session_link a' na b nb (tx @ [(n, u)]) rx m"
    proof (cases "m = n")
      case False
      then have "msgs_of m (tx @ [(n, u)]) = msgs_of m tx" by simp
      from session_link_other [OF disjI1 [OF conjI [OF same refl]] False this refl] show ?thesis using h m by (simp add: half_ok_def)
    qed (use link in simp)
  qed
  have al: "alive a na m" if "alive a' na m" for m using that n(2) same by (cases "m = n") (auto simp: same_side_def)
  have lims: "syn_limits cnt ids a na tx" using h by (simp add: half_ok_def)
  note view = in_view_send [OF same n(2) u(3)]
  have lim: "syn_limits cnt ids a' na (tx @ [(n, u)])"
    using in_view_limit [OF side] c(2) by (intro syn_limits_send [OF lims view c(2)]) simp
  have "\<forall>x \<in> set tx. initiated_by (ids (fst x)) = sm_role a \<longrightarrow> ids n = ids (fst x) \<longrightarrow> fst x \<le> n"
  proof (intro ballI impI)
    fix x assume x: "x \<in> set tx" "initiated_by (ids (fst x)) = sm_role a" "ids n = ids (fst x)"
    have "fst x < cnt" "\<forall>m. n < m \<longrightarrow> m < cnt \<longrightarrow> ids n = ids m \<longrightarrow> ours a ids n \<longrightarrow> \<not> alive a na n"
      using h x(1) unfolding half_ok_def by blast+
    then show "fst x \<le> n" using x(2,3) n(2) not_le by metis
  qed
  then have ord: "in_order (sm_role a') ids (tx @ [(n, u)])" using h c by (simp add: in_order_append half_ok_def)
  have "\<forall>n m. n < m \<longrightarrow> m < cnt \<longrightarrow> ids n = ids m \<longrightarrow> ours a ids n \<longrightarrow> \<not> alive a' na n"
    using h al unfolding half_ok_def by blast
  then show ?thesis using h c links lim ord n(1) na u(1,2) by (simp add: half_ok_def)
qed

lemma sent_by_puts:
  assumes inv: "streams_inv sm" and sb: "sent_by fexp sm now u s sm'"
  shows "out_put (st_out (sm_store sm s)) (su_data u) (fin_write (su_flags u)) (st_out (sm_store sm' s))"
    "in_put (st_in (sm_store sm s)) (unat (su_credit u)) (fin_read (su_flags u)) (st_in (sm_store sm' s))"
    "syn (su_flags u) \<longleftrightarrow> (\<exists>up. map_of (sm_updates sm) s = Some up \<and> up_syn up)"
    "\<not> (\<exists>up. map_of (sm_updates sm') s = Some up \<and> up_syn up)"
proof -
  from sb obtain this flow0 pr this' st flow ws where task: "map_of (sm_updates sm) s = Some this" and
    ok: "flow_ok {..<sm_fresh sm} (sm_store sm) flow0" and
    poll: "poll_progress fexp this (sm_store sm s) flow0 s now = (Ready pr, this', st, flow, ws)" and u: "u = progress_update pr" and
    sm': "sm_store sm' = (sm_store sm)(s := st)" "map_of (sm_updates sm') s = None \<or> map_of (sm_updates sm') s = Some this'"
    unfolding sent_by_def by blast
  note hs = handed_stream_ok [OF inv sent_by_id [OF inv sb]]
  have tx: "pool_ok (tx_pool flow0)" using ok by (simp add: flow_ok_def)
  have wf: "syn (su_flags u) = up_syn this" "\<not> up_syn this'" using update_wellformed [OF hs(2) tx poll u] by blast+
  from poll_progress_puts [OF ok hs(2,4) poll] obtain d fw c fr where
    p: "out_put (st_out (sm_store sm s)) d fw (st_out st)" "in_put (st_in (sm_store sm s)) c fr (st_in st)" "length d \<le> u32_max" and
    r: "Ready pr = Pending \<and> d = [] \<and> \<not> fw \<and> c = 0 \<and> \<not> fr
     \<or> (\<exists>u f. (Ready pr = Ready (Break (u, f)) \<or> Ready pr = Ready (Continue (u, f)))
          \<and> su_data u = d \<and> data_amount u = (length d, fw) \<and> credit_amount u = (c, fr))" .
  then have "su_data u = d" "fin_write (su_flags u) = fw" "unat (su_credit u) = c" "fin_read (su_flags u) = fr" using u by auto
  then show "out_put (st_out (sm_store sm s)) (su_data u) (fin_write (su_flags u)) (st_out (sm_store sm' s))"
    "in_put (st_in (sm_store sm s)) (unat (su_credit u)) (fin_read (su_flags u)) (st_in (sm_store sm' s))"
    using p sm'(1) by simp_all
  show "syn (su_flags u) \<longleftrightarrow> (\<exists>up. map_of (sm_updates sm) s = Some up \<and> up_syn up)"
    "\<not> (\<exists>up. map_of (sm_updates sm') s = Some up \<and> up_syn up)" using task wf sm'(2) by auto
qed

text \<open>A step that does not concern any session.\<close>

lemma pair_still:
  assumes ok: "pair_ok cnt ids a na b nb ab ba" and a': "streams_inv a'" "gone_ok a'"
    and same: "sm_role a' = sm_role a" "sm_config a' = sm_config a" "sm_fresh a' = sm_fresh a"
      "sm_store a' = sm_store a" "map_of (sm_updates a') = map_of (sm_updates a)" "handle_of a' = handle_of a"
  shows "pair_ok cnt ids a' na b nb ab ba"
proof -
  have "tables_ok a" "tables_ok a'" using ok a'(1) by (simp_all add: pair_ok_def side_ok_def streams_inv_def)
  then have al: "alive a' na = alive a na" using same by (simp add: alive_iff fun_eq_iff)
  have s: "sess a' na = sess a na" "unsent a' na = unsent a na"
    unfolding sess_def [abs_def] unsent_def [abs_def] same by (rule refl)+
  have v: "in_view cnt ids a' na = in_view cnt ids a na" using same al s by (simp add: in_view_def fun_eq_iff)
  have l: "syn_limits cnt ids a' na ms = syn_limits cnt ids a na ms" for ms using same v by (induction ms) simp_all
  show ?thesis using ok a' same al s l by (simp add: pair_ok_def side_ok_def half_ok_def session_link_def)
qed

lemma pair_sends:
  assumes ok: "pair_ok cnt ids a na b nb ab ba" and op: "poll_update fexp order a now = (r, a', ws)"
  shows "\<exists>ms. map snd ms = (case r of Ready (Ok u) \<Rightarrow> [u] | _ \<Rightarrow> []) \<and> pair_ok cnt ids a' na b nb (ab @ ms) ba"
proof -
  have side: "side_ok cnt ids a na" and h: "half_ok cnt ids a na b nb ab ba" "half_ok cnt ids b nb a na ba ab"
    using ok by (simp_all add: pair_ok_def)
  have inv: "streams_inv a" "gone_ok a" using side by (simp_all add: side_ok_def)
  note pu = poll_update_inv [OF inv(1) op] and ps = poll_update_shape [OF inv(1) op] and gone = poll_update_gone [OF inv op]
  consider "r = Pending" | u where "r = Ready (Ok u)" using pu(2) by blast
  then show ?thesis
  proof cases
    case 1
    then show ?thesis using pair_still [OF ok pu(1) gone pu(3-5)] ps(1) by (intro exI [of _ "[]"]) simp
  next
    case (2 u)
    then obtain s where sb: "sent_by fexp a now u s a'" and hs: "handle_of a (su_id u) = Some s" and
      ha: "handle_of a' = (if is_dead (stream_fin_state (sm_store a' s)) then (handle_of a)(su_id u := None) else handle_of a)"
      using ps(2) by blast
    obtain n where n: "n < cnt" "na n = Some s" using side_session [OF side handed_stream_ok(1) [OF inv(1) hs]] .
    have al: "alive a na n" using handed [OF inv(1) hs] n(2) by (auto simp: alive_def)
    then have "handle_of a (ids n) = Some s" using side n(2) by (simp add: side_ok_def)
    then have id: "su_id u = ids n" using handle_of_inject [OF _ hs] inv(1) by (simp add: streams_inv_def)
    have rest: "\<And>x. x \<noteq> s \<Longrightarrow> sm_store a' x = sm_store a x" "\<And>x. x \<noteq> s \<Longrightarrow> map_of (sm_updates a') x = map_of (sm_updates a) x"
      using sb by (auto simp: sent_by_def)
    have hd: "handle_of a' = handle_of a \<or> handle_of a (su_id u) = Some s \<and> handle_of a' = (handle_of a)(su_id u := None)"
      using ha hs by auto
    note sc = side_change [OF side n(2) pu(1) gone pu(3-5) rest hd]
    note p = sent_by_puts [OF inv(1) sb]
    have st: "sess a na n = sm_store a s" "sess a' na n = sm_store a' s" using n(2) by (simp_all add: sess_def)
    have un: "syn (su_flags u) = unsent a na n" "\<not> unsent a' na n" using p(3,4) n(2) by (simp_all add: unsent_def)
    have l: "session_link a na b nb ab ba n" "session_link b nb a na ba ab n" using h n(1) by (simp_all add: half_ok_def)
    have "flow_link (st_out (sess a' na n)) (st_in (sess b nb n)) (map data_amount (msgs_of n (ab @ [(n, u)]))) (map credit_amount (msgs_of n ba))"
      using flow_link_out_put [OF _ p(1)] l(1) by (simp add: session_link_def st)
    moreover have "syn_ok (nb n \<noteq> None) (unsent a' na n) (msgs_of n (ab @ [(n, u)]))"
      using l(1) un by (auto simp: session_link_def syn_ok_def hd_append tl_append split: if_splits list.splits)
    ultimately have la: "session_link a' na b nb (ab @ [(n, u)]) ba n" by (simp add: session_link_def)
    have lb: "session_link b nb a' na ba (ab @ [(n, u)]) n"
      using flow_link_in_put [OF _ p(2)] l(2) by (simp add: session_link_def st)
    have uo: "update_ok (sm_config a) u" using pu(2) 2 by auto
    have "half_ok cnt ids a' na b nb (ab @ [(n, u)]) ba" by (rule half_sends [OF h(1) sc(2,1) n(1) al id uo un la])
    moreover have "half_ok cnt ids b nb a' na ba (ab @ [(n, u)])" by (rule half_receiver [OF h(2) sc(2)]) (simp_all add: lb)
    ultimately have "pair_ok cnt ids a' na b nb (ab @ [(n, u)]) ba" using sc(1) ok by (simp add: pair_ok_def)
    then show ?thesis using 2 by (intro exI [of _ "[(n, u)]"]) simp
  qed
qed

subsection \<open>The application and the clock\<close>

lemma app_step_kept:
  assumes "app_step me st st'" "stream_inv st"
  shows "app_kept st st'"
  using assms(1)
proof cases
  case (read_next h w r h' ws)
  have "in_inv (st_in st)" using assms(2) by (simp add: stream_inv_def)
  from stream_poll_next_reads(1) [OF this read_next] show ?thesis .
qed (use app_kept_sink stream_drop_kept(1) in simp_all)

lemma pair_uses:
  assumes ok: "pair_ok cnt ids a na b nb ab ba" and s: "s < sm_fresh a" and step: "app_step s (sm_store a s) st"
  shows "pair_ok cnt ids (a\<lparr>sm_store := (sm_store a)(s := st)\<rparr>) na b nb ab ba"
proof -
  let ?a = "a\<lparr>sm_store := (sm_store a)(s := st)\<rparr>"
  have side: "side_ok cnt ids a na" and h: "half_ok cnt ids a na b nb ab ba" "half_ok cnt ids b nb a na ba ab"
    using ok by (simp_all add: pair_ok_def)
  have inv: "streams_inv a" "gone_ok a" "stream_inv (sm_store a s)"
    using side s by (simp_all add: side_ok_def streams_inv_def store_ok_def)
  obtain n where n: "n < cnt" "na n = Some s" using side_session [OF side s] .
  have hd: "handle_of ?a = handle_of a" "handles ?a = handles a" by (rule handle_of_cong; simp)+
  have "side_ok cnt ids ?a na" "same_side n a na ?a na"
    by (rule side_change [OF side n(2) app_inv [OF inv(1) s step] app_gone [OF inv(2) step]]; simp add: hd)+
  note sc = this
  note kept = app_step_kept [OF step inv(3)]
  have st: "sess ?a na n = st" "sess a na n = sm_store a s" using n(2) by (simp_all add: sess_def)
  have un: "unsent ?a na = unsent a na" "alive ?a na = alive a na"
    by (simp_all add: unsent_def [abs_def] alive_def [abs_def] hd(2))
  have "session_link a na b nb ab ba n" "session_link b nb a na ba ab n" using h n(1) by (simp_all add: half_ok_def)
  then have "session_link ?a na b nb ab ba n" "session_link b nb ?a na ba ab n"
    by (simp_all add: session_link_def st un flow_link_kept [OF kept])
  then have "half_ok cnt ids ?a na b nb ab ba" "half_ok cnt ids b nb ?a na ba ab"
    by (intro half_sender [OF h(1) sc(2)] half_receiver [OF h(2) sc(2)]; simp add: un)+
  then show ?thesis using ok sc(1) by (simp add: pair_ok_def)
qed

lemma pair_rtt:
  assumes ok: "pair_ok cnt ids a na b nb ab ba" and op: "srtt_observe (cf_srtt (sm_flow a)) (elapsed t t') = (Ok x :: (srtt, 'e) rres)"
  shows "pair_ok cnt ids (a\<lparr>sm_flow := (sm_flow a)\<lparr>cf_srtt := x\<rparr>\<rparr>) na b nb ab ba"
proof -
  let ?a = "a\<lparr>sm_flow := (sm_flow a)\<lparr>cf_srtt := x\<rparr>\<rparr>"
  have inv: "streams_inv a" "gone_ok a" using ok by (simp_all add: pair_ok_def side_ok_def)
  note inv' = srtt_step_inv [OF inv(1) op]
  have hd: "handle_of ?a = handle_of a" "handles ?a = handles a" by (rule handle_of_cong; simp)+
  have "gone_ok ?a" using inv(2) by (simp add: gone_ok_def hd(2))
  from pair_still [OF ok inv' this] show ?thesis by (simp add: hd(1))
qed

subsection \<open>New sessions\<close>

lemma side_start:
  assumes side: "side_ok cnt ids sm nm" and ok: "streams_inv sm'" "gone_ok sm'"
    and same: "sm_role sm' = sm_role sm" "sm_config sm' = sm_config sm" "sm_fresh sm' = Suc (sm_fresh sm)"
    and store: "\<And>x. x \<noteq> sm_fresh sm \<Longrightarrow> sm_store sm' x = sm_store sm x"
    and upd: "\<And>x. x \<noteq> sm_fresh sm \<Longrightarrow> map_of (sm_updates sm') x = map_of (sm_updates sm) x"
    and hd: "handle_of sm i = None" "handle_of sm' = (handle_of sm)(i \<mapsto> sm_fresh sm)"
    and n: "nm n = None" "n < cnt'" "ids' n = i" "\<And>m. m \<noteq> n \<Longrightarrow> ids' m = ids m" and cnt: "cnt \<le> cnt'" "\<And>m. m < cnt' \<Longrightarrow> m < cnt \<or> m = n"
  shows "side_ok cnt' ids' sm' (nm(n \<mapsto> sm_fresh sm))" "same_side n sm nm sm' (nm(n \<mapsto> sm_fresh sm))"
proof -
  let ?nm = "nm(n \<mapsto> sm_fresh sm)"
  have t: "tables_ok sm" "tables_ok sm'" using side ok by (simp_all add: side_ok_def streams_inv_def)
  have ran: "ran nm = {..<sm_fresh sm}" "dom nm \<subseteq> {..<cnt}" using side by (simp_all add: side_ok_def)
  then have old: "nm m \<noteq> Some (sm_fresh sm)" for m using ranI by fastforce
  have al: "alive sm' ?nm m = alive sm nm m" if "m \<noteq> n" for m
    using that hd old [of m] unfolding alive_iff [OF t(1)] alive_iff [OF t(2)]
    by (metis fun_upd_apply option.distinct(1) option.inject)
  have "sess sm' ?nm m = sess sm nm m \<and> unsent sm' ?nm m = unsent sm nm m" if "m \<noteq> n" for m
  proof (cases "nm m")
    case (Some x)
    then have "x \<noteq> sm_fresh sm" using old by blast
    then show ?thesis using Some that store upd by (simp add: sess_def unsent_def)
  qed (simp add: sess_def unsent_def same that)
  then show "same_side n sm nm sm' ?nm" using same al by (simp add: same_side_def)
  have 1: "inj_on ?nm (dom ?nm)" using side n(1) old by (auto simp: side_ok_def inj_on_def dom_def)
  have 2: "dom ?nm \<subseteq> {..<cnt'}" using ran(2) n(2) cnt(1) by auto
  have 3: "ran ?nm = {..<sm_fresh sm'}" by (simp add: ran_map_upd [where m = nm, OF n(1)] ran(1) same(3) lessThan_Suc)
  have 4: "handle_of sm' (ids' m) = ?nm m" if m: "alive sm' ?nm m" for m
  proof (cases "m = n")
    case False
    then have "handle_of sm (ids m) = nm m" "nm m \<noteq> None" using m al side by (auto simp: side_ok_def alive_def)
    then show ?thesis using False hd n(4) by auto
  qed (use n(3) hd in simp)
  have 5: "?nm m \<noteq> None" if "m < cnt'" "ours sm' ids' m" for m
  proof (cases "m = n")
    case False
    then have "m < cnt" "ours sm ids m" using that cnt(2) [of m] n(4) same(1) by simp_all
    then show ?thesis using side False by (simp add: side_ok_def)
  qed simp
  show "side_ok cnt' ids' sm' ?nm" unfolding side_ok_def using ok 1 2 3 4 5 by blast
qed

lemma half_no_msgs:
  assumes "half_ok cnt ids a na b nb tx rx" "cnt \<le> n"
  shows "msgs_of n tx = []"
  using assms by (fastforce simp: half_ok_def msgs_of_def filter_empty_conv)

lemma in_order_cong:
  assumes "in_order role ids ms" "\<forall>m \<in> set ms. ids' (fst m) = ids (fst m)"
  shows "in_order role ids' ms"
  using assms by (induction ms) auto

lemma half_extend:
  assumes h: "half_ok cnt ids a na b nb tx rx" and same: "same_side cnt a na a' na'" "same_side cnt b nb b' nb'"
    and view: "initiated_by i = sm_role a \<Longrightarrow> unsent a' na' cnt"
    and reuse: "\<And>n. initiated_by i = sm_role a \<Longrightarrow> n < cnt \<Longrightarrow> ids n = i \<Longrightarrow> \<not> alive a na n"
    and link: "session_link a' na' b' nb' tx rx cnt"
  shows "half_ok (Suc cnt) (ids(cnt := i)) a' na' b' nb' tx rx"
proof -
  let ?ids = "ids(cnt := i)"
  have c: "sm_role a' = sm_role a" "sm_config a' = sm_config a" "sm_role b' = sm_role b" "sm_config b' = sm_config b"
    using same by (simp_all add: same_side_def)
  have old: "na' m = na m" "alive a' na' m = alive a na m" "unsent a' na' m = unsent a na m" if "m < cnt" for m
    using that same(1) by (simp_all add: same_side_def)
  have "session_link a' na' b' nb' tx rx m" if "m < cnt" for m
  proof -
    have "session_link a na b nb tx rx m" using h that by (simp add: half_ok_def)
    then show ?thesis using that same by (simp add: session_link_def same_side_def)
  qed
  then have links: "\<forall>m < Suc cnt. session_link a' na' b' nb' tx rx m" using link less_Suc_eq by simp
  have tx: "\<forall>m \<in> set tx. fst m < cnt" "in_order (sm_role a) ids tx" "syn_limits cnt ids a na tx" using h by (auto simp: half_ok_def)
  have msgs: "\<forall>m \<in> set tx. fst m < Suc cnt \<and> na' (fst m) \<noteq> None \<and> su_id (snd m) = ?ids (fst m) \<and> update_ok (sm_config a) (snd m)"
    using h old unfolding half_ok_def by fastforce
  have ord: "in_order (sm_role a) ?ids tx" using tx(1) by (intro in_order_cong [OF tx(2)]) auto
  have "in_view (Suc cnt) ?ids a' na' ms \<subseteq> in_view cnt ids a na ms" for ms
  proof
    fix m assume m: "m \<in> in_view (Suc cnt) ?ids a' na' ms"
    then have "m < cnt" using view c by (auto simp: in_view_def less_Suc_eq)
    then show "m \<in> in_view cnt ids a na ms" using m old c by (auto simp: in_view_def)
  qed
  then have lim: "syn_limits (Suc cnt) ?ids a' na' tx" using syn_limits_mono [OF tx(3)] c by blast
  have h4: "\<forall>n m. n < m \<longrightarrow> m < cnt \<longrightarrow> ids n = ids m \<longrightarrow> ours a ids n \<longrightarrow> \<not> alive a na n" using h by (simp add: half_ok_def)
  have "\<not> alive a' na' n" if "n < m" "m < Suc cnt" "?ids n = ?ids m" "ours a ?ids n" for n m
  proof (cases "m = cnt")
    case True
    then show ?thesis using that reuse [of n] old [of n] by auto
  next
    case False
    then show ?thesis using that h4 old [of n] by auto
  qed
  then show ?thesis using h c links msgs ord lim by (simp add: half_ok_def)
qed

lemma flow_link_new:
  "unat (remote_recv_window c) = unat (local_recv_window c') \<Longrightarrow> flow_link (st_out (stream_new c t)) (st_in (stream_new c' t')) [] []"
  by (simp add: flow_link_def stream_new_def in_new_def out_new_def window_new_def fin_read_received_def fin_read_sent_def peer_finished_def
      out_fin_state_def fin_default_def)

lemma pair_opens:
  assumes ok: "pair_ok cnt ids a na b nb ab ba" and key: "key \<notin> fst ` set (sm_outbound a)"
    and op: "open_outbound key a now = (Some dx, a')"
  shows "\<exists>ids na'. pair_ok (Suc cnt) ids a' na' b nb ab ba"
proof -
  have side: "side_ok cnt ids a na" "side_ok cnt ids b nb" and h: "half_ok cnt ids a na b nb ab ba" "half_ok cnt ids b nb a na ba ab"
    using ok by (simp_all add: pair_ok_def)
  have inv: "streams_inv a" "gone_ok a" using side(1) by (simp_all add: side_ok_def)
  from open_outbound_Some [OF op] obtain i where i: "from_slab_idx key (sm_role a) = Some i"
    and a': "a' = a\<lparr>sm_store := (sm_store a)(sm_fresh a := stream_new (sm_config a) now),
      sm_fresh := Suc (sm_fresh a), sm_updates := (sm_fresh a, \<lparr>up_id = i, up_syn = True\<rparr>) # sm_updates a,
      sm_outbound := (key, sm_fresh a) # sm_outbound a\<rparr>" .
  from start_outbound [OF inv(1) key op] obtain j where j: "streams_inv a'" "from_slab_idx key (sm_role a) = Some j" "handle_of a j = None"
    "handle_of a' = (handle_of a)(j \<mapsto> sm_fresh a)" .
  then have i': "handle_of a i = None" "handle_of a' = (handle_of a)(i \<mapsto> sm_fresh a)" using i by simp_all
  have role: "initiated_by i = sm_role a" "sm_role a \<noteq> sm_role b" using from_slab_idx_Some [OF i] h(1) by (simp_all add: half_ok_def)
  have none: "na cnt = None" "nb cnt = None" using side by (auto simp: side_ok_def)
  let ?ids = "ids(cnt := i)" and ?na = "na(cnt \<mapsto> sm_fresh a)"
  have s: "side_ok (Suc cnt) ?ids a' ?na" "same_side cnt a na a' ?na"
    by (rule side_start [where cnt' = "Suc cnt" and ids' = ?ids, OF side(1) j(1) open_outbound_gone [OF inv(2) op] _ _ _ _ _ i' none(1)];
      auto simp: a')+
  have sb: "side_ok (Suc cnt) ?ids b nb" "same_side cnt b nb b nb"
    using side(2) role none(2) by (auto simp: side_ok_def same_side_def alive_def less_Suc_eq)
  have no: "msgs_of cnt ab = []" "msgs_of cnt ba = []" using half_no_msgs h by blast+
  have cc: "compatible_with (sm_config a) (sm_config b)" "compatible_with (sm_config b) (sm_config a)" using h by (simp_all add: half_ok_def)
  have un: "unsent a' ?na cnt" "\<not> unsent b nb cnt" using none by (simp_all add: unsent_def a')
  have sess: "sess a' ?na cnt = stream_new (sm_config a) now" "sess b nb cnt = stream_new (sm_config b) 0"
    using none by (simp_all add: sess_def a')
  have "session_link a' ?na b nb ab ba cnt" "session_link b nb a' ?na ba ab cnt"
    using cc none un no by (simp_all add: session_link_def sess flow_link_new compatible_with_def syn_ok_def)
  note l = this
  have "\<not> alive a na n" if "ids n = i" for n
    using that side(1) i'(1) by (auto simp: side_ok_def alive_def)
  then have "half_ok (Suc cnt) ?ids a' ?na b nb ab ba"
    using un(1) by (intro half_extend [OF h(1) s(2) sb(2) _ _ l(1)])
  moreover have "half_ok (Suc cnt) ?ids b nb a' ?na ba ab"
    using role by (intro half_extend [OF h(2) sb(2) s(2) _ _ l(2)]) simp_all
  ultimately show ?thesis using s(1) sb(1) by (auto simp: pair_ok_def)
qed

subsection \<open>The pools, counted over sessions\<close>

lemma session_sum:
  fixes f :: "stream_state \<Rightarrow> nat"
  assumes side: "side_ok cnt ids sm nm" and f0: "f (stream_new (sm_config sm) 0) = 0"
  shows "(\<Sum>n<cnt. f (sess sm nm n)) = (\<Sum>s\<in>{..<sm_fresh sm}. f (sm_store sm s))"
proof -
  have nm: "dom nm \<subseteq> {..<cnt}" "ran nm = {..<sm_fresh sm}" using side by (simp_all add: side_ok_def)
  have inj: "inj_on (\<lambda>n. the (nm n)) (dom nm)" using side_inject [OF side] by (auto intro!: inj_onI)
  have img: "(\<lambda>n. the (nm n)) ` dom nm = {..<sm_fresh sm}" unfolding nm(2) [symmetric] by (force simp: ran_def)
  have "(\<Sum>n<cnt. f (sess sm nm n)) = (\<Sum>n\<in>dom nm. f (sess sm nm n))"
    using nm(1) f0 by (intro sum.mono_neutral_right) (auto simp: sess_def)
  also have "\<dots> = (\<Sum>n\<in>dom nm. f (sm_store sm (the (nm n))))" by (rule sum.cong) (auto simp: sess_def)
  also have "\<dots> = (\<Sum>s\<in>{..<sm_fresh sm}. f (sm_store sm s))" using sum.reindex [OF inj, of "\<lambda>s. f (sm_store sm s)"] img by simp
  finally show ?thesis .
qed

lemma session_flow:
  assumes side: "side_ok cnt ids sm nm"
  shows "flow_ok {..<cnt} (sess sm nm) (sm_flow sm)"
proof -
  have fl: "flow_ok {..<sm_fresh sm} (sm_store sm) (sm_flow sm)" using side by (simp add: side_ok_def streams_inv_def pools_ok_def)
  have z: "borrowed (in_window (st_in (stream_new (sm_config sm) 0))) = 0" "borrowed (out_window (st_out (stream_new (sm_config sm) 0))) = 0"
    by (simp_all add: stream_new_def in_new_def out_new_def window_new_def borrowed_def borrowed_at_def)
  note eq = session_sum [OF side, of "\<lambda>st. borrowed (in_window (st_in st))", OF z(1)]
    session_sum [OF side, of "\<lambda>st. borrowed (out_window (st_out st))", OF z(2)]
  show ?thesis using fl eq by (simp add: flow_ok_def accounts_def)
qed

lemma session_inv:
  assumes side: "side_ok cnt ids sm nm"
  shows "stream_inv (sess sm nm n)"
proof (cases "nm n")
  case None
  then show ?thesis using side stream_new_inv by (simp add: sess_def side_ok_def streams_inv_def store_ok_def)
next
  case (Some s)
  then have "s < sm_fresh sm" using side ranI [of nm n s] by (simp add: side_ok_def)
  then show ?thesis using side Some by (simp add: sess_def side_ok_def streams_inv_def store_ok_def)
qed

subsection \<open>Sessions that are over\<close>

lemma pair_swap: "pair_ok cnt ids a na b nb ab ba \<longleftrightarrow> pair_ok cnt ids b nb a na ba ab"
  by (auto simp: pair_ok_def)

lemma session_dead:
  assumes side: "side_ok cnt ids sm nm" and n: "nm n \<noteq> None"
  shows "alive sm nm n \<longleftrightarrow> \<not> is_dead (stream_fin_state (sess sm nm n))"
proof -
  obtain s where s: "nm n = Some s" using n by blast
  then have f: "s < sm_fresh sm" using side ranI [of nm n s] by (simp add: side_ok_def)
  have "streams_inv sm" "gone_ok sm" using side by (simp_all add: side_ok_def)
  then show ?thesis using s f by (auto simp: alive_def sess_def streams_inv_def tasks_ok_def gone_ok_def)
qed

lemma dead_ends:
  "is_dead (stream_fin_state st) \<longleftrightarrow> peer_finished (st_in st) \<and> fin_read_sent (st_in st) \<and> sent (out_fin_state (st_out st)) \<and> fin_read_received (st_out st)"
  by (auto simp: dead_closed peer_finished_def fin_read_sent_def out_fin_state_def fin_read_received_def fin_default_def
      split: inbound_state.splits outbound_state.splits)

lemma pair_flow:
  assumes "pair_ok cnt ids a na b nb ab ba" "n < cnt"
  shows "flow_link (st_out (sess a na n)) (st_in (sess b nb n)) (map data_amount (msgs_of n ab)) (map credit_amount (msgs_of n ba))"
    "syn_ok (nb n \<noteq> None) (unsent a na n) (msgs_of n ab)"
  using assms by (simp_all add: pair_ok_def half_ok_def session_link_def)

text \<open>Nothing is sent to a side on which the session is over, and the last messages of that side are on the way to the other.\<close>

lemma total_0: "total ms = 0 \<Longrightarrow> m \<in> set ms \<Longrightarrow> fst m = 0"
  by (induction ms) auto

lemma fins_0: "fins ms = 0 \<Longrightarrow> m \<in> set ms \<Longrightarrow> \<not> snd m"
  by (induction ms) auto

lemma over_quiet:
  assumes ok: "pair_ok cnt ids a na b nb ab ba" and n: "n < cnt" "nb n \<noteq> None" "\<not> alive b nb n"
  shows "msgs_of n ab = []"
proof (rule ccontr)
  assume "msgs_of n ab \<noteq> []"
  then obtain u where u: "u \<in> set (msgs_of n ab)" by (cases "msgs_of n ab") auto
  then have "(n, u) \<in> set ab" by (auto simp: msgs_of_def)
  then have uo: "update_ok (sm_config a) u" using ok by (auto simp: pair_ok_def half_ok_def)
  have side: "side_ok cnt ids b nb" using ok by (simp add: pair_ok_def)
  have d: "peer_finished (st_in (sess b nb n))" "fin_read_received (st_out (sess b nb n))"
    using session_dead [OF side n(2)] n(3) dead_ends by blast+
  note f = pair_flow(1) [OF ok n(1)] pair_flow(1) [OF ok [unfolded pair_swap [of _ _ a]] n(1)]
  have "total (map data_amount (msgs_of n ab)) = 0" "fins (map data_amount (msgs_of n ab)) = 0"
    "total (map credit_amount (msgs_of n ab)) = 0" "fins (map credit_amount (msgs_of n ab)) = 0"
    using f d by (simp_all add: flow_link_def)
  then have "length (su_data u) = 0" "\<not> fin_write (su_flags u)" "unat (su_credit u) = 0" "\<not> fin_read (su_flags u)"
    using u total_0 [of "map data_amount (msgs_of n ab)" "data_amount u"] fins_0 [of "map data_amount (msgs_of n ab)" "data_amount u"]
      total_0 [of "map credit_amount (msgs_of n ab)" "credit_amount u"] fins_0 [of "map credit_amount (msgs_of n ab)" "credit_amount u"]
    by simp_all
  then show False using uo by (simp add: update_ok_def unat_eq_zero)
qed

lemma over_waits:
  assumes ok: "pair_ok cnt ids a na b nb ab ba" and n: "n < cnt" "na n \<noteq> None" "\<not> alive a na n"
  shows "nb n \<noteq> None" "alive b nb n \<Longrightarrow> msgs_of n ab \<noteq> []"
proof -
  have side: "side_ok cnt ids a na" "side_ok cnt ids b nb" using ok by (simp_all add: pair_ok_def)
  have d: "peer_finished (st_in (sess a na n))" "fin_read_sent (st_in (sess a na n))"
      "sent (out_fin_state (st_out (sess a na n)))" "fin_read_received (st_out (sess a na n))"
    using session_dead [OF side(1) n(2)] n(3) dead_ends by blast+
  note f = pair_flow(1) [OF ok n(1)] pair_flow(1) [OF ok [unfolded pair_swap [of _ _ a]] n(1)]
  have b: "sent (out_fin_state (st_out (sess b nb n)))" "fin_read_sent (st_in (sess b nb n))" using f d by (simp_all add: flow_link_def)
  show nb: "nb n \<noteq> None"
  proof
    assume "nb n = None"
    then show False using b(1) by (simp add: sess_def stream_new_def out_new_def out_fin_state_def fin_default_def)
  qed
  show "msgs_of n ab \<noteq> []" if al: "alive b nb n"
  proof
    assume "msgs_of n ab = []"
    then have "peer_finished (st_in (sess b nb n))" "fin_read_received (st_out (sess b nb n))" using f d by (simp_all add: flow_link_def)
    then show False using session_dead [OF side(2) nb] al b dead_ends by blast
  qed
qed

subsection \<open>Receiving a message\<close>

lemma arrival_known:
  assumes ok: "pair_ok cnt ids a na b nb ((n, u) # ab) ba" and s: "nb n = Some s"
  shows "handle_of b (su_id u) = Some s" "\<not> syn (su_flags u)"
proof -
  have n: "n < cnt" "su_id u = ids n" using ok by (auto simp: pair_ok_def half_ok_def)
  have "alive b nb n" using over_quiet [OF ok n(1)] s by auto
  then show "handle_of b (su_id u) = Some s" using ok s n(2) by (simp add: pair_ok_def side_ok_def)
  show "\<not> syn (su_flags u)" using pair_flow(2) [OF ok n(1)] s by (simp add: syn_ok_def)
qed

text \<open>A message of a session that the receiver does not know is the one that starts it.\<close>

lemma arrival_starts:
  assumes ok: "pair_ok cnt ids a na b nb ((n, u) # ab) ba" and s: "nb n = None"
  shows "syn (su_flags u)" "\<not> unsent a na n" "\<forall>u \<in> set (msgs_of n ab). \<not> syn (su_flags u)" "\<not> ours b ids n" "alive a na n"
proof -
  have n: "n < cnt" "na n \<noteq> None" using ok by (auto simp: pair_ok_def half_ok_def)
  show "syn (su_flags u)" "\<not> unsent a na n" "\<forall>u \<in> set (msgs_of n ab). \<not> syn (su_flags u)"
    using pair_flow(2) [OF ok n(1)] s by (simp_all add: syn_ok_def split: if_splits)
  show "\<not> ours b ids n" using ok s n(1) by (auto simp: pair_ok_def side_ok_def)
  show "alive a na n" using over_waits(1) [OF ok n] s by blast
qed

lemma theirs:
  assumes "pair_ok cnt ids a na b nb ab ba" "\<not> ours b ids m"
  shows "ours a ids m"
proof -
  have "sm_role a \<noteq> sm_role b" using assms(1) by (simp add: pair_ok_def half_ok_def)
  then show ?thesis using assms(2) by (cases "sm_role a"; cases "sm_role b"; cases "initiated_by (ids m)") simp_all
qed

text \<open>A session of the sender that the receiver has not forgotten yet, although the sender has, has a message behind it.\<close>

lemma arrival_waits:
  assumes ok: "pair_ok cnt ids a na b nb ((n, u) # ab) ba" and s: "nb n = None"
    and m: "m < cnt" "\<not> ours b ids m" "alive b nb m" "\<not> alive a na m"
  shows "msgs_of m ab \<noteq> []"
proof -
  have "na m \<noteq> None" using ok m(1) theirs [OF ok m(2)] by (auto simp: pair_ok_def side_ok_def)
  then have "msgs_of m ((n, u) # ab) \<noteq> []" using over_waits(2) [OF ok m(1) _ m(4,3)] by simp
  then show ?thesis using m(4) arrival_starts(5) [OF ok s] by (auto split: if_splits)
qed

lemma arrival_free:
  assumes ok: "pair_ok cnt ids a na b nb ((n, u) # ab) ba" and s: "nb n = None"
  shows "handle_of b (su_id u) = None"
proof (rule ccontr)
  assume "handle_of b (su_id u) \<noteq> None"
  then obtain t where t: "handle_of b (su_id u) = Some t" by blast
  have side: "side_ok cnt ids b nb" and h: "half_ok cnt ids a na b nb ((n, u) # ab) ba" using ok by (simp_all add: pair_ok_def)
  have inv: "streams_inv b" using side by (simp add: side_ok_def)
  note st = arrival_starts(4,5) [OF ok s]
  have n: "n < cnt" "su_id u = ids n" using h by (simp_all add: half_ok_def)
  obtain m where m: "m < cnt" "nb m = Some t" using side_session [OF side handed_stream_ok(1) [OF inv t]] .
  have al: "alive b nb m" using handed [OF inv t] m(2) by (auto simp: alive_def)
  then have "handle_of b (ids m) = Some t" using side m(2) by (simp add: side_ok_def)
  then have im: "ids m = ids n" using handle_of_inject [OF _ t] inv n(2) by (simp add: streams_inv_def)
  have h4: "\<forall>n m. n < m \<longrightarrow> m < cnt \<longrightarrow> ids n = ids m \<longrightarrow> ours a ids n \<longrightarrow> \<not> alive a na n"
    and ord: "in_order (sm_role a) ids ((n, u) # ab)" using h by (simp_all add: half_ok_def)
  have o: "ours a ids n" by (rule theirs [OF ok st(1)])
  have "m \<noteq> n" using m(2) s by auto
  moreover have "\<not> n < m" using h4 m(1) im o st(2) by metis
  ultimately have lt: "m < n" by simp
  then have "\<not> alive a na m" using h4 n(1) im o by metis
  then have "msgs_of m ab \<noteq> []" using arrival_waits [OF ok s m(1) _ al] st(1) im by simp
  then obtain x where "(m, x) \<in> set ab" by (auto simp: msgs_of_def filter_empty_conv)
  then have "n \<le> m" using ord o im by auto
  then show False using lt by simp
qed

lemma arrival_room:
  assumes ok: "pair_ok cnt ids a na b nb ((n, u) # ab) ba" and s: "nb n = None"
  shows "inbound_count b < unat (max_inbound_streams (sm_config b))"
proof -
  let ?K = "{m. m < cnt \<and> \<not> ours b ids m \<and> alive b nb m}" and ?V = "in_view cnt ids a na ab"
  have side: "side_ok cnt ids b nb" and h: "half_ok cnt ids a na b nb ((n, u) # ab) ba" using ok by (simp_all add: pair_ok_def)
  note st = arrival_starts [OF ok s]
  have "?K \<subseteq> ?V - {n}"
  proof
    fix m assume m: "m \<in> ?K"
    then have k: "nb m \<noteq> None" and mn: "m \<noteq> n" using s by (auto simp: alive_def)
    then have "\<not> unsent a na m" "\<forall>u \<in> set (msgs_of m ab). \<not> syn (su_flags u)"
      using pair_flow(2) [OF ok, of m] m by (simp_all add: syn_ok_def)
    moreover have "alive a na m \<or> msgs_of m ab \<noteq> []" using arrival_waits [OF ok s] m by blast
    ultimately show "m \<in> ?V - {n}" using m mn theirs [OF ok, of m] by (simp add: in_view_def)
  qed
  moreover have "n < cnt" using h by (simp add: half_ok_def)
  then have v: "n \<in> ?V" "finite ?V" using theirs [OF ok st(4)] st(2,3,5) by (simp_all add: in_view_def)
  ultimately have "card ?K < card ?V" by (intro psubset_card_mono) auto
  moreover have "card ?V \<le> unat (max_outbound_streams (sm_config a))" using h st(1) by (simp add: half_ok_def)
  moreover have "max_outbound_streams (sm_config a) \<le> max_inbound_streams (sm_config b)" using h by (simp add: half_ok_def compatible_with_def)
  ultimately show ?thesis using inbound_bound [OF side] by (simp add: word_le_nat_alt)
qed

lemma same_side_trans:
  "same_side n a na a' na' \<Longrightarrow> same_side n a' na' a'' na'' \<Longrightarrow> same_side n a na a'' na''"
  by (simp add: same_side_def)

lemma update_header_simps [simp]:
  "sh_id (update_header u) = su_id u" "sh_flags (update_header u) = su_flags u" "sh_credit (update_header u) = non_zero (su_credit u)"
  by (simp_all add: update_header_def stream_header_of_def out_stream_of_def)

lemma update_ok_len: "update_ok config u \<Longrightarrow> length (su_data u) \<le> u32_max"
  using unsigned_less [where ?'a = nat, of "frame_limit config"] by (simp add: update_ok_def)

text \<open>The stream of a session takes what arrives.\<close>

lemma session_takes:
  assumes side: "side_ok cnt ids a na" "side_ok cnt ids b nb" and h: "half_ok cnt ids a na b0 nb0 tx rx" and same: "same_side n b0 nb0 b nb"
    and n: "n < cnt" "nb n = Some s" and uo: "update_ok (sm_config a) u"
    and fl: "flow_link (st_out (sess a na n)) (st_in (sess b nb n)) (data_amount u # ds) cs"
      "flow_link (st_out (sess b nb n)) (st_in (sess a na n)) ds' (credit_amount u # cs')"
  obtains fin st flow ws where
    "handle_received fexp (non_zero (su_credit u)) (su_data u) (su_flags u) (sm_store b s) (sm_flow b) s now = Ok (fin, st, flow, ws)"
    "flow_link (st_out (sess a na n)) (st_in st) ds cs" "flow_link (st_out st) (st_in (sess a na n)) ds' cs'"
proof -
  have size: "p_size (tx_pool (sm_flow a)) \<le> p_size (rx_pool (sm_flow b))"
    using side h same by (simp add: side_ok_def streams_inv_def pools_ok_def half_ok_def compatible_with_def same_side_def)
  have all: "\<exists>ds cs. flow_link (st_out (sess a na t)) (st_in (sess b nb t)) ds cs" if "t \<in> {..<cnt}" for t
  proof (cases "t = n")
    case False
    then have "sess b nb t = sess b0 nb0 t" using same by (simp add: same_side_def)
    then show ?thesis using h that unfolding half_ok_def session_link_def by force
  qed (use fl(1) in blast)
  have len: "length (su_data u) \<le> u32_max" by (rule update_ok_len [OF uo])
  have st: "sess b nb n = sm_store b s" using n(2) by (simp add: sess_def)
  have nS: "n \<in> {..<cnt}" using n(1) by simp
  obtain fin st flow ws where
    rcv: "handle_received fexp (non_zero (su_credit u)) (su_data u) (su_flags u) (sess b nb n) (sm_flow b) s now = Ok (fin, st, flow, ws)" and
    t: "out_took (st_out (sess b nb n)) (unat (su_credit u)) (fin_read (su_flags u)) (st_out st)"
      "in_took (st_in (sess b nb n)) (su_data u) (fin_write (su_flags u)) (st_in st)"
    by (rule flow_takes [OF session_flow [OF side(2)] session_flow [OF side(1)] size nS session_inv [OF side(2)] all len fl])
  show thesis using that [OF rcv [unfolded st] flow_link_in_took [OF fl(1) t(2)] flow_link_out_took [OF fl(2) t(1)]] .
qed

lemma pair_taken:
  assumes side: "side_ok cnt ids a na" "side_ok cnt ids b nb"
    and h: "half_ok cnt ids a na b0 nb0 ((n, u) # ab) ba" "half_ok cnt ids b0 nb0 a na ba ((n, u) # ab)"
    and same: "same_side n b0 nb0 b nb" and s: "nb n = Some s" "handle_of b (su_id u) = Some s"
    and fl: "flow_link (st_out (sess a na n)) (st_in (sess b nb n)) (map data_amount (msgs_of n ((n, u) # ab))) (map credit_amount (msgs_of n ba))"
      "flow_link (st_out (sess b nb n)) (st_in (sess a na n)) (map data_amount (msgs_of n ba)) (map credit_amount (msgs_of n ((n, u) # ab)))"
    and un: "unsent b nb n = unsent b0 nb0 n" and al: "ours b ids n \<Longrightarrow> alive b nb n \<Longrightarrow> alive b0 nb0 n"
  shows "\<exists>b' ws. hand_over fexp (update_header u) (su_data u) s new b now = (Ok new, b', ws) \<and> pair_ok cnt ids a na b' nb ab ba"
proof -
  have n: "n < cnt" and uo: "update_ok (sm_config a) u" using h(1) by (auto simp: half_ok_def)
  have inv: "streams_inv b" "gone_ok b" using side(2) by (simp_all add: side_ok_def)
  have len: "length (su_data u) \<le> u32_max" by (rule update_ok_len [OF uo])
  obtain fin st flow ws1 where
    rcv: "handle_received fexp (non_zero (su_credit u)) (su_data u) (su_flags u) (sm_store b s) (sm_flow b) s now = Ok (fin, st, flow, ws1)"
    and fl': "flow_link (st_out (sess a na n)) (st_in st) (map data_amount (msgs_of n ab)) (map credit_amount (msgs_of n ba))"
      "flow_link (st_out st) (st_in (sess a na n)) (map data_amount (msgs_of n ba)) (map credit_amount (msgs_of n ab))"
    by (rule session_takes [OF side h(1) same n s(1) uo fl [simplified]])
  obtain r b' ws where op: "hand_over fexp (update_header u) (su_data u) s new b now = (r, b', ws)" by (metis prod_cases3)
  have s': "handle_of b (sh_id (update_header u)) = Some s" using s(2) by simp
  note sh = hand_over_shape [OF inv(1) s' len rcv [folded update_header_simps] op]
  note hi = hand_over_inv [OF inv(1) s' len op] and gone = hand_over_gone [OF inv(1) s' len inv(2) op]
  have b': "streams_inv b'" using hi(2) sh(1) by blast
  have c: "sm_role b' = sm_role b" "sm_config b' = sm_config b" using hi(4) by simp_all
  have hd: "handle_of b' = handle_of b \<or> handle_of b (su_id u) = Some s \<and> handle_of b' = (handle_of b)(su_id u := None)"
    using sh(5) s(2) by simp
  have sc: "side_ok cnt ids b' nb" "same_side n b nb b' nb" "alive b' nb n \<Longrightarrow> alive b nb n"
    using side_change [OF side(2) s(1) b' gone c sh(4) _ _ hd] sh(2,3) by simp_all
  have un': "unsent b' nb n = unsent b0 nb0 n" using un sh(3) by (simp add: unsent_def)
  have st: "sess b' nb n = st" using s(1) sh(2) by (simp add: sess_def)
  have ss: "same_side n b0 nb0 b' nb" by (rule same_side_trans [OF same sc(2)])
  have l: "session_link a na b0 nb0 ((n, u) # ab) ba n" "session_link b0 nb0 a na ba ((n, u) # ab) n" using h n by (simp_all add: half_ok_def)
  have "syn_ok True (unsent a na n) (msgs_of n ab)" using l(1) by (auto simp: session_link_def syn_ok_def split: if_splits)
  then have "session_link a na b' nb ab ba n" using fl'(1) s(1) by (simp add: session_link_def st)
  moreover have "session_link b' nb a na ba ab n" using fl'(2) l(2) un' by (simp add: session_link_def st)
  ultimately have "half_ok cnt ids a na b' nb ab ba" "half_ok cnt ids b' nb a na ba ab"
    using s(1) un' sc(3) al c same
    by (intro half_receiver [OF h(1) ss] half_sender [OF h(2) ss]; simp add: same_side_def)+
  then show ?thesis using op sh(1) side(1) sc(1) by (auto simp: pair_ok_def)
qed

lemma pair_receives_known:
  assumes ok: "pair_ok cnt ids a na b nb ((n, u) # ab) ba" and s: "nb n = Some s"
  shows "\<exists>b' ws. receive fexp (update_header u) (su_data u) b now = (Ok None, b', ws) \<and> pair_ok cnt ids a na b' nb ab ba"
proof -
  have side: "side_ok cnt ids a na" "side_ok cnt ids b nb" and n: "n < cnt"
    and h: "half_ok cnt ids a na b nb ((n, u) # ab) ba" "half_ok cnt ids b nb a na ba ((n, u) # ab)"
    using ok by (auto simp: pair_ok_def half_ok_def)
  note fl = pair_flow(1) [OF ok n] pair_flow(1) [OF ok [unfolded pair_swap [of _ _ a]] n]
  have inv: "streams_inv b" using side(2) by (simp add: side_ok_def)
  note k = arrival_known [OF ok s]
  have same: "same_side n b nb b nb" by (simp add: same_side_def)
  have "refusal b (update_header u) = None" using k by (simp add: refusal_def)
  then have "receive fexp (update_header u) (su_data u) b now = hand_over fexp (update_header u) (su_data u) s None b now"
    using k by (cases rule: receive_cases [OF inv, where fexp = fexp and h = "update_header u" and d = "su_data u" and now = now]) simp_all
  then show ?thesis using pair_taken [OF side h same s k(1) fl refl, of fexp None now] by auto
qed

lemma pair_receives_new:
  assumes ok: "pair_ok cnt ids a na b nb ((n, u) # ab) ba" and none: "nb n = None"
  shows "\<exists>new b' ws. receive fexp (update_header u) (su_data u) b now = (Ok new, b', ws) \<and> pair_ok cnt ids a na b' (nb(n \<mapsto> sm_fresh b)) ab ba"
proof -
  have side: "side_ok cnt ids a na" "side_ok cnt ids b nb" and n: "n < cnt" "su_id u = ids n"
    and h: "half_ok cnt ids a na b nb ((n, u) # ab) ba" "half_ok cnt ids b nb a na ba ((n, u) # ab)"
    using ok by (auto simp: pair_ok_def half_ok_def)
  note fl = pair_flow(1) [OF ok n(1)] pair_flow(1) [OF ok [unfolded pair_swap [of _ _ a]] n(1)]
  have inv: "streams_inv b" "gone_ok b" using side(2) by (simp_all add: side_ok_def)
  have k: "syn (su_flags u)" "initiated_by (su_id u) \<noteq> sm_role b" "handle_of b (su_id u) = None"
    "inbound_count b < unat (max_inbound_streams (sm_config b))"
    using arrival_starts [OF ok none] arrival_free [OF ok none] arrival_room [OF ok none] n(2) by simp_all
  from inv(1) show ?thesis
  proof (cases rule: receive_cases [where fexp = fexp and h = "update_header u" and d = "su_data u" and now = now])
    case (started b1)
    let ?nb = "nb(n \<mapsto> sm_fresh b)"
    have gone: "gone_ok b1" by (rule gone_start [OF inv(2) started(6,14,9)])
    have i: "handle_of b (ids n) = None" "handle_of b1 = (handle_of b)(ids n \<mapsto> sm_fresh b)" using started(1,16) n(2) by simp_all
    have s1: "side_ok cnt ids b1 ?nb" "same_side n b nb b1 ?nb"
      by (rule side_start [OF side(2) started(4) gone started(7,8,6) started(9) _ i none n(1) refl refl order_refl]; simp add: started(15))+
    have st: "sess b1 ?nb n = stream_new (sm_config b) now" "sess b nb n = stream_new (sm_config b) 0"
      using none started(10) by (simp_all add: sess_def)
    have "flow_link out (st_in (sess b1 ?nb n)) ds cs = flow_link out (st_in (sess b nb n)) ds cs"
      "flow_link (st_out (sess b1 ?nb n)) i ds cs = flow_link (st_out (sess b nb n)) i ds cs" for out i ds cs
      unfolding st by (simp_all add: stream_new_def in_new_def out_new_def flow_link_def fin_read_received_def out_fin_state_def)
    note fl1 = fl [folded this]
    have un: "unsent b1 ?nb n = unsent b nb n" using none started(15) by (simp add: unsent_def)
    have "\<not> ours b1 ids n" using k(2) n(2) started(7) by simp
    then show ?thesis
      using pair_taken [OF side(1) s1(1) h s1(2) _ _ fl1 un, of "sm_fresh b" fexp "Some (duplex_new (su_id u), sm_fresh b)" now] started(5,12)
      by auto
  qed (use k in \<open>simp_all add: refusal_def\<close>)
qed

lemma pair_receives:
  assumes ok: "pair_ok cnt ids a na b nb ((n, u) # ab) ba"
  shows "\<exists>new b' ws nb'. receive fexp (update_header u) (su_data u) b now = (Ok new, b', ws) \<and> pair_ok cnt ids a na b' nb' ab ba"
  using pair_receives_known [OF ok] pair_receives_new [OF ok] by (cases "nb n") blast+

subsection \<open>Histories\<close>

definition linked :: "streams \<Rightarrow> streams \<Rightarrow> wire \<Rightarrow> wire \<Rightarrow> bool" where
  [inv_defs]: "linked a b tx rx \<longleftrightarrow> (\<exists>cnt ids na nb ab ba. map snd ab = tx \<and> map snd ba = rx \<and> pair_ok cnt ids a na b nb ab ba)"

lemma linkedE:
  assumes "linked a b tx rx"
  obtains cnt ids na nb ab ba where "map snd ab = tx" "map snd ba = rx" "pair_ok cnt ids a na b nb ab ba"
  using assms unfolding linked_def by blast

lemma linked_swap: "linked a b tx rx \<Longrightarrow> linked b a rx tx"
  unfolding linked_def using pair_swap by blast

lemma linked_receives:
  assumes "linked a b tx (u # rx)"
  shows "\<exists>new a' ws. receive fexp (update_header u) (su_data u) a now = (Ok new, a', ws) \<and> linked a' b tx rx"
proof -
  obtain cnt ids na nb ab ba0 where w: "map snd ab = tx" "map snd ba0 = u # rx" "pair_ok cnt ids a na b nb ab ba0"
    by (rule linkedE [OF assms])
  then obtain n ba where ba: "ba0 = (n, u) # ba" "map snd ba = rx" by (cases ba0) auto
  have "pair_ok cnt ids b nb a na ((n, u) # ba) ab" using w(3) ba(1) pair_swap by simp
  from pair_receives [OF this] obtain new a' ws na' where
    "receive fexp (update_header u) (su_data u) a now = (Ok new, a', ws)" "pair_ok cnt ids b nb a' na' ba ab" by blast
  then show ?thesis unfolding linked_def using w(1) ba(2) pair_swap by blast
qed

lemma linked_rtt:
  assumes "linked a b tx rx" "srtt_observe (cf_srtt (sm_flow a)) (elapsed t t') = (Ok x :: (srtt, 'e) rres)"
  shows "linked (a\<lparr>sm_flow := (sm_flow a)\<lparr>cf_srtt := x\<rparr>\<rparr>) b tx rx"
  using pair_rtt [OF _ assms(2)] assms(1) unfolding linked_def by blast

lemma linked_step:
  assumes "streams_side a tx rx a' tx' rx'" "linked a b tx rx"
  shows "linked a' b tx' rx'"
proof -
  obtain cnt ids na nb ab ba where w: "map snd ab = tx" "map snd ba = rx" and ok: "pair_ok cnt ids a na b nb ab ba"
    by (rule linkedE [OF assms(2)])
  have I: "linked x b (map snd ms) rx" if "pair_ok cnt' ids' x na' b nb ms ba" for cnt' ids' x na' ms
    unfolding linked_def using that w(2) by blast
  from assms(1) show ?thesis
  proof cases
    case (opens key now r)
    show ?thesis
    proof (cases r)
      case None
      then have "a' = a" using open_None opens(4) by blast
      then show ?thesis using opens(1,2) assms(2) by simp
    next
      case (Some dx)
      from pair_opens [OF ok opens(3,4) [unfolded Some]] show ?thesis using I w(1) opens(1,2) by blast
    qed
  next
    case (sends fexp order now r ws)
    from pair_sends [OF ok sends(3)] obtain ms where
      "map snd ms = (case r of Ready (Ok u) \<Rightarrow> [u] | _ \<Rightarrow> [])" "pair_ok cnt ids a' na b nb (ab @ ms) ba" by blast
    then show ?thesis using I [of _ _ _ _ "ab @ ms"] w(1) sends(1,2) by simp
  next
    case (receives fexp u now new ws)
    then show ?thesis using linked_receives [of a b tx u rx' fexp now] assms(2) by auto
  next
    case (measures_rtt t t' x)
    then show ?thesis using linked_rtt [OF assms(2)] by blast
  next
    case (app s st)
    then show ?thesis using pair_uses [OF ok] I w(1) by blast
  qed
qed

lemma linked_new:
  assumes "role \<noteq> role'" "config_typed ca" "config_typed cb" "config_compatible ca cb"
  shows "linked (streams_new role ca store1) (streams_new role' cb store2) [] []"
proof -
  have side: "side_ok 0 ids (streams_new role c store) Map.empty" if "config_typed c" for ids role c store
    using streams_new_inv [OF that] streams_new_gone by (simp add: side_ok_def alive_def streams_new_def)
  have "pair_ok 0 undefined (streams_new role ca store1) Map.empty (streams_new role' cb store2) Map.empty [] []"
    using side assms by (simp add: pair_ok_def half_ok_def compatible_with_def config_compatible_def) (simp add: streams_new_def)
  then show ?thesis unfolding linked_def by force
qed

lemma reachable_linked:
  assumes "reachable_pair cc cs p" "config_typed cc" "config_typed cs" "config_compatible cc cs"
  shows "linked (pa_client p) (pa_server p) (pa_up p) (pa_down p)"
  using assms(1)
proof induction
  case (start store1 store2)
  then show ?case using linked_new [OF _ assms(2-4)] by simp
next
  case (client p sm tx rx)
  then show ?case using linked_step by simp
next
  case (server p sm tx rx)
  have "linked (pa_server p) (pa_client p) (pa_down p) (pa_up p)" by (rule linked_swap [OF server.IH])
  from linked_swap [OF linked_step [OF server.hyps(2) this]] show ?case by simp
qed

section \<open>Properties\<close>

text \<open>
  C2. The streams of two connections with compatible configurations never refuse each other, however
  opening, sending, receiving, forgetting and the two applications interleave, and although IDs are used again: the next
  stream part on either channel is always accepted. So a \<^verbatim>\<open>SYN\<close> never finds its ID occupied nor the limit
  on the number of streams exhausted, every other part finds its stream open, and no stream
  or connection limit is exceeded.
\<close>

theorem peers_never_refuse:
  assumes "reachable_pair cc cs p" "config_typed cc" "config_typed cs" "config_compatible cc cs"
  shows "(pa_up p = u # ms \<longrightarrow> (\<exists>new sm ws. receive fexp (update_header u) (su_data u) (pa_server p) now = (Ok new, sm, ws)))
    \<and> (pa_down p = u # ms \<longrightarrow> (\<exists>new sm ws. receive fexp (update_header u) (su_data u) (pa_client p) now = (Ok new, sm, ws)))"
  using linked_receives linked_swap reachable_linked [OF assms] by metis

text \<open>A client that opened a stream and wrote two bytes to it; the update that starts the stream is on its way.\<close>

definition first_client :: streams where
  "first_client = streams_new Client config_new (\<lambda>_. stream_new config_new 0)"

definition first_server :: streams where
  "first_server = streams_new Server config_new (\<lambda>_. stream_new config_new 0)"

definition first_update :: stream_update where
  "first_update = \<lparr>su_id = StreamId 0, su_credit = 0, su_data = [7, 9], su_flags = \<lparr>fin_read = False, fin_write = False, syn = True\<rparr>\<rparr>"

lemma pair_example:
  "\<exists>a. reachable_pair config_new config_new \<lparr>pa_client = a, pa_server = first_server, pa_up = [first_update], pa_down = []\<rparr>"
proof -
  let ?a1 = "snd (open_outbound 0 first_client 0)" and ?h = "\<lparr>half_id = StreamId 0, half_shared = True\<rparr>"
  let ?st = "fst (snd (snd (sink_start_send ?h (sm_store ?a1 0) [7, 9] 0)))"
  let ?a2 = "?a1\<lparr>sm_store := (sm_store ?a1)(0 := ?st)\<rparr>"
  let ?p = "\<lambda>a ms. \<lparr>pa_client = a, pa_server = first_server, pa_up = ms, pa_down = []\<rparr>"
  obtain r a3 ws where poll: "poll_update (\<lambda>_. 1) [0] ?a2 0 = (r, a3, ws)" by (metis prod_cases3)
  then have r: "r = Ready (Ok first_update)"
    by (auto simp: poll_update_def open_outbound_def start_stream_def first_client_def first_update_def streams_new_def outbound_count_def
        from_slab_idx_eq sink_start_send_def out_write_def poll_progress_def in_poll_update_def out_poll_update_def plan_def
        stream_fin_state_def in_fin_state_def out_fin_state_def fin_and_def fin_default_def Let_def example_defs is_dead_def)
  have 0: "reachable_pair config_new config_new (?p first_client [])"
    unfolding first_client_def first_server_def by (rule reachable_pair.start)
  have "streams_side first_client [] [] ?a1 [] []"
    by (rule streams_side.opens [of 0 _ 0 "fst (open_outbound 0 first_client 0)"]) (simp_all add: first_client_def streams_new_def)
  from reachable_pair.client [OF 0, of ?a1 "[]" "[]"] this have 1: "reachable_pair config_new config_new (?p ?a1 [])" by simp
  have "0 < sm_fresh ?a1"
    by (simp add: open_outbound_def start_stream_def first_client_def streams_new_def outbound_count_def config_new_def from_slab_idx_eq Let_def)
  from streams_side.app [OF this app_step.send, of "[]" "[]" ?h "[7, 9]"] reachable_pair.client [OF 1, of ?a2 "[]" "[]"]
  have 2: "reachable_pair config_new config_new (?p ?a2 [])" by simp
  from streams_side.sends [OF poll, of "[]" "[]"] reachable_pair.client [OF 2, of a3 "[first_update]" "[]"] r
  have "reachable_pair config_new config_new (?p a3 [first_update])" by simp
  then show ?thesis by blast
qed

theorem peers_never_refuse_witness:
  "\<exists>a new sm ws. reachable_pair config_new config_new \<lparr>pa_client = a, pa_server = first_server, pa_up = [first_update], pa_down = []\<rparr>
     \<and> receive (\<lambda>_. 1) (update_header first_update) [7, 9] first_server 0 = (Ok new, sm, ws)"
proof -
  from pair_example obtain a where a: "reachable_pair config_new config_new
      \<lparr>pa_client = a, pa_server = first_server, pa_up = [first_update], pa_down = []\<rparr>" by blast
  have "su_data first_update = [7, 9]" by (simp add: first_update_def)
  with peers_never_refuse [OF a config_new_typed config_new_typed config_new_compatible, of first_update "[]" "\<lambda>_. 1" 0] a
  show ?thesis by auto
qed

end
