(* ===== verification/Endpoints.thy ===== *)
theory Endpoints
  imports Peers Connection
begin

text \<open>
  Two connections (\<^verbatim>\<open>src/connection.rs\<close>) at the two ends of a transport that delivers bytes in order.
  The theory joins the parts: what the streams of one end send is composed into frames, encoded and written; the
  other end reads the bytes, in any pieces, decodes them and hands them to its streams. The
  invariant says that the frames that one end has handed to its codec and that the other end has not decoded yet
  carry exactly the stream parts that are on their way in theory \<open>Peers\<close>.
\<close>

section \<open>Definitions\<close>

text \<open>
  One end of the transport, with the bytes that were taken from it, those that have arrived and can be taken
  next, and those that were written to it.
\<close>

record 'io port =
  pt_transport :: "'io transport"
  pt_taken :: "'io \<Rightarrow> u8 list"
  pt_ahead :: "'io \<Rightarrow> u8 list"
  pt_written :: "'io \<Rightarrow> u8 list"

abbreviation taken_by :: "'io port \<Rightarrow> 'io active \<Rightarrow> u8 list" where
  "taken_by p a \<equiv> pt_taken p (cd_io (ac_codec a))"

abbreviation written_by :: "'io port \<Rightarrow> 'io active \<Rightarrow> u8 list" where
  "written_by p a \<equiv> pt_written p (cd_io (ac_codec a))"

abbreviation ahead_of :: "'io port \<Rightarrow> 'io active \<Rightarrow> u8 list" where
  "ahead_of p a \<equiv> pt_ahead p (cd_io (ac_codec a))"

text \<open>The network: what has arrived at one end was written by the other end, in that order.\<close>

definition from_peer :: "'ia port \<Rightarrow> 'ib port \<Rightarrow> 'ia connection \<Rightarrow> 'ib connection \<Rightarrow> bool" where
  "from_peer pa pb a b \<longleftrightarrow> (case (cn_state a, cn_state b) of
      (ConnActive x, ConnActive y) \<Rightarrow> prefix (taken_by pa x @ ahead_of pa x) (written_by pb y)
    | _ \<Rightarrow> True)"

definition unused :: "'io port \<Rightarrow> 'io \<Rightarrow> bool" where
  "unused p io \<longleftrightarrow> pt_taken p io = [] \<and> pt_ahead p io = [] \<and> pt_written p io = []"

text \<open>The states of two connections that were started on the two ends of an unused transport.\<close>

inductive connected_peers :: "runtime \<Rightarrow> runtime \<Rightarrow> 'ia port \<Rightarrow> 'ib port \<Rightarrow> rammux_config \<Rightarrow> rammux_config \<Rightarrow> 'ia connection \<Rightarrow> 'ib connection \<Rightarrow> bool"
  for rta rtb :: runtime and pa :: "'ia port" and pb :: "'ib port" and ca cb :: rammux_config where
  start: "role \<noteq> role' \<Longrightarrow> connection_new rta ta role ioa ca store1 = Ok a \<Longrightarrow> connection_new rtb tb role' iob cb store2 = Ok b \<Longrightarrow>
    unused pa ioa \<Longrightarrow> unused pb iob \<Longrightarrow> connected_peers rta rtb pa pb ca cb a b"
| first: "connected_peers rta rtb pa pb ca cb a b \<Longrightarrow> conn_step rta (pt_transport pa) (pt_taken pa) (pt_written pa) a a' \<Longrightarrow>
    from_peer pa pb a' b \<Longrightarrow> connected_peers rta rtb pa pb ca cb a' b"
| second: "connected_peers rta rtb pa pb ca cb a b \<Longrightarrow> conn_step rtb (pt_transport pb) (pt_taken pb) (pt_written pb) b b' \<Longrightarrow>
    from_peer pb pa b' a \<Longrightarrow> connected_peers rta rtb pa pb ca cb a b'"

section \<open>Specification\<close>

abbreviation port_ok :: "'io port \<Rightarrow> bool" where
  "port_ok p \<equiv> transport_ok (pt_transport p) (pt_taken p) (pt_written p)"

abbreviation arrivals_ok :: "'io port \<Rightarrow> bool" where
  "arrivals_ok p \<equiv> buffered_source (t_read (pt_transport p)) (pt_taken p) (pt_ahead p)"

text \<open>The frames \<open>fs\<close> without those that were decoded carry the updates \<open>us\<close>.\<close>

definition carries :: "out_frame list \<Rightarrow> decoded_frame list \<Rightarrow> stream_update list \<Rightarrow> bool" where
  "carries fs ds us \<longleftrightarrow> length ds \<le> length fs \<and> List.map_filter of_stream (drop (length ds) fs) = map out_stream_of us"

definition ends_ok :: "'ia port \<Rightarrow> 'ib port \<Rightarrow> 'ia active \<Rightarrow> 'ib active \<Rightarrow> bool" where
  [inv_defs]: "ends_ok pa pb a b \<longleftrightarrow> (\<exists>dsa fsa dsb fsb ua ub.
     active_inv (pt_taken pa) (pt_written pa) a dsa fsa \<and> active_inv (pt_taken pb) (pt_written pb) b dsb fsb
     \<and> linked (ac_streams a) (ac_streams b) ua ub \<and> carries fsa dsb ua \<and> carries fsb dsa ub
     \<and> prefix (taken_by pa a) (written_by pb b) \<and> prefix (taken_by pb b) (written_by pa a)
     \<and> frame_limit (sm_config (ac_streams a)) = frame_limit (sm_config (ac_streams b)))"

text \<open>The invariant of two connections, as long as both are active.\<close>

definition both_ok :: "'ia port \<Rightarrow> 'ib port \<Rightarrow> 'ia connection \<Rightarrow> 'ib connection \<Rightarrow> bool" where
  "both_ok pa pb a b \<longleftrightarrow> from_peer pa pb a b \<and> from_peer pb pa b a
     \<and> (\<forall>x y. cn_state a = ConnActive x \<longrightarrow> cn_state b = ConnActive y \<longrightarrow> ends_ok pa pb x y)"

section \<open>Lemmas\<close>

subsection \<open>Frames on the transport\<close>

text \<open>Frames that are decoded from a prefix of the bytes of other frames are the first of these.\<close>

lemma frames_prefix:
  assumes "\<forall>d \<in> set ds. df_valid limit d" "\<forall>e \<in> set es. df_valid limit e"
    and "prefix (concat (map df_bytes ds) @ used) (concat (map df_bytes es))"
  shows "length ds \<le> length es \<and> map untimed ds = map untimed (take (length ds) es)
    \<and> prefix used (concat (map df_bytes (drop (length ds) es)))
    \<and> concat (map df_bytes ds) = concat (map df_bytes (take (length ds) es))"
  using assms
proof (induction ds arbitrary: es)
  case (Cons d ds)
  have "es \<noteq> []" using Cons.prems(3) df_bytes_pos [of d] by auto
  then obtain e es' where es: "es = e # es'" by (cases es) auto
  let ?ys = "concat (map df_bytes es)"
  have v: "df_valid limit d" "df_valid limit e" using Cons.prems es by simp_all
  have p: "prefix (df_bytes d) ?ys" "prefix (df_bytes e) ?ys" using Cons.prems(3) es by (auto simp: prefix_def)
  note eq = df_bytes_inject [OF v p]
  have "prefix (concat (map df_bytes ds) @ used) (concat (map df_bytes es'))" using Cons.prems(3) es eq(2) by simp
  from Cons.IH [OF _ _ this] Cons.prems es eq show ?case by simp
qed simp

text \<open>What an end has written is a prefix of the bytes of its frames.\<close>

lemma frames_written:
  assumes out: "codec_out written c fs" and ok: "frames_ok config fs" and limit: "limit = frame_limit config"
  obtains es where "length es = length fs" "\<forall>e \<in> set es. df_valid limit e" "prefix (written (cd_io c)) (concat (map df_bytes es))"
    "\<forall>k < length fs. \<exists>t. es ! k = arrives_as (t, fs ! k)" "cd_pending c = None \<longrightarrow> written (cd_io c) = concat (map df_bytes es)"
proof -
  obtain ts where ts: "length ts = length fs" "written (cd_io c) @ owed (cd_pending c) = concat (map encoding (zip ts fs))"
    using out unfolding codec_out_def by blast
  have f: "frame_ok f" "frame_data_len f \<le> unat limit" if "(t, f) \<in> set (zip ts fs)" for t f
    using that ok limit by (auto simp: frames_ok_def dest: set_zip_rightD)
  have enc: "map encoding (zip ts fs) = map df_bytes (map arrives_as (zip ts fs))"
    using arrives_as_valid(2) [OF f] by auto
  then have "prefix (written (cd_io c)) (concat (map df_bytes (map arrives_as (zip ts fs))))"
    using ts(2) by (metis prefixI)
  moreover have "cd_pending c = None \<longrightarrow> written (cd_io c) = concat (map df_bytes (map arrives_as (zip ts fs)))"
    using ts(2) unfolding enc by (auto simp: owed_def)
  moreover have "\<forall>e \<in> set (map arrives_as (zip ts fs)). df_valid limit e" using arrives_as_valid(1) [OF f] by auto
  ultimately show thesis using ts(1) by (intro that [of "map arrives_as (zip ts fs)"]) auto
qed

lemma next_arrival:
  assumes inn: "codec_in taken c (ds @ [d])" and out: "codec_out written c' fs" "frames_ok config fs"
    and limit: "cd_frame_limit c = frame_limit config" and pre: "prefix (taken (cd_io c)) (written (cd_io c'))"
  shows "length ds < length fs" "\<exists>t. untimed d = arrives_as (t, fs ! length ds)"
proof -
  from frames_written [OF out limit] obtain es where es: "length es = length fs" "\<forall>e \<in> set es. df_valid (cd_frame_limit c) e"
    "prefix (written (cd_io c')) (concat (map df_bytes es))" "\<forall>k < length fs. \<exists>t. es ! k = arrives_as (t, fs ! k)" .
  obtain used where used: "taken (cd_io c) = concat (map df_bytes (ds @ [d])) @ used" and v: "\<forall>d \<in> set (ds @ [d]). df_valid (cd_frame_limit c) d"
    using inn unfolding codec_in_def by blast
  have "prefix (concat (map df_bytes (ds @ [d])) @ used) (concat (map df_bytes es))"
    using pre es(3) prefix_order.trans unfolding used by blast
  note fp = frames_prefix [OF v es(2) this]
  then show lt: "length ds < length fs" using es(1) by simp
  have "map untimed (ds @ [d]) ! length ds = map untimed (take (length (ds @ [d])) es) ! length ds" using fp by simp
  then have "untimed d = untimed (es ! length ds)" using lt es(1) by (simp add: nth_append)
  moreover obtain t where t: "es ! length ds = arrives_as (t, fs ! length ds)" using es(4) lt by blast
  moreover have "frame_ok (fs ! length ds)" "frame_data_len (fs ! length ds) \<le> unat (frame_limit config)"
    using out(2) lt by (simp_all add: frames_ok_def)
  ultimately show "\<exists>t. untimed d = arrives_as (t, fs ! length ds)" using arrives_as_valid(3) by auto
qed

lemma no_decode_error:
  assumes out: "dec_outcome limit used r st" and es: "\<forall>e \<in> set es. df_valid limit e" and pre: "prefix used (concat (map df_bytes es))"
  shows "r \<noteq> Ready (Some (Err (Decode x)))"
proof -
  obtain d ys where "df_valid limit d" "prefix used ys" "prefix (df_bytes d) ys"
  proof (cases es)
    case Nil
    then show thesis using pre that [of Terminate "df_bytes Terminate"] by simp
  next
    case (Cons e es')
    then show thesis using pre es by (intro that [of e "concat (map df_bytes es)"]) auto
  qed
  from outcome_on_frame [OF this(1) out this(2,3)] show ?thesis by cases simp_all
qed

text \<open>Reading from what the other end wrote never gives an error of the decoder.\<close>

lemma poll_next_sound:
  assumes tr: "transport_ok tr taken written'" and inn: "codec_in taken c ds" and lim: "now + never \<le> rt_limit rt"
    and op: "codec_poll_next rt tr now c = (r, c1)"
    and out: "codec_out written c' fs" "frames_ok config fs" and limit: "cd_frame_limit c = frame_limit config"
    and pre: "prefix (taken (cd_io c1)) (written (cd_io c'))"
  shows "r \<noteq> Ready (Some (Err (Decode x)))"
proof -
  from frames_written [OF out limit] obtain es where es: "\<forall>e \<in> set es. df_valid (cd_frame_limit c) e"
    "prefix (written (cd_io c')) (concat (map df_bytes es))" .
  obtain used where used: "taken (cd_io c) = concat (map df_bytes ds) @ used" "dec_rep (cd_frame_limit c) (cd_decoder c) used"
    and v: "\<forall>d \<in> set ds. df_valid (cd_frame_limit c) d" using inn unfolding codec_in_def by blast
  obtain bs where bs: "taken (cd_io c1) = concat (map df_bytes ds) @ used @ bs"
    and o: "dec_outcome (cd_frame_limit c) (used @ bs) r (cd_decoder c1) \<or> r = Ready (Some (Err (Io TimedOut)))"
    using codec_reads [OF tr used(2,1) lim op] by auto
  have "prefix (concat (map df_bytes ds) @ used @ bs) (concat (map df_bytes es))" using pre es(2) prefix_order.trans unfolding bs by blast
  from frames_prefix [OF v es(1) this] have "prefix (used @ bs) (concat (map df_bytes (drop (length ds) es)))" by blast
  moreover have "\<forall>e \<in> set (drop (length ds) es). df_valid (cd_frame_limit c) e" using es(1) by (auto dest: in_set_dropD)
  ultimately show ?thesis using o no_decode_error by blast
qed

subsection \<open>Stream parts in frames\<close>

lemma carries_next:
  assumes "carries fs ds us" "length ds < length fs"
  obtains mu us' where "of_stream (fs ! length ds) = map_option out_stream_of mu" "us = (case mu of None \<Rightarrow> us' | Some u \<Rightarrow> u # us')"
    "\<forall>d. carries fs (ds @ [d]) us'"
proof -
  have fs: "drop (length ds) fs = fs ! length ds # drop (Suc (length ds)) fs" using assms(2) by (simp add: Cons_nth_drop_Suc)
  have us: "List.map_filter of_stream (drop (length ds) fs) = map out_stream_of us" using assms(1) by (simp add: carries_def)
  show thesis
  proof (cases "of_stream (fs ! length ds)")
    case None
    then show thesis using us assms(2) unfolding fs by (intro that [of None us]) (simp_all add: List.map_filter_simps carries_def)
  next
    case (Some s)
    then obtain u us' where "us = u # us'" "s = out_stream_of u" "List.map_filter of_stream (drop (Suc (length ds)) fs) = map out_stream_of us'"
      using us unfolding fs by (auto simp: List.map_filter_simps)
    then show thesis using Some assms(2) by (intro that [of "Some u" us']) (simp_all add: carries_def)
  qed
qed

lemma carries_send:
  assumes "carries fs ds us"
  shows "carries (fs @ [compose pong ping mu]) ds (us @ (case mu of None \<Rightarrow> [] | Some u \<Rightarrow> [u]))"
  using assms by (cases mu) (simp_all add: carries_def compose_def List.map_filter_simps List.map_filter_def)

lemma arrival_part:
  assumes "untimed (Frame g) = arrives_as (t, f)" "of_stream f = map_option out_stream_of mu"
  shows "h_stream (if_header g) = map_option update_header mu" "if_data g = (case mu of None \<Rightarrow> [] | Some u \<Rightarrow> su_data u)"
proof -
  have "if_header g = with_ping t (frame_header f) \<and> if_data g = frame_payload f"
    using assms(1) by (cases g) (auto simp: arrives_as_def split: if_splits)
  then show "h_stream (if_header g) = map_option update_header mu" "if_data g = (case mu of None \<Rightarrow> [] | Some u \<Rightarrow> su_data u)"
    using assms(2) by (cases mu; simp add: frame_header_def frame_payload_def update_header_def out_stream_of_def)+
qed

subsection \<open>Receiving\<close>

lemma linked_pong:
  assumes "linked sm b tx rx" "receive_pong c f sm = Ok sm'"
  shows "linked sm' b tx rx"
proof (cases "h_pong (if_header f)")
  case None
  then show ?thesis using assms by (simp add: receive_pong_def)
next
  case (Some pong)
  then obtain t x where "srtt_observe (cf_srtt (sm_flow sm)) (elapsed t (t_echo pong)) = (Ok x :: (srtt, error_kind) rres)"
    "sm' = sm\<lparr>sm_flow := (sm_flow sm)\<lparr>cf_srtt := x\<rparr>\<rparr>"
    using assms(2) by (auto simp: receive_pong_def Let_def)
  then show ?thesis using linked_rtt [OF assms(1)] by blast
qed

lemma linked_streams_inv: "linked a b tx rx \<Longrightarrow> streams_inv a"
  by (auto simp: linked_def pair_ok_def side_ok_def)

lemma receive_frame_linked:
  assumes link: "linked (ac_streams a) b tx (case mu of None \<Rightarrow> rx | Some u \<Rightarrow> u # rx)"
    and f: "h_stream (if_header f) = map_option update_header mu" "if_data f = (case mu of None \<Rightarrow> [] | Some u \<Rightarrow> su_data u)"
    and op: "receive_frame fexp now f a = (r, a', ws)"
  shows "(\<exists>new. r = Ok (ReceivedFrame new)) \<and> linked (ac_streams a') b tx rx"
proof -
  obtain sm where sm: "receive_pong (ac_codec a) f (ac_streams a) = Ok sm"
    by (rule receive_pong_ok [OF linked_streams_inv [OF link], of "ac_codec a" f])
  note link' = linked_pong [OF link sm]
  show ?thesis
  proof (cases mu)
    case None
    then show ?thesis using op f sm link' by (auto simp: receive_frame_def)
  next
    case (Some u)
    then obtain new sm' ws' where "receive fexp (update_header u) (su_data u) sm now = (Ok new, sm', ws')" "linked sm' b tx rx"
      using linked_receives [of sm b tx u rx fexp now] link' by auto
    then show ?thesis using op f sm Some by (auto simp: receive_frame_def)
  qed
qed

text \<open>The result of a poll is no violation of the protocol by the other end.\<close>

definition no_violation :: "(received, error_kind) rres poll \<Rightarrow> bool" where
  "no_violation r \<longleftrightarrow> r = Pending \<or> (\<exists>new. r = Ready (Ok (ReceivedFrame new))) \<or> (\<exists>e. r = Ready (Err (Io e)))"

lemma ends_okE:
  assumes "ends_ok pa pb a b"
  obtains dsa fsa dsb fsb ua ub where
    "active_inv (pt_taken pa) (pt_written pa) a dsa fsa" "active_inv (pt_taken pb) (pt_written pb) b dsb fsb"
    "linked (ac_streams a) (ac_streams b) ua ub" "carries fsa dsb ua" "carries fsb dsa ub"
    "prefix (taken_by pa a) (written_by pb b)" "prefix (taken_by pb b) (written_by pa a)"
    "frame_limit (sm_config (ac_streams a)) = frame_limit (sm_config (ac_streams b))"
  using assms unfolding ends_ok_def by blast

lemma poll_receive_codec:
  assumes "poll_receive rt tr fexp now a = (r, a', ws)" "codec_poll_next rt tr now (ac_codec a) = (r1, c)"
  shows "ac_codec a' = c"
  using assms by (auto simp: poll_receive_def receive_frame_def receive_pong_def Let_def
      split: option.splits prod.splits rres.splits poll.splits decoded_frame.splits)

lemma frame_arrives:
  assumes inn: "codec_in taken c (ds @ [d])" and out: "codec_out written c' fs" "frames_ok config fs"
    and limit: "cd_frame_limit c = frame_limit config" and pre: "prefix (taken (cd_io c)) (written (cd_io c'))" and car: "carries fs ds us"
  obtains f mu us' where "d = Frame f" "h_stream (if_header f) = map_option update_header mu"
    "if_data f = (case mu of None \<Rightarrow> [] | Some u \<Rightarrow> su_data u)" "us = (case mu of None \<Rightarrow> us' | Some u \<Rightarrow> u # us')"
    "\<forall>d. carries fs (ds @ [d]) us'"
proof -
  note na = next_arrival [OF inn out limit pre]
  obtain t where t: "untimed d = arrives_as (t, fs ! length ds)" using na(2) by blast
  have "\<not> of_term (fs ! length ds)" using out(2) na(1) by (simp add: frames_ok_def)
  then obtain f where f: "d = Frame f" using t by (cases d) (simp_all add: arrives_as_def)
  obtain mu us' where mu: "of_stream (fs ! length ds) = map_option out_stream_of mu" "us = (case mu of None \<Rightarrow> us' | Some u \<Rightarrow> u # us')"
    "\<forall>d. carries fs (ds @ [d]) us'" by (rule carries_next [OF car na(1)])
  show thesis by (rule that [OF f arrival_part [OF t [unfolded f] mu(1)] mu(2,3)])
qed

lemma ends_receive:
  assumes ok: "ends_ok pa pb a b" and port: "port_ok pa" and lim: "now + never \<le> rt_limit rt"
    and op: "poll_receive rt (pt_transport pa) fexp now a = (r, a', ws)" and pre: "prefix (taken_by pa a') (written_by pb b)"
  shows "no_violation r \<and> (r = Pending \<or> r = Ready (Ok (ReceivedFrame new)) \<longrightarrow> ends_ok pa pb a' b)"
proof -
  obtain dsa fsa dsb fsb ua ub where inv: "active_inv (pt_taken pa) (pt_written pa) a dsa fsa" "active_inv (pt_taken pb) (pt_written pb) b dsb fsb"
    and link: "linked (ac_streams a) (ac_streams b) ua ub" and car: "carries fsa dsb ua" "carries fsb dsa ub"
    and pres: "prefix (taken_by pb b) (written_by pa a)" and fl: "frame_limit (sm_config (ac_streams a)) = frame_limit (sm_config (ac_streams b))"
    by (rule ends_okE [OF ok])
  have i: "codec_in (pt_taken pa) (ac_codec a) dsa" "cd_frame_limit (ac_codec a) = frame_limit (sm_config (ac_streams b))"
    "codec_out (pt_written pb) (ac_codec b) fsb" "frames_ok (sm_config (ac_streams b)) fsb" using inv fl by (simp_all add: active_inv_def)
  obtain r1 c where poll: "codec_poll_next rt (pt_transport pa) now (ac_codec a) = (r1, c)" by fastforce
  note p = codec_in_read [OF port i(1) lim poll] and ro = poll_receive_ok [OF port lim inv(1) op]
  have limit: "cd_frame_limit c = frame_limit (sm_config (ac_streams b))" using p(1) i(2) by (simp add: writer_same_def)
  have ac: "ac_codec a' = c" using op poll by (rule poll_receive_codec)
  have pre': "prefix (pt_taken pa (cd_io c)) (pt_written pb (cd_io (ac_codec b)))" using pre ac by simp
  have I: "ends_ok pa pb a' b" if "active_inv (pt_taken pa) (pt_written pa) a' dsa' fsa" "linked (ac_streams a') (ac_streams b) ua ub'"
    "carries fsb dsa' ub'" for dsa' ub'
    unfolding ends_ok_def using that inv(2) car(1) pre pres p(2) ro(6) fl ac by metis
  consider (frame) d where "r1 = Ready (Some (Ok d))" | "r1 = Pending" | "r1 = Ready None" | e where "r1 = Ready (Some (Err e))"
    using p(3) by (metis option.exhaust poll.exhaust rres.exhaust)
  then show ?thesis
  proof cases
    case (frame d)
    obtain f mu ub' where f: "d = Frame f" "h_stream (if_header f) = map_option update_header mu"
      "if_data f = (case mu of None \<Rightarrow> [] | Some u \<Rightarrow> su_data u)" and ub: "ub = (case mu of None \<Rightarrow> ub' | Some u \<Rightarrow> u # ub')"
      and car': "\<forall>d. carries fsb (dsa @ [d]) ub'"
      by (rule frame_arrives [OF p(5) [OF frame, THEN conjunct1] i(3,4) limit pre' car(2)])
    obtain r2 a2 ws2 where rf: "receive_frame fexp now f (a\<lparr>ac_codec := c\<rparr>) = (r2, a2, ws2)" by (metis prod_cases3)
    have r: "r = Ready r2" "a' = a2" using op poll frame f(1) rf by (simp_all add: poll_receive_def)
    have "linked (ac_streams (a\<lparr>ac_codec := c\<rparr>)) (ac_streams b) ua (case mu of None \<Rightarrow> ub' | Some u \<Rightarrow> u # ub')" using link ub by simp
    from receive_frame_linked [OF this f(2,3) rf]
    have lk: "\<exists>new. r = Ready (Ok (ReceivedFrame new))" "linked (ac_streams a') (ac_streams b) ua ub'" using r by auto
    then obtain f' where "active_inv (pt_taken pa) (pt_written pa) a' (dsa @ [Frame f']) fsa" using ro(3) by blast
    then show ?thesis using I [OF _ lk(2)] car' lk(1) by (auto simp: no_violation_def)
  next
    case 2
    then have "r = Pending" "ac_streams a' = ac_streams a" using op poll by (auto simp: poll_receive_def)
    then show ?thesis using I [OF ro(2) _ car(2)] link by (simp add: no_violation_def)
  next
    case 3
    then show ?thesis using op poll by (auto simp: poll_receive_def no_violation_def)
  next
    case (4 e)
    then have "r = Ready (Err e)" using op poll by (auto simp: poll_receive_def)
    then show ?thesis using poll_next_sound [OF port i(1) lim poll i(3,4,2) pre'] 4 p(6) [OF 4] by (auto simp: no_violation_def)
  qed
qed

subsection \<open>Sending\<close>

lemma ends_send:
  assumes ok: "ends_ok pa pb a b" and port: "port_ok pa" and lim: "now + never \<le> rt_limit rt"
    and op: "poll_send rt (pt_transport pa) fexp now orders a = Some (r, a', ws)"
  shows "ends_ok pa pb a' b" "prefix (written_by pa a) (written_by pa a')" "r = Pending \<or> (\<exists>e. r = Ready (Err (Io e)))"
proof -
  obtain dsa fsa dsb fsb ua ub where inv: "active_inv (pt_taken pa) (pt_written pa) a dsa fsa" "active_inv (pt_taken pb) (pt_written pb) b dsb fsb"
    and link: "linked (ac_streams a) (ac_streams b) ua ub" and car: "carries fsa dsb ua" "carries fsb dsa ub"
    and pres: "prefix (taken_by pa a) (written_by pb b)" "prefix (taken_by pb b) (written_by pa a)"
    and fl: "frame_limit (sm_config (ac_streams a)) = frame_limit (sm_config (ac_streams b))"
    by (rule ends_okE [OF ok])
  define Q where "Q sm fs \<longleftrightarrow> (\<exists>us. linked sm (ac_streams b) us ub \<and> carries fs dsb us)" for sm fs
  have round: "(r = Pending \<longrightarrow> Q sm' fs) \<and> Q sm' (fs @ [compose pong ping (case r of Ready (Ok u) \<Rightarrow> Some u | _ \<Rightarrow> None)])"
    if "streams_inv sm" and q: "Q sm fs" and upd: "poll_update fexp order sm now = (r, sm', ws)" for order sm r sm' ws fs pong ping
  proof -
    obtain us where us: "linked sm (ac_streams b) us ub" "carries fs dsb us" using q unfolding Q_def by blast
    let ?mu = "case r of Ready (Ok u) \<Rightarrow> Some u | _ \<Rightarrow> None"
    have "(case r of Ready (Ok u) \<Rightarrow> [u] | _ \<Rightarrow> []) = (case ?mu of None \<Rightarrow> [] | Some u \<Rightarrow> [u])" by (simp split: poll.split rres.split)
    then have lk: "linked sm' (ac_streams b) (us @ (case ?mu of None \<Rightarrow> [] | Some u \<Rightarrow> [u])) ub"
      using linked_step [OF streams_side.sends [OF upd] us(1)] by simp
    then show ?thesis using carries_send [OF us(2), of pong ping ?mu] us(2) unfolding Q_def by auto
  qed
  have "Q (ac_streams a) fsa" using link car(1) unfolding Q_def by blast
  note keeps = poll_send_keeps [where Q = Q, OF port lim _ inv(1) this op]
  have "\<exists>fs'. active_inv (pt_taken pa) (pt_written pa) a' dsa (fsa @ fs') \<and> Q (ac_streams a') (fsa @ fs')"
    by (rule keeps [THEN conjunct1]) (rule round)
  then obtain fs' where fs': "active_inv (pt_taken pa) (pt_written pa) a' dsa (fsa @ fs')" "Q (ac_streams a') (fsa @ fs')" by blast
  have "(r = Pending \<or> (\<exists>e. r = Ready (Err (Io e)))) \<and> sm_config (ac_streams a') = sm_config (ac_streams a)
    \<and> sm_role (ac_streams a') = sm_role (ac_streams a) \<and> taken_by pa a' = taken_by pa a \<and> prefix (written_by pa a) (written_by pa a')"
    by (rule keeps [THEN conjunct2]) (rule round)
  then have a': "sm_config (ac_streams a') = sm_config (ac_streams a)" "taken_by pa a' = taken_by pa a"
    and grow: "prefix (written_by pa a) (written_by pa a')" and r: "r = Pending \<or> (\<exists>e. r = Ready (Err (Io e)))" by blast+
  show "prefix (written_by pa a) (written_by pa a')" "r = Pending \<or> (\<exists>e. r = Ready (Err (Io e)))" by (fact grow, fact r)
  have "prefix (taken_by pb b) (written_by pa a')" using pres(2) grow prefix_order.trans by blast
  moreover obtain us where "linked (ac_streams a') (ac_streams b) us ub" "carries (fsa @ fs') dsb us" using fs'(2) unfolding Q_def by blast
  ultimately show "ends_ok pa pb a' b" unfolding ends_ok_def using fs'(1) inv(2) car(2) pres(1) fl a'(1,2)
    by (intro exI [of _ dsa] exI [of _ "fsa @ fs'"] exI [of _ dsb] exI [of _ fsb] exI [of _ us] exI [of _ ub]) simp
qed

subsection \<open>Histories\<close>

lemma ends_swap: "ends_ok pa pb a b \<Longrightarrow> ends_ok pb pa b a"
  unfolding ends_ok_def using linked_swap by metis

text \<open>A change of the streams alone.\<close>

lemma ends_streams:
  assumes ok: "ends_ok pa pb a b" and sm: "\<And>tx rx. streams_side (ac_streams a) tx rx sm tx rx" and c: "sm_config sm = sm_config (ac_streams a)"
  shows "ends_ok pa pb (a\<lparr>ac_streams := sm\<rparr>) b"
proof -
  obtain dsa fsa dsb fsb ua ub where inv: "active_inv (pt_taken pa) (pt_written pa) a dsa fsa" "active_inv (pt_taken pb) (pt_written pb) b dsb fsb"
    and link: "linked (ac_streams a) (ac_streams b) ua ub" and rest: "carries fsa dsb ua" "carries fsb dsa ub"
      "prefix (taken_by pa a) (written_by pb b)" "prefix (taken_by pb b) (written_by pa a)"
      "frame_limit (sm_config (ac_streams a)) = frame_limit (sm_config (ac_streams b))"
    by (rule ends_okE [OF ok])
  have lk: "linked sm (ac_streams b) ua ub" by (rule linked_step [OF sm link])
  then have "active_inv (pt_taken pa) (pt_written pa) (a\<lparr>ac_streams := sm\<rparr>) dsa fsa"
    using inv(1) linked_streams_inv [OF lk] c by (simp add: active_inv_def)
  then show ?thesis unfolding ends_ok_def using inv(2) lk rest c
    by (intro exI [of _ dsa] exI [of _ fsa] exI [of _ dsb] exI [of _ fsb] exI [of _ ua] exI [of _ ub]) simp
qed

text \<open>A change of the transport on its own, when bytes arrive or room for writing becomes free.\<close>

lemma ends_moves:
  assumes ok: "ends_ok pa pb a b" and io: "pt_taken pa io = taken_by pa a" "pt_written pa io = written_by pa a"
  shows "ends_ok pa pb (a\<lparr>ac_codec := (ac_codec a)\<lparr>cd_io := io\<rparr>\<rparr>) b"
proof -
  obtain dsa fsa dsb fsb ua ub where inv: "active_inv (pt_taken pa) (pt_written pa) a dsa fsa" "active_inv (pt_taken pb) (pt_written pb) b dsb fsb"
    "linked (ac_streams a) (ac_streams b) ua ub" "carries fsa dsb ua" "carries fsb dsa ub"
      "prefix (taken_by pa a) (written_by pb b)" "prefix (taken_by pb b) (written_by pa a)"
      "frame_limit (sm_config (ac_streams a)) = frame_limit (sm_config (ac_streams b))"
    by (rule ends_okE [OF ok])
  have "active_inv (pt_taken pa) (pt_written pa) (a\<lparr>ac_codec := (ac_codec a)\<lparr>cd_io := io\<rparr>\<rparr>) dsa fsa"
    using inv(1) io by (auto simp: active_inv_def codec_in_def codec_out_def)
  then show ?thesis unfolding ends_ok_def using inv(2-) io
    by (intro exI [of _ dsa] exI [of _ fsa] exI [of _ dsb] exI [of _ fsb] exI [of _ ua] exI [of _ ub]) simp
qed

lemma active_new_inv:
  assumes "active_new rt now io role config store = (Ok a :: (_, 'e) rres)" "config_typed config" "taken io = []" "written io = []"
  shows "active_inv taken written a [] []" "ac_streams a = streams_new role config store" "cd_io (ac_codec a) = io"
proof -
  obtain c where c: "codec_new rt now io (frame_limit config) (inbound_frame_timeout config) = (Ok c :: (_, 'e) rres)"
    and a: "a = \<lparr>ac_codec = c, ac_streams = streams_new role config store, ac_pings = pings_new now (ping_interval config) (ping_bytes config)\<rparr>"
    using assms(1) by (auto simp: active_new_def)
  have c': "cd_io c = io" "cd_pending c = None" "cd_decoder c = decoder_default" "cd_frame_limit c = frame_limit config"
    using c by (auto simp: codec_new_def)
  show "ac_streams a = streams_new role config store" "cd_io (ac_codec a) = io" using a c' by simp_all
  show "active_inv taken written a [] []"
    using a c' assms(3,4) streams_new_inv [OF assms(2)] dec_rep_default
    by (simp add: active_inv_def codec_in_def codec_out_def frames_ok_def owed_def) (simp add: streams_new_def)
qed

subsection \<open>Two connections\<close>

text \<open>A batch of inbound frames only reads.\<close>

lemma poll_receive_reads:
  assumes "poll_receive rt tr fexp now a = (r, a', ws)"
  shows "(rd_step (t_read tr))\<^sup>*\<^sup>* (cd_io (ac_codec a)) (cd_io (ac_codec a'))"
proof -
  obtain r1 c where poll: "codec_poll_next rt tr now (ac_codec a) = (r1, c)" by fastforce
  obtain r2 st io where nf: "poll_next_frame (t_read tr) (cd_frame_limit (ac_codec a)) now (cd_decoder (ac_codec a)) (cd_io (ac_codec a)) = (r2, st, io)"
    by (metis prod_cases3)
  have "cd_io c = io" using poll nf
    by (auto simp: codec_poll_next_def Let_def split: poll.splits option.splits rres.splits if_splits)
  then show ?thesis using poll_receive_codec [OF assms poll] poll_steps [OF nf] by simp
qed

lemma receive_batch_reads:
  "receive_batch rt tr fexp now n progress a = (r, a', ws) \<Longrightarrow> (rd_step (t_read tr))\<^sup>*\<^sup>* (cd_io (ac_codec a)) (cd_io (ac_codec a'))"
proof (induction n arbitrary: progress a ws)
  case (Suc n)
  obtain q a1 ws1 where poll: "poll_receive rt tr fexp now a = (q, a1, ws1)" by (metis prod_cases3)
  have "a' = a1 \<or> (\<exists>ws'. receive_batch rt tr fexp now n (Ready None) a1 = (r, a', ws'))"
    using Suc.prems poll by (auto split: poll.splits rres.splits received.splits option.splits prod.splits)
  then show ?case using poll_receive_reads [OF poll] Suc.IH by (auto intro: rtranclp_trans)
qed simp

lemma receive_batch_ends:
  assumes port: "port_ok pa" and lim: "now + never \<le> rt_limit rt"
  shows "receive_batch rt (pt_transport pa) fexp now n progress a = (r, a', ws) \<Longrightarrow> ends_ok pa pb a b \<Longrightarrow> prefix (taken_by pa a') (written_by pb b)
    \<Longrightarrow> (\<exists>p. r = Ok (BatchDone p)) \<and> ends_ok pa pb a' b \<or> (\<exists>e. r = Err (Io e))"
proof (induction n arbitrary: progress a ws)
  case (Suc n)
  obtain q a1 ws1 where poll: "poll_receive rt (pt_transport pa) fexp now a = (q, a1, ws1)" by (metis prod_cases3)
  have src: "byte_source (t_read (pt_transport pa)) (pt_taken pa)" using port by (simp add: transport_ok_def byte_transport_def)
  have rest: "a' = a1 \<or> (\<exists>ws'. receive_batch rt (pt_transport pa) fexp now n (Ready None) a1 = (r, a', ws'))"
    using Suc.prems(1) poll by (auto split: poll.splits rres.splits received.splits option.splits prod.splits)
  then have "prefix (taken_by pa a1) (taken_by pa a')" using byte_source.steps_taken [OF src receive_batch_reads] by auto
  then have "prefix (taken_by pa a1) (written_by pb b)" using Suc.prems(3) prefix_order.trans by blast
  note er = ends_receive [OF Suc.prems(2) port lim poll this]
  consider (pending) "q = Pending" | (frame) new where "q = Ready (Ok (ReceivedFrame new))" | (err) e where "q = Ready (Err (Io e))"
    using er unfolding no_violation_def by blast
  then show ?case
  proof cases
    case (frame new)
    show ?thesis
    proof (cases new)
      case None
      then obtain ws' where "receive_batch rt (pt_transport pa) fexp now n (Ready None) a1 = (r, a', ws')"
        using Suc.prems(1) poll frame by (auto split: prod.splits)
      then show ?thesis using Suc.IH Suc.prems(3) er frame by blast
    qed (use Suc.prems(1) poll frame er in auto)
  qed (use Suc.prems(1) poll er in auto)
qed auto

text \<open>Polling one of the two connections.\<close>

lemma progress_ends:
  assumes port: "port_ok pa" and src: "arrivals_ok pa" and lim: "now + never \<le> rt_limit rt" and st: "cn_state conn = ConnActive a"
    and ok: "ends_ok pa pb a b" and pre: "prefix (taken_by pa a @ ahead_of pa a) (written_by pb b)"
    and op: "poll_progress_conn rt (pt_transport pa) fexp now orders conn = Some (r, conn', ws)"
  shows "(\<exists>a'. conn' = conn\<lparr>cn_state := ConnActive a'\<rparr> \<and> ends_ok pa pb a' b \<and> prefix (written_by pa a) (written_by pa a')
       \<and> (r = Pending \<or> r = Ready (Ok ProgressEmpty) \<or> (\<exists>dx. r = Ready (Ok (ProgressInbound dx)))))
    \<or> (\<exists>store e. conn' = conn\<lparr>cn_state := ConnPoisoned store\<rparr> \<and> r = Ready (Err (RammuxError (Io e))))"
proof -
  obtain q a1 ws1 where batch: "receive_batch rt (pt_transport pa) fexp now INBOUND_BATCH Pending a = (q, a1, ws1)" by (metis prod_cases3)
  note reads = receive_batch_reads [OF batch]
  have "prefix (taken_by pa a1) (written_by pb b)" using buffered_source.steps_from_ahead [OF src reads] pre prefix_order.trans by blast
  note be = receive_batch_ends [OF port lim batch ok this]
  have w: "written_by pa a1 = written_by pa a"
    using byte_transport.reads_keep_written [OF port [unfolded transport_ok_def] reads] .
  have fail: ?thesis if inner: "poll_progress_inner rt (pt_transport pa) fexp now orders conn = Some (Ready (Err (Io e)), conn\<lparr>cn_state := ConnActive a2\<rparr>, ws2)" for e a2 ws2
    using op inner by (auto simp: poll_progress_conn_def split: prod.splits)
  consider (err) e where "q = Err (Io e)" | (fin) progress where "q = Ok (BatchDone progress)" "ends_ok pa pb a1 b" using be by blast
  then show ?thesis
  proof cases
    case (err e)
    then show ?thesis using batch st by (intro fail [of e a1 ws1]) (simp add: poll_progress_inner_def)
  next
    case (fin progress)
    obtain q2 a2 ws2 where send: "poll_send rt (pt_transport pa) fexp now orders a1 = Some (q2, a2, ws2)"
      using op batch st fin(1) by (auto simp: poll_progress_conn_def poll_progress_inner_def split: option.splits)
    note es = ends_send [OF fin(2) port lim send]
    show ?thesis using es(3)
    proof
      assume "q2 = Pending"
      then have inner: "poll_progress_inner rt (pt_transport pa) fexp now orders conn = Some (progress_of progress, conn\<lparr>cn_state := ConnActive a2\<rparr>, ws1 @ ws2)"
        using batch st send fin(1) by (simp add: poll_progress_inner_def)
      have "conn' = conn\<lparr>cn_state := ConnActive a2\<rparr> \<and> (r = Pending \<or> r = Ready (Ok ProgressEmpty) \<or> (\<exists>dx. r = Ready (Ok (ProgressInbound dx))))"
        using op inner by (cases progress rule: progress_of.cases) (auto simp: poll_progress_conn_def)
      then show ?thesis using es(1,2) w by auto
    next
      assume "\<exists>e. q2 = Ready (Err (Io e))"
      then obtain e where e: "q2 = Ready (Err (Io e))" ..
      obtain a3 ws3 where drop: "progress_drop progress a2 = (a3, ws3)" by fastforce
      show ?thesis using batch st send fin(1) e drop by (intro fail [of e a3 "ws1 @ ws2 @ ws3"]) (simp add: poll_progress_inner_def)
    qed
  qed
qed

lemma from_peer_active:
  "cn_state a = ConnActive x \<Longrightarrow> cn_state b = ConnActive y \<Longrightarrow> from_peer pa pb a b \<longleftrightarrow> prefix (taken_by pa x @ ahead_of pa x) (written_by pb y)"
  by (simp add: from_peer_def)

lemma from_peer_inactive: "(\<forall>x. cn_state a \<noteq> ConnActive x) \<or> (\<forall>y. cn_state b \<noteq> ConnActive y) \<Longrightarrow> from_peer pa pb a b"
  by (auto simp: from_peer_def split: conn_state.split)

lemma both_inactive: "(\<forall>x. cn_state a \<noteq> ConnActive x) \<or> (\<forall>y. cn_state b \<noteq> ConnActive y) \<Longrightarrow> both_ok pa pb a b"
  using from_peer_inactive [of a b pa pb] from_peer_inactive [of b a pb pa] by (auto simp: both_ok_def)

lemma conn_step_inactive:
  assumes "conn_step rt tr taken written a a'" "\<forall>x. cn_state a \<noteq> ConnActive x"
  shows "\<forall>x. cn_state a' \<noteq> ConnActive x"
  using assms(1)
proof cases
  case (polls now fexp orders r ws)
  then show ?thesis using assms(2) by (cases "cn_state a") (auto simp: poll_progress_conn_def poll_progress_inner_def)
next
  case (opens key now r)
  then show ?thesis using assms(2) by (cases "cn_state a") (auto simp: try_start_outbound_def)
qed (use assms(2) in auto)

text \<open>A step of an active connection, next to another one that is active.\<close>

lemma ends_step:
  assumes step: "conn_step rt (pt_transport pa) (pt_taken pa) (pt_written pa) conn conn'" and port: "port_ok pa" and src: "arrivals_ok pa"
    and st: "cn_state conn = ConnActive a" "cn_state conn' = ConnActive a'"
    and ok: "ends_ok pa pb a b" and pre: "prefix (taken_by pa a @ ahead_of pa a) (written_by pb b)"
  shows "ends_ok pa pb a' b \<and> prefix (written_by pa a) (written_by pa a')"
  using step
proof cases
  case (polls now fexp orders r ws)
  from progress_ends [OF port src polls(1) st(1) ok pre polls(2)] st(2) show ?thesis by auto
next
  case (opens key now r)
  obtain r' sm where op: "open_outbound key (ac_streams a) now = (r', sm)" by fastforce
  have "sm_config sm = sm_config (ac_streams a)"
    using op by (auto simp: open_outbound_def start_stream_def Let_def split: if_splits option.splits)
  then have "ends_ok pa pb (a\<lparr>ac_streams := sm\<rparr>) b" using ends_streams [OF ok] streams_side.opens [OF opens(1) [OF st(1)] op] by blast
  then show ?thesis using opens(2) op st by (auto simp: try_start_outbound_def active_open_outbound_def)
next
  case (uses x s st')
  then have "x = a" using st(1) by simp
  then show ?thesis using ends_streams [OF ok streams_side.app] uses(1,3,4) st(2) by auto
next
  case (moves x io)
  then show ?thesis using ends_moves [OF ok] st by auto
qed

lemma both_step:
  assumes step: "conn_step rt (pt_transport pa) (pt_taken pa) (pt_written pa) a a'" and port: "port_ok pa" "arrivals_ok pa"
    and ok: "both_ok pa pb a b" and net: "from_peer pa pb a' b"
  shows "both_ok pa pb a' b"
proof (cases "\<exists>x x' y. cn_state a = ConnActive x \<and> cn_state a' = ConnActive x' \<and> cn_state b = ConnActive y")
  case False
  then have "(\<forall>x. cn_state a' \<noteq> ConnActive x) \<or> (\<forall>y. cn_state b \<noteq> ConnActive y)" using conn_step_inactive [OF step] by blast
  then show ?thesis by (rule both_inactive)
next
  case True
  then obtain x x' y where st: "cn_state a = ConnActive x" "cn_state a' = ConnActive x'" "cn_state b = ConnActive y" by blast
  have i: "ends_ok pa pb x y" "prefix (taken_by pa x @ ahead_of pa x) (written_by pb y)" "prefix (taken_by pb y @ ahead_of pb y) (written_by pa x)"
    using ok st by (simp_all add: both_ok_def from_peer_active)
  note es = ends_step [OF step port st(1,2) i(1,2)]
  then have "prefix (taken_by pb y @ ahead_of pb y) (written_by pa x')" using i(3) prefix_order.trans by blast
  then show ?thesis using es net st by (simp add: both_ok_def from_peer_active)
qed

lemma both_swap: "both_ok pa pb a b \<Longrightarrow> both_ok pb pa b a"
  unfolding both_ok_def using ends_swap by blast

lemma connected_swap: "connected_peers rta rtb pa pb ca cb a b \<Longrightarrow> connected_peers rtb rta pb pa cb ca b a"
proof (induction rule: connected_peers.induct)
  case (start role role' ta ioa store1 a tb iob store2 b)
  show ?case by (rule connected_peers.start [OF start(1) [symmetric] start(3,2,5,4)])
qed (auto intro: connected_peers.first connected_peers.second)

lemma connection_new_active:
  assumes "connection_new rt now role io config store = Ok conn"
  obtains a where "cn_state conn = ConnActive a" "active_new rt now io role config store = (Ok a :: (_, config_error) rres)"
  using assms by (auto simp: connection_new_def)

lemma connected_ok:
  assumes "connected_peers rta rtb pa pb ca cb a b" and port: "port_ok pa" "arrivals_ok pa" "port_ok pb" "arrivals_ok pb"
    and cfg: "config_typed ca" "config_typed cb" "config_compatible ca cb"
  shows "both_ok pa pb a b"
  using assms(1)
proof induction
  case (start role role' ta ioa store1 a tb iob store2 b)
  have io: "pt_taken pa ioa = []" "pt_written pa ioa = []" "pt_taken pb iob = []" "pt_written pb iob = []" "pt_ahead pa ioa = []" "pt_ahead pb iob = []"
    using start(4,5) by (simp_all add: unused_def)
  from connection_new_active [OF start(2)] obtain x where x: "cn_state a = ConnActive x"
    and "active_new rta ta ioa role ca store1 = (Ok x :: (_, config_error) rres)" .
  note x' = active_new_inv [where taken = "pt_taken pa" and written = "pt_written pa", OF this(2) cfg(1) io(1,2)]
  from connection_new_active [OF start(3)] obtain y where y: "cn_state b = ConnActive y"
    and "active_new rtb tb iob role' cb store2 = (Ok y :: (_, config_error) rres)" .
  note y' = active_new_inv [where taken = "pt_taken pb" and written = "pt_written pb", OF this(2) cfg(2) io(3,4)]
  have "linked (ac_streams x) (ac_streams y) [] []" unfolding x'(2) y'(2) by (rule linked_new [OF start(1) cfg])
  moreover have "frame_limit (sm_config (ac_streams x)) = frame_limit (sm_config (ac_streams y))"
    using cfg(3) unfolding x'(2) y'(2) by (simp add: streams_new_def config_compatible_def)
  ultimately have "ends_ok pa pb x y" unfolding ends_ok_def using x'(1) y'(1) io x'(3) y'(3)
    by (intro exI [of _ "[]"]) (simp add: carries_def List.map_filter_simps)
  then show ?case using x y x'(3) y'(3) io by (simp add: both_ok_def from_peer_active)
next
  case (first a b a')
  then show ?case using both_step [OF _ port(1,2)] by blast
next
  case (second a b b')
  then show ?case using both_step [OF _ port(3,4) both_swap] both_swap by blast
qed

subsection \<open>Delivery\<close>

text \<open>A frame of the other end that has arrived is decoded by one poll.\<close>

lemma arrived_frame:
  assumes src: "ready_source (t_read tr) taken ahead" and lim: "now + never \<le> rt_limit rt"
    and inn: "codec_in taken c ds" and out: "codec_out written c' fs" "frames_ok config fs" and limit: "cd_frame_limit c = frame_limit config"
    and all: "taken (cd_io c) @ ahead (cd_io c) = written (cd_io c')" "cd_pending c' = None" "ahead (cd_io c) \<noteq> []"
    and op: "codec_poll_next rt tr now c = (r, c1)"
  shows "\<exists>d. r = Ready (Some (Ok d))" "length (ahead (cd_io c1)) < length (ahead (cd_io c))"
    "taken (cd_io c1) @ ahead (cd_io c1) = written (cd_io c')"
proof -
  from frames_written [OF out limit] obtain es where es: "\<forall>e \<in> set es. df_valid (cd_frame_limit c) e"
    "cd_pending c' = None \<longrightarrow> written (cd_io c') = concat (map df_bytes es)" .
  obtain used where used: "taken (cd_io c) = concat (map df_bytes ds) @ used" "dec_rep (cd_frame_limit c) (cd_decoder c) used"
    and v: "\<forall>d \<in> set ds. df_valid (cd_frame_limit c) d" using inn unfolding codec_in_def by blast
  have eq: "concat (map df_bytes ds) @ used @ ahead (cd_io c) = concat (map df_bytes es)" using all(1,2) es(2) used(1) by simp
  then have "concat (map df_bytes ds) = concat (map df_bytes (take (length ds) es))"
    using frames_prefix [OF v es(1), of "used @ ahead (cd_io c)"] by simp
  moreover have "concat (map df_bytes es) = concat (map df_bytes (take (length ds) es)) @ concat (map df_bytes (drop (length ds) es))"
    by (metis append_take_drop_id concat_append map_append)
  ultimately have rest: "used @ ahead (cd_io c) = concat (map df_bytes (drop (length ds) es))" using eq by simp
  then obtain d ms where ms: "drop (length ds) es = d # ms" using all(3) by (cases "drop (length ds) es") auto
  then have d: "df_valid (cd_frame_limit c) d" using es(1) in_set_dropD [of d "length ds" es] by simp
  have split: "used @ ahead (cd_io c) = df_bytes d @ concat (map df_bytes ms)" using rest ms by simp
  obtain r1 st io where nf: "poll_next_frame (t_read tr) (cd_frame_limit c) now (cd_decoder c) (cd_io c) = (r1, st, io)" by (metis prod_cases3)
  from ready_source.ready_next [OF src used split d nf] obtain d' where
    d': "r1 = Ready (Some (Ok d'))" "taken io = concat (map df_bytes ds) @ df_bytes d" "ahead io = concat (map df_bytes ms)" by blast
  then have r: "r = Ready (Some (Ok d'))" "cd_io c1 = io" using op nf lim by (auto simp: codec_poll_next_def deadline_eq Let_def)
  then show "\<exists>d. r = Ready (Some (Ok d))" by blast
  show "taken (cd_io c1) @ ahead (cd_io c1) = written (cd_io c')" using r(2) d'(2,3) split used(1) all(1) by simp
  have "\<not> length (df_bytes d) \<le> length used"
    using dec_rep_incomplete [OF used(2) d] split by (metis append_eq_append_conv_if prefix_def append_take_drop_id)
  then show "length (ahead (cd_io c1)) < length (ahead (cd_io c))"
    using arg_cong [OF split, of length] r(2) d'(3) by simp
qed

lemma ends_deliver:
  assumes ok: "ends_ok pa pb a b" and port: "port_ok pb" and lim: "now + never \<le> rt_limit rt"
    and src: "ready_source (t_read (pt_transport pb)) (pt_taken pb) ahead"
    and all: "taken_by pb b @ ahead (cd_io (ac_codec b)) = written_by pa a" "cd_pending (ac_codec a) = None" "ahead (cd_io (ac_codec b)) \<noteq> []"
    and op: "poll_receive rt (pt_transport pb) fexp now b = (r, b', ws)"
  shows "(\<exists>new. r = Ready (Ok (ReceivedFrame new))) \<and> ends_ok pa pb a b' \<and> taken_by pb b' @ ahead (cd_io (ac_codec b')) = written_by pa a
    \<and> length (ahead (cd_io (ac_codec b'))) < length (ahead (cd_io (ac_codec b)))"
proof -
  obtain dsa fsa dsb fsb where inv: "active_inv (pt_taken pa) (pt_written pa) a dsa fsa" "active_inv (pt_taken pb) (pt_written pb) b dsb fsb"
    and fl: "frame_limit (sm_config (ac_streams a)) = frame_limit (sm_config (ac_streams b))"
    by (rule ends_okE [OF ok])
  have i: "codec_in (pt_taken pb) (ac_codec b) dsb" "codec_out (pt_written pa) (ac_codec a) fsa" "frames_ok (sm_config (ac_streams a)) fsa"
    "cd_frame_limit (ac_codec b) = frame_limit (sm_config (ac_streams a))" "streams_inv (ac_streams b)"
    using inv fl by (simp_all add: active_inv_def)
  obtain r1 c where poll: "codec_poll_next rt (pt_transport pb) now (ac_codec b) = (r1, c)" by fastforce
  have c: "ac_codec b' = c" using op poll by (rule poll_receive_codec)
  note af = arrived_frame [OF src lim i(1-4) all poll]
  obtain d where d: "r1 = Ready (Some (Ok d))" using af(1) by blast
  have pre: "prefix (taken_by pb b') (written_by pa a)" using af(3) c by (metis prefixI)
  note er = ends_receive [OF ends_swap [OF ok] port lim op pre]
  have "\<not> (\<exists>e. r = Ready (Err (Io e))) \<and> r \<noteq> Pending"
  proof (cases d)
    case (Frame f)
    obtain r2 a2 ws2 where rf: "receive_frame fexp now f (b\<lparr>ac_codec := c\<rparr>) = (r2, a2, ws2)" by (metis prod_cases3)
    have "length (if_data f) \<le> u32_max" using codec_in_read(5) [OF port i(1) lim poll d] Frame df_valid_data by blast
    from receive_frame_ok(4) [OF _ this rf] have "r2 \<noteq> Err (Io e)" for e using i(5) by auto
    then show ?thesis using op poll d Frame rf by (auto simp: poll_receive_def)
  qed (use op poll d in \<open>auto simp: poll_receive_def\<close>)
  then have "\<exists>new. r = Ready (Ok (ReceivedFrame new))" using er by (auto simp: no_violation_def)
  then show ?thesis using er af(2,3) c ends_swap by blast
qed

text \<open>Polling until as many frames were processed.\<close>

fun receive_frames :: "runtime \<Rightarrow> 'io transport \<Rightarrow> (f64 \<Rightarrow> f64) \<Rightarrow> instant \<Rightarrow> nat \<Rightarrow> 'io active \<Rightarrow> 'io active option" where
  "receive_frames rt tr fexp now 0 a = Some a"
| "receive_frames rt tr fexp now (Suc n) a =
     (case poll_receive rt tr fexp now a of
        (Ready (Ok (ReceivedFrame _)), a', _) \<Rightarrow> receive_frames rt tr fexp now n a'
      | _ \<Rightarrow> None)"

lemma ends_deliver_all:
  assumes port: "port_ok pb" and lim: "now + never \<le> rt_limit rt"
    and src: "ready_source (t_read (pt_transport pb)) (pt_taken pb) ahead"
    and "ends_ok pa pb a b" "taken_by pb b @ ahead (cd_io (ac_codec b)) = written_by pa a" "cd_pending (ac_codec a) = None"
  shows "\<exists>n b'. n \<le> length (ahead (cd_io (ac_codec b))) \<and> receive_frames rt (pt_transport pb) fexp now n b = Some b'
    \<and> taken_by pb b' = written_by pa a \<and> ahead (cd_io (ac_codec b')) = []"
  using assms(4-6)
proof (induction "length (ahead (cd_io (ac_codec b)))" arbitrary: b rule: less_induct)
  case less
  show ?case
  proof (cases "ahead (cd_io (ac_codec b)) = []")
    case True
    then show ?thesis using less.prems(2) by (intro exI [of _ 0] exI [of _ b]) simp
  next
    case False
    obtain r b1 ws where op: "poll_receive rt (pt_transport pb) fexp now b = (r, b1, ws)" by (metis prod_cases3)
    note d = ends_deliver [OF less.prems(1) port lim src less.prems(2,3) False op]
    have lt: "length (ahead (cd_io (ac_codec b1))) < length (ahead (cd_io (ac_codec b)))" using d by blast
    obtain n b' where n: "n \<le> length (ahead (cd_io (ac_codec b1)))" "receive_frames rt (pt_transport pb) fexp now n b1 = Some b'"
      "taken_by pb b' = written_by pa a" "ahead (cd_io (ac_codec b')) = []"
      using less.hyps [OF lt] d less.prems(3) by blast
    have "receive_frames rt (pt_transport pb) fexp now (Suc n) b = Some b'" using op d n(2) by auto
    then show ?thesis using n lt by (intro exI [of _ "Suc n"] exI [of _ b']) simp
  qed
qed

section \<open>Properties\<close>

text \<open>
  C1. As long as both are active, two connections with compatible configurations, at the ends of a transport that delivers bytes in order, never
  find a violation of the protocol by the other, whatever the transport splits or delays and however polls, new
  streams and the two applications interleave. Either role may be at either end. Polling one of them goes on, possibly with a new
  stream, or ends with an error of the transport or a timeout: what the encoder of one end writes the decoder of the other end accepts,
  within the frame limit, and every stream part in it is taken by its stream, within all windows,
  pools and limits.
\<close>

theorem connections_agree:
  assumes "connected_peers rta rtb pa pb ca cb a b" "port_ok pa" "arrivals_ok pa" "port_ok pb" "arrivals_ok pb"
    and "config_typed ca" "config_typed cb" "config_compatible ca cb" "cn_state a = ConnActive x" "cn_state b = ConnActive y"
    and "now + never \<le> rt_limit rta" "poll_progress_conn rta (pt_transport pa) fexp now orders a = Some (r, a', ws)"
  shows "(\<exists>x'. a' = a\<lparr>cn_state := ConnActive x'\<rparr>
       \<and> (r = Pending \<or> r = Ready (Ok ProgressEmpty) \<or> (\<exists>dx. r = Ready (Ok (ProgressInbound dx)))))
    \<or> (\<exists>store e. a' = a\<lparr>cn_state := ConnPoisoned store\<rparr> \<and> r = Ready (Err (RammuxError (Io e))))"
proof -
  have "ends_ok pa pb x y" "prefix (taken_by pa x @ ahead_of pa x) (written_by pb y)"
    using connected_ok [OF assms(1-8)] assms(9,10) by (simp_all add: both_ok_def from_peer_active)
  from progress_ends [OF assms(2,3,11,9) this assms(12)] show ?thesis by blast
qed

text \<open>
  Two ends of a pair of pipes. The client opens a stream, writes two bytes to it and is polled, so that it writes
  frames until nothing is left; then their bytes arrive in the pipe of the server.
\<close>

lemma poll_send_flushes:
  assumes tr: "transport_ok tr taken written" and acc: "accepting tr written" and lim: "now + never \<le> rt_limit rt"
    and "active_inv taken written a ds fs" "poll_send rt tr fexp now orders a = Some (r, a', ws)"
  shows "r = Pending \<and> cd_pending (ac_codec a') = None"
  using assms(4,5)
proof (induction orders arbitrary: a fs ws)
  case (Cons order orders)
  have i: "streams_inv (ac_streams a)" "codec_in taken (ac_codec a) ds" "codec_out written (ac_codec a) fs"
    using Cons.prems(1) by (simp_all add: active_inv_def)
  obtain c where ready: "codec_poll_ready tr now (ac_codec a) = (Ready (Ok ()), c)"
    using codec_op_ready(1) [OF acc codec_ok_of [OF i(2,3)]] by (metis prod.collapse)
  obtain pong ping p where part: "take_frame_part (rt_fires rt) (rt_limit rt) (ac_pings a) now = (Ok (pong, ping, p) :: (_, error_kind) rres)"
    using take_frame_part_eq [OF lim, of "rt_fires rt" "ac_pings a"] by (auto simp: Let_def)
  note c = codec_round [OF tr i(2,3) disjI1 [OF ready]]
  obtain u sm ws1 where upd: "poll_update fexp order (ac_streams a) now = (u, sm, ws1)" by (metis prod_cases3)
  have idle: "cd_pending c = None" using c(6) by simp
  from lim i(1) ready part upd idle show ?case
  proof (cases rule: poll_send_round [where orders = orders])
    case (flushed q c')
    have "q = Ready (Ok ())" using codec_op_ready(2) [OF acc codec_ok_of [OF c(1,2)], of now] flushed(4) by simp
    moreover from this have "cd_pending c' = None" using codec_round(6) [OF tr c(1,2) disjI2 [OF disjI1 [OF flushed(4)]]] by simp
    ultimately show ?thesis using flushed(5) Cons.prems(2) by auto
  next
    case (framed f c')
    let ?a = "a\<lparr>ac_streams := sm, ac_pings := data_sent p (frame_data_len f), ac_codec := c'\<rparr>"
    obtain ws2 where rest: "poll_send rt tr fexp now orders ?a = Some (r, a', ws2)" using Cons.prems(2) framed(6) by (auto simp del: poll_send.simps)
    from Cons.IH [OF framed_inv(1) [OF tr Cons.prems(1) ready upd framed(1,3,4,5)] rest] show ?thesis .
  qed
qed simp

text \<open>When a \<^verbatim>\<open>PING\<close> is due, the loop writes something.\<close>

lemma poll_send_writes:
  assumes tr: "transport_ok tr taken written" and acc: "accepting tr written" and lim: "now + never \<le> rt_limit rt"
    and inv: "active_inv taken written a ds fs" and op: "poll_send rt tr fexp now (order # orders) a = Some (r, a', ws)"
    and part: "take_frame_part (rt_fires rt) (rt_limit rt) (ac_pings a) now = (Ok (pong, True, p) :: (_, error_kind) rres)"
  shows "written (cd_io (ac_codec a')) \<noteq> []"
proof -
  have i: "streams_inv (ac_streams a)" "codec_in taken (ac_codec a) ds" "codec_out written (ac_codec a) fs"
    using inv by (simp_all add: active_inv_def)
  obtain c where ready: "codec_poll_ready tr now (ac_codec a) = (Ready (Ok ()), c)"
    using codec_op_ready(1) [OF acc codec_ok_of [OF i(2,3)]] by (metis prod.collapse)
  have idle: "cd_pending c = None" using codec_round(6) [OF tr i(2,3) disjI1 [OF ready]] by simp
  obtain u sm ws1 where upd: "poll_update fexp order (ac_streams a) now = (u, sm, ws1)" by (metis prod_cases3)
  from lim i(1) ready part upd idle have "\<exists>f fs'. active_inv taken written a' ds (fs @ [f] @ fs')"
  proof (cases rule: poll_send_round [where orders = orders])
    case (framed f c')
    let ?a = "a\<lparr>ac_streams := sm, ac_pings := data_sent p (frame_data_len f), ac_codec := c'\<rparr>"
    obtain ws2 where rest: "poll_send rt tr fexp now orders ?a = Some (r, a', ws2)" using op framed(6) by (auto simp del: poll_send.simps)
    from poll_send_ok [OF tr lim framed_inv(1) [OF tr inv ready upd framed(1,3,4,5)] rest] show ?thesis by auto
  qed simp
  then obtain f fs' where a': "codec_out written (ac_codec a') (fs @ [f] @ fs')" "frames_ok (sm_config (ac_streams a')) (fs @ [f] @ fs')"
    by (auto simp: active_inv_def)
  from frames_written [OF a' refl] obtain es where es: "length es = length (fs @ [f] @ fs')"
    "cd_pending (ac_codec a') = None \<longrightarrow> written (cd_io (ac_codec a')) = concat (map df_bytes es)" .
  moreover have "cd_pending (ac_codec a') = None" using poll_send_flushes [OF tr acc lim inv op] by blast
  ultimately show ?thesis using df_bytes_pos by (cases es) auto
qed

definition demo_port :: "pipe_pair port" where
  "demo_port = \<lparr>pt_transport = pipe_transport, pt_taken = (\<lambda>d. pd_taken d), pt_ahead = (\<lambda>d. pd_ahead d), pt_written = (\<lambda>d. pd_written d)\<rparr>"

definition pipe_end :: "u8 list \<Rightarrow> pipe_pair" where
  "pipe_end bs = \<lparr>pd_in = \<lparr>pp_ahead = bs, pp_taken = [], pp_closed = False, pp_size = 3\<rparr>,
     pd_out = \<lparr>pp_ahead = [], pp_taken = [], pp_closed = False, pp_size = 3\<rparr>\<rparr>"

lemma demo_port_ok: "port_ok demo_port" "ready_source (t_read (pt_transport demo_port)) (pt_taken demo_port) (pt_ahead demo_port)" "arrivals_ok demo_port"
  using pipe_transport_ok pipes.ready_source_axioms pipes.buffered_source_axioms by (simp_all add: demo_port_def)

lemma demo_start:
  obtains conn a where "connection_new demo_rt 0 role (pipe_end []) config_new (\<lambda>_. stream_new config_new 0) = Ok conn" "cn_state conn = ConnActive a"
    "ac_streams a = streams_new role config_new (\<lambda>_. stream_new config_new 0)" "cd_io (ac_codec a) = pipe_end []"
    "ac_pings a = pings_new 0 (ping_interval config_new) (ping_bytes config_new)"
    "cd_decoder (ac_codec a) = decoder_default" "0 < cd_sleep_at (ac_codec a)"
proof -
  have v: "config_validate config_new = Ok ()"
    by (simp add: config_validate_def config_new_def from_secs_def from_micros_def max_streams_per_side_def)
  have lim: "0 + never \<le> rt_limit demo_rt" by (simp add: demo_rt_def)
  obtain c where c: "codec_new demo_rt 0 (pipe_end []) (frame_limit config_new) (inbound_frame_timeout config_new) = (Ok c :: (_, config_error) rres)"
    "cd_io c = pipe_end []" "cd_decoder c = decoder_default" "cd_sleep_at c = min (inbound_frame_timeout config_new) never"
    using lim by (simp add: codec_new_def deadline_eq)
  let ?a = "\<lparr>ac_codec = c, ac_streams = streams_new role config_new (\<lambda>_. stream_new config_new 0),
    ac_pings = pings_new 0 (ping_interval config_new) (ping_bytes config_new)\<rparr>"
  have "0 < cd_sleep_at c" unfolding c(4) by (simp add: config_new_def from_secs_def never_def)
  then show thesis using v c by (intro that [of "\<lparr>cn_state = ConnActive ?a, cn_role = role, cn_config = config_new\<rparr>" ?a])
      (simp_all add: connection_new_def active_new_def)
qed

lemma demo_waits:
  assumes "cd_decoder (ac_codec a) = decoder_default" "cd_io (ac_codec a) = pipe_end []" "0 < cd_sleep_at (ac_codec a)"
  shows "poll_receive demo_rt pipe_transport fexp 0 a = (Pending, a, [])"
proof -
  have "poll_next_frame (t_read pipe_transport) limit 0 decoder_default (pipe_end []) = (Pending, decoder_default, pipe_end [])" for limit
    unfolding decoder_default_def by (subst poll_next_frame.simps) (simp add: pipe_transport_def pipe_read_def pipe_end_def FLAGS_LEN_def)
  then show ?thesis using assms by (simp add: poll_receive_def codec_poll_next_def demo_rt_def)
qed

lemma demo_pings:
  "pings_ok (pings_new 0 (ping_interval config_new) (ping_bytes config_new))"
  "\<exists>pong p. take_frame_part (rt_fires demo_rt) (rt_limit demo_rt) (pings_new 0 (ping_interval config_new) (ping_bytes config_new)) 0
     = (Ok (pong, True, p) :: (_, error_kind) rres)"
proof -
  show "pings_ok (pings_new 0 (ping_interval config_new) (ping_bytes config_new))"
    by (simp add: pings_ok_def pings_new_def schedule_new_def config_new_def from_secs_def)
  have "0 + never \<le> rt_limit demo_rt" by (simp add: demo_rt_def)
  then show "\<exists>pong p. take_frame_part (rt_fires demo_rt) (rt_limit demo_rt) (pings_new 0 (ping_interval config_new) (ping_bytes config_new)) 0
     = (Ok (pong, True, p) :: (_, error_kind) rres)"
    by (simp add: take_frame_part_eq Let_def) (simp add: demo_rt_def pings_new_def schedule_new_def)
qed

lemma connected_reachable:
  assumes "connected_peers rta rtb pa pb ca cb a b" "config_typed ca"
  shows "\<exists>role. reachable_conn rta (pt_transport pa) (pt_taken pa) (pt_written pa) role ca a"
  using assms(1)
proof induction
  case (start role role' ta ioa store1 a tb iob store2 b)
  then show ?case unfolding reachable_conn_def unused_def using assms(2) by (metis rtranclp.rtrancl_refl)
next
  case (first a b a')
  then show ?case unfolding reachable_conn_def by (meson rtranclp.rtrancl_into_rtrancl)
qed

text \<open>Sending only writes and flushes.\<close>

lemma poll_send_io:
  assumes wr: "\<forall>io bufs. P io \<longrightarrow> P (snd (t_write tr io bufs))" and fl: "\<forall>io. P io \<longrightarrow> P (snd (t_flush tr io))"
  shows "poll_send rt tr fexp now orders a = Some (r, a', ws) \<Longrightarrow> P (cd_io (ac_codec a)) \<Longrightarrow> P (cd_io (ac_codec a'))"
proof (induction orders arbitrary: a ws)
  case (Cons order orders)
  have steps: "(wr_step (t_write tr))\<^sup>*\<^sup>* io io' \<Longrightarrow> P io \<Longrightarrow> P io'" for io io'
    by (induction rule: rtranclp_induct) (use wr in \<open>auto simp: wr_step_def\<close>)
  have writes: "poll_write_pending (t_write tr) t pending io = (q, pending', io') \<Longrightarrow> P io \<Longrightarrow> P io'" for t pending io q pending' io'
    using steps [OF write_steps] by blast
  obtain q c where ready: "codec_poll_ready tr now (ac_codec a) = (q, c)" by fastforce
  have c: "P (cd_io c)" using ready Cons.prems(2) writes by (auto simp: codec_poll_ready_def Let_def split: prod.splits)
  have flush: "P (cd_io c')" if "codec_poll_flush tr now c = (q', c')" for q' c'
  proof -
    obtain q1 p1 io1 where w: "poll_write_pending (t_write tr) (clock_micros (cd_clock c) now) (cd_pending c) (cd_io c) = (q1, p1, io1)"
      by (metis prod_cases3)
    obtain f io2 where f: "t_flush tr io1 = (f, io2)" by fastforce
    have "P io1" "P io2" using writes [OF w c] fl f by (auto dest: spec [of _ io1])
    then show ?thesis using that w f by (auto simp: codec_poll_flush_def sink_finish_def split: poll.splits rres.splits)
  qed
  have start: "cd_io c' = cd_io c" if "codec_start_send c f = Ok c'" for c' f
    using that by (cases "sink_start (cd_pending c) f") (auto simp: codec_start_send_def)
  obtain u sm ws1 where upd: "poll_update fexp order (ac_streams a) now = (u, sm, ws1)" by (metis prod_cases3)
  have IH: "P (cd_io (ac_codec a'))" if "codec_start_send c f = Ok c'"
    "poll_send rt tr fexp now orders (a\<lparr>ac_streams := sm, ac_pings := p, ac_codec := c'\<rparr>) = Some (r, a', ws')" for f p c' ws'
    using Cons.IH [OF that(2)] start [OF that(1)] c by simp
  show ?case using Cons.prems(1) ready upd c flush IH
    by (auto simp: poll_send.simps(2) Let_def split: poll.splits rres.splits if_splits prod.splits)
qed simp

abbreviation demo_connected :: "pipe_pair connection \<Rightarrow> pipe_pair connection \<Rightarrow> bool" where
  "demo_connected \<equiv> connected_peers demo_rt demo_rt demo_port demo_port config_new config_new"

abbreviation demo_step :: "pipe_pair connection \<Rightarrow> pipe_pair connection \<Rightarrow> bool" where
  "demo_step \<equiv> conn_step demo_rt (pt_transport demo_port) (pt_taken demo_port) (pt_written demo_port)"

lemma demo_quiet:
  assumes "demo_connected a b" "demo_step a (a\<lparr>cn_state := ConnActive x\<rparr>)" "pd_in (cd_io (ac_codec x)) = pd_in (pipe_end [])"
  shows "demo_connected (a\<lparr>cn_state := ConnActive x\<rparr>) b"
  by (rule connected_peers.first [OF assms(1,2)])
    (use assms(3) in \<open>simp add: from_peer_def demo_port_def pipe_end_def split: conn_state.split\<close>)

text \<open>The client has opened a stream and written to it.\<close>

lemma demo_opened:
  obtains a b x y where "demo_connected a b" "cn_state a = ConnActive x" "cn_state b = ConnActive y"
    "cd_io (ac_codec x) = pipe_end []" "cd_decoder (ac_codec x) = decoder_default" "0 < cd_sleep_at (ac_codec x)"
    "ac_pings x = pings_new 0 (ping_interval config_new) (ping_bytes config_new)" "cd_io (ac_codec y) = pipe_end []"
proof -
  let ?st = "\<lambda>_ :: sref. stream_new config_new 0" and ?h = "\<lparr>half_id = StreamId 0, half_shared = True\<rparr>"
  from demo_start [of Client] obtain a x where a: "connection_new demo_rt 0 Client (pipe_end []) config_new ?st = Ok a" "cn_state a = ConnActive x"
    "ac_streams x = streams_new Client config_new ?st" "cd_io (ac_codec x) = pipe_end []"
    "ac_pings x = pings_new 0 (ping_interval config_new) (ping_bytes config_new)"
    "cd_decoder (ac_codec x) = decoder_default" "0 < cd_sleep_at (ac_codec x)" .
  from demo_start [of Server] obtain b y where b: "connection_new demo_rt 0 Server (pipe_end []) config_new ?st = Ok b" "cn_state b = ConnActive y"
    "cd_io (ac_codec y) = pipe_end []" .
  define x1 where "x1 = snd (active_open_outbound 0 x 0)"
  define x2 where "x2 = x1\<lparr>ac_streams := (ac_streams x1)\<lparr>sm_store := (sm_store (ac_streams x1))
    (0 := fst (snd (snd (sink_start_send ?h (sm_store (ac_streams x1) 0) [7, 9] 0))))\<rparr>\<rparr>"
  have codec: "ac_codec x1 = ac_codec x" "ac_codec x2 = ac_codec x" "ac_pings x2 = ac_pings x"
    by (simp_all add: x2_def x1_def active_open_outbound_def Let_def split: prod.split)
  have s1: "demo_step a (a\<lparr>cn_state := ConnActive x1\<rparr>)"
    by (rule conn_step.opens [of _ 0 0 "Ok (fst (active_open_outbound 0 x 0))"])
      (simp_all add: a(2,3) streams_new_def try_start_outbound_def x1_def split: prod.split)
  have "0 < sm_fresh (ac_streams x1)"
    by (simp add: x1_def active_open_outbound_def a(3) open_outbound_def start_stream_def streams_new_def outbound_count_def
        config_new_def from_slab_idx_eq Let_def)
  then have s2: "demo_step (a\<lparr>cn_state := ConnActive x1\<rparr>) (a\<lparr>cn_state := ConnActive x1, cn_state := ConnActive x2\<rparr>)"
    unfolding x2_def by (intro conn_step.uses app_step.send) simp_all
  have "demo_connected a b" by (rule connected_peers.start [OF _ a(1) b(1)]) (simp_all add: unused_def demo_port_def pipe_end_def)
  from demo_quiet [OF demo_quiet [OF this s1] s2] have "demo_connected (a\<lparr>cn_state := ConnActive x2\<rparr>) b" by (simp add: codec a(4))
  then show thesis by (rule that [of _ b x2 y]) (simp_all add: codec a b)
qed

text \<open>Then it is polled.\<close>

lemma demo_polled:
  obtains a b x y where "demo_connected a b" "cn_state a = ConnActive x" "cn_state b = ConnActive y"
    "cd_pending (ac_codec x) = None" "written_by demo_port x \<noteq> []" "cd_io (ac_codec y) = pipe_end []"
proof -
  have lim: "0 + never \<le> rt_limit demo_rt" by (simp add: demo_rt_def)
  from demo_opened obtain a b x y where h: "demo_connected a b" and st: "cn_state a = ConnActive x" "cn_state b = ConnActive y"
    and x: "cd_io (ac_codec x) = pipe_end []" "cd_decoder (ac_codec x) = decoder_default" "0 < cd_sleep_at (ac_codec x)"
      "ac_pings x = pings_new 0 (ping_interval config_new) (ping_bytes config_new)" and y: "cd_io (ac_codec y) = pipe_end []" .
  from connected_ok [OF h demo_port_ok(1,3) demo_port_ok(1,3) config_new_typed config_new_typed config_new_compatible]
  have "ends_ok demo_port demo_port x y" using st by (simp add: both_ok_def)
  then obtain ds fs where "active_inv (pt_taken demo_port) (pt_written demo_port) x ds fs" unfolding ends_ok_def by blast
  then have inv: "active_inv (\<lambda>d. pd_taken d) (\<lambda>d. pd_written d) x ds fs" by (simp add: demo_port_def)
  define orders where "orders = [0 :: sref] # replicate (2 * work (ac_streams x) + 1) [0]"
  have "\<exists>res. poll_send demo_rt pipe_transport (\<lambda>_. 1) 0 orders x = Some res"
    using inv x(4) demo_pings(1) codec_ready_idle
    by (intro poll_send_returns [OF lim demo_timer]) (simp_all add: active_inv_def orders_def)
  then obtain r x' ws where send: "poll_send demo_rt pipe_transport (\<lambda>_. 1) 0 orders x = Some (r, x', ws)" by (metis prod_cases3)
  have idle: "r = Pending" "cd_pending (ac_codec x') = None" using poll_send_flushes [OF pipe_transport_ok pipe_accepting lim inv send] by blast+
  obtain pong p where "take_frame_part (rt_fires demo_rt) (rt_limit demo_rt) (ac_pings x) 0 = (Ok (pong, True, p) :: (_, error_kind) rres)"
    using demo_pings(2) x(4) by auto
  from poll_send_writes [OF pipe_transport_ok pipe_accepting lim inv send [unfolded orders_def] this]
  have wr: "written_by demo_port x' \<noteq> []" by (simp add: demo_port_def)
  have "receive_batch demo_rt pipe_transport (\<lambda>_. 1) 0 INBOUND_BATCH Pending x = (Ok (BatchDone Pending), x, [])"
    using demo_waits [OF x(2,1,3), of "\<lambda>_. 1"] by (simp add: INBOUND_BATCH_def numeral_eq_Suc)
  then have "poll_progress_conn demo_rt pipe_transport (\<lambda>_. 1) 0 orders a = Some (Pending, a\<lparr>cn_state := ConnActive x'\<rparr>, ws)"
    using send idle(1) st(1) by (simp add: poll_progress_conn_def poll_progress_inner_def)
  then have step: "demo_step a (a\<lparr>cn_state := ConnActive x'\<rparr>)" using conn_step.polls [OF lim] by (auto simp: demo_port_def)
  have "pd_in (cd_io (ac_codec x')) = pd_in (pipe_end [])"
    by (rule poll_send_io [OF _ _ send, where P = "\<lambda>io. pd_in io = pd_in (pipe_end [])"])
      (simp_all add: pipe_transport_def x(1) split: prod.split)
  from demo_quiet [OF h step this] show thesis by (rule that [of _ b x' y]) (simp_all add: st idle(2) wr y)
qed

text \<open>Then what it wrote arrives at the server.\<close>

lemma connected_example:
  obtains a b x y where "demo_connected a b" "cn_state a = ConnActive x" "cn_state b = ConnActive y" "taken_by demo_port y = []"
    "ahead_of demo_port y = written_by demo_port x" "cd_pending (ac_codec x) = None" "written_by demo_port x \<noteq> []"
proof -
  from demo_polled obtain a b x y where h: "demo_connected a b" and st: "cn_state a = ConnActive x" "cn_state b = ConnActive y"
    and x: "cd_pending (ac_codec x) = None" "written_by demo_port x \<noteq> []" and y: "cd_io (ac_codec y) = pipe_end []" .
  define y' where "y' = y\<lparr>ac_codec := (ac_codec y)\<lparr>cd_io := pipe_end (written_by demo_port x)\<rparr>\<rparr>"
  have step: "demo_step b (b\<lparr>cn_state := ConnActive y'\<rparr>)"
    unfolding y'_def by (rule conn_step.moves [OF st(2)]) (simp_all add: demo_port_def pipe_end_def y)
  have arr: "taken_by demo_port y' = []" "ahead_of demo_port y' = written_by demo_port x" by (simp_all add: y'_def demo_port_def pipe_end_def)
  have "demo_connected a (b\<lparr>cn_state := ConnActive y'\<rparr>)" by (rule connected_peers.second [OF h step]) (simp add: from_peer_def st arr)
  then show thesis by (rule that [of _ _ x y']) (simp_all add: st arr x)
qed

theorem connections_agree_witness:
  "\<exists>a b x y orders r b' ws. demo_connected b a
     \<and> cn_state a = ConnActive x \<and> cn_state b = ConnActive y \<and> ahead_of demo_port y \<noteq> []
     \<and> poll_progress_conn demo_rt (pt_transport demo_port) (\<lambda>_. 1) 1 orders b = Some (r, b', ws)
     \<and> (r = Pending \<or> r = Ready (Ok ProgressEmpty) \<or> (\<exists>dx. r = Ready (Ok (ProgressInbound dx))) \<or> (\<exists>e. r = Ready (Err (RammuxError (Io e)))))"
proof -
  from connected_example obtain a b x y where ab: "demo_connected a b"
    "cn_state a = ConnActive x" "cn_state b = ConnActive y" "ahead_of demo_port y = written_by demo_port x" "written_by demo_port x \<noteq> []" .
  note ba = connected_swap [OF ab(1)]
  from connected_reachable [OF ba config_new_typed] obtain role where
    "reachable_conn demo_rt (pt_transport demo_port) (pt_taken demo_port) (pt_written demo_port) role config_new b" ..
  from progress_total [OF demo_port_ok(1) demo_timer demo_limit this, of "\<lambda>_. 1"] obtain n where
    "\<forall>orders. n \<le> length orders \<longrightarrow> (\<exists>r b' ws. poll_progress_conn demo_rt (pt_transport demo_port) (\<lambda>_. 1) 1 orders b = Some (r, b', ws))" ..
  then obtain r b' ws where op: "poll_progress_conn demo_rt (pt_transport demo_port) (\<lambda>_. 1) 1 (replicate n []) b = Some (r, b', ws)"
    by (metis length_replicate order_refl)
  note agree = connections_agree [OF ba demo_port_ok(1,3) demo_port_ok(1,3) config_new_typed config_new_typed config_new_compatible ab(3,2) demo_limit op]
  have "ahead_of demo_port y \<noteq> []" using ab(4,5) by simp
  then show ?thesis using ba ab(2,3) op agree by blast
qed

text \<open>
  C7. What was written arrives. When a connection wrote its frames out and the transport delivered the bytes,
  the receiving half of the other connection processes all of them: as long as bytes are there, no poll for a frame waits or fails, each processes a
  frame, and after at most as many polls as there are bytes every byte was taken.
\<close>

theorem connections_deliver:
  assumes "connected_peers rta rtb pa pb ca cb a b" "port_ok pa" "arrivals_ok pa" "port_ok pb"
    and "ready_source (t_read (pt_transport pb)) (pt_taken pb) (pt_ahead pb)"
    and "config_typed ca" "config_typed cb" "config_compatible ca cb" "cn_state a = ConnActive x" "cn_state b = ConnActive y"
    and "now + never \<le> rt_limit rt" "taken_by pb y @ ahead_of pb y = written_by pa x" "cd_pending (ac_codec x) = None"
  shows "\<exists>n y'. n \<le> length (ahead_of pb y) \<and> receive_frames rt (pt_transport pb) fexp now n y = Some y'
    \<and> taken_by pb y' = written_by pa x \<and> ahead_of pb y' = []"
proof -
  have "ends_ok pa pb x y"
    using connected_ok [OF assms(1-4) ready_source.axioms(1) [OF assms(5)] assms(6-8)] assms(9,10) by (simp add: both_ok_def)
  from ends_deliver_all [OF assms(4,11,5) this assms(12,13)] show ?thesis .
qed

theorem connections_deliver_witness:
  "\<exists>a b x y n y'. demo_connected a b \<and> cn_state a = ConnActive x \<and> cn_state b = ConnActive y
     \<and> taken_by demo_port y = [] \<and> written_by demo_port x \<noteq> []
     \<and> receive_frames demo_rt (pt_transport demo_port) (\<lambda>_. 1) 1 n y = Some y' \<and> taken_by demo_port y' = written_by demo_port x"
proof -
  from connected_example obtain a b x y where ab: "demo_connected a b"
    "cn_state a = ConnActive x" "cn_state b = ConnActive y" "taken_by demo_port y = []" "ahead_of demo_port y = written_by demo_port x"
    "cd_pending (ac_codec x) = None" "written_by demo_port x \<noteq> []" .
  have all: "taken_by demo_port y @ ahead_of demo_port y = written_by demo_port x" using ab(4,5) by simp
  from connections_deliver [OF ab(1) demo_port_ok(1,3,1,2) config_new_typed config_new_typed config_new_compatible ab(2,3) demo_limit all ab(6), of "\<lambda>_. 1"] ab
  show ?thesis by blast
qed

end
